(* ===== verification/Prelude.thy ===== *)
theory Prelude
  imports Main "HOL-Library.Word" "HOL-Library.Product_Lexorder" "HOL-Library.Multiset"
begin

text \<open>
  Shared ground of the development: the machine integers of the program, computations that
  can fail, panic or not return, the rules that reason about them, and the two list idioms the
  source uses again and again (sorting by a key, and growing the last group of a vector).

  Integers are words of the width the source gives them; \<open>+\<close>, \<open>-\<close> and \<open>*\<close> on them wrap, as
  they do in the release build the package ships. Where a theorem needs that nothing wraps, it
  says so with \<open>fits\<close>.
\<close>

section \<open>Machine integers\<close>

type_synonym u8 = "8 word"
type_synonym u16 = "16 word"
type_synonym u32 = "32 word"
type_synonym u64 = "64 word"
type_synonym u128 = "128 word"

text \<open>Collections: facts about words read as numbers, preservation rules, and rewrite rules of
  weakest preconditions.\<close>

named_theorems unat_simps
named_theorems preserve
named_theorems wp_simps
named_theorems safe_intros
named_theorems calm_intros

text \<open>\<open>fits a b\<close>: the sum of the two does not wrap.\<close>

definition fits :: "u64 \<Rightarrow> u64 \<Rightarrow> bool" where
  "fits a b \<longleftrightarrow> unat a + unat b < 2 ^ 64"

lemma unat_add_fits [unat_simps]: "fits a b \<Longrightarrow> unat (a + b) = unat a + unat b"
  by (simp add: fits_def unat_word_ariths)

lemma unat_sub_le [unat_simps]: "b \<le> a \<Longrightarrow> unat (a - b) = unat a - unat b" for a b :: "'a::len word"
  by (simp add: unat_sub)

lemma unat_min [unat_simps]: "unat (min a b) = min (unat a) (unat b)" for a b :: "'a::len word"
  by (simp add: min_def word_le_nat_alt)

lemma unat_max [unat_simps]: "unat (max a b) = max (unat a) (unat b)" for a b :: "'a::len word"
  by (simp add: max_def word_le_nat_alt)

lemma unat_u64_bound: "unat a < 2 ^ 64" for a :: u64
  using unsigned_less [of a] by simp

lemma fits_le: "fits a b \<Longrightarrow> a \<le> a + b"
  by (simp add: word_le_nat_alt unat_simps)

lemma fits_zero [simp]: "fits a 0" "fits 0 a"
  using unat_u64_bound [of a] by (simp_all add: fits_def)

text \<open>The casts \<open>as u128\<close> and \<open>as u64\<close>.\<close>

lemma unat_widen: "unat (ucast a :: u128) = unat a" for a :: u64
proof -
  have "unat a < 2 ^ 128" using unat_u64_bound [of a] by (rule less_trans) simp
  then show ?thesis by (simp add: unsigned_ucast_eq take_bit_nat_eq_self)
qed

lemma unat_narrow: "unat (ucast a :: u64) = unat a mod 2 ^ 64" for a :: u128
  by (simp add: unsigned_ucast_eq take_bit_eq_mod)

text \<open>Half-open intervals of words are counted as the naturals they stand for.\<close>

lemma unat_image_interval: "unat ` {a..<b} = {unat a..<unat b}" for a b :: "'a::len word"
proof
  show "unat ` {a..<b} \<subseteq> {unat a..<unat b}"
    by (auto simp: word_le_nat_alt word_less_nat_alt)
  show "{unat a..<unat b} \<subseteq> unat ` {a..<b}"
  proof
    fix n assume n: "n \<in> {unat a..<unat b}"
    then have "n < 2 ^ LENGTH('a)"
      using unsigned_less [of b] by (meson atLeastLessThan_iff less_trans)
    then have "unat (of_nat n :: 'a word) = n"
      by (simp add: unat_of_nat)
    with n show "n \<in> unat ` {a..<b}"
      by (intro image_eqI [of _ _ "of_nat n"]) (auto simp: word_le_nat_alt word_less_nat_alt)
  qed
qed

lemma card_word_interval: "card {a..<b} = unat b - unat a" for a b :: "'a::len word"
proof -
  have "card (unat ` {a..<b}) = card {a..<b}"
    by (intro card_image inj_onI) (simp add: word_unat_eq_iff)
  then show ?thesis
    by (simp add: unat_image_interval)
qed

text \<open>\<open>u64::ilog2\<close>: the position of the highest set bit. The source only asks it of a value of
  at least one.\<close>

fun ilog2 :: "nat \<Rightarrow> nat" where
  "ilog2 n = (if n < 2 then 0 else Suc (ilog2 (n div 2)))"

declare ilog2.simps [simp del]

lemma ilog2_less: "n < 2 ^ k \<Longrightarrow> 0 < k \<Longrightarrow> ilog2 n < k"
proof (induction n arbitrary: k rule: ilog2.induct)
  case (1 n)
  show ?case
  proof (cases "n < 2")
    case True
    with "1.prems" show ?thesis by (simp add: ilog2.simps [of n])
  next
    case False
    with "1.prems" obtain k' where k: "k = Suc k'" "0 < k'"
      by (cases k; cases "k - 1") auto
    with "1.prems" have "n div 2 < 2 ^ k'" by auto
    with "1.IH" [of k'] False k show ?thesis by (simp add: ilog2.simps [of n])
  qed
qed

lemma ilog2_bounds: "0 < n \<Longrightarrow> 2 ^ ilog2 n \<le> n \<and> n < 2 ^ Suc (ilog2 n)"
proof (induction n rule: ilog2.induct)
  case (1 n)
  show ?case
  proof (cases "n < 2")
    case True
    with "1.prems" show ?thesis by (simp add: ilog2.simps [of n])
  next
    case False
    with "1.IH" have "2 ^ ilog2 (n div 2) \<le> n div 2 \<and> n div 2 < 2 ^ Suc (ilog2 (n div 2))"
      by simp
    with False show ?thesis by (auto simp: ilog2.simps [of n])
  qed
qed

section \<open>Computations\<close>

text \<open>
  A function of the source that can fail is a computation over a state: it ends with a value,
  or stops. \<open>Raise e\<close> is an \<open>Err(e)\<close> on its way out through \<open>?\<close>; \<open>Panic\<close> is a Rust panic
  (an index out of range, an \<open>unwrap\<close> of \<open>None\<close>); \<open>NoReturn\<close> is a loop that used up the rounds
  the model grants it, and so stands for not returning.
\<close>

datatype 'e stop = Raise 'e | Panic | NoReturn

type_synonym ('s, 'e, 'a) comp = "'s \<Rightarrow> ('e stop + 'a) \<times> 's"

definition ret :: "'a \<Rightarrow> ('s, 'e, 'a) comp" where
  "ret x s = (Inr x, s)"

definition stop :: "'e stop \<Rightarrow> ('s, 'e, 'a) comp" where
  "stop q s = (Inl q, s)"

abbreviation raise :: "'e \<Rightarrow> ('s, 'e, 'a) comp" where
  "raise e \<equiv> stop (Raise e)"

text \<open>\<open>bindE m f\<close> is \<open>let x = m?; f(x)\<close>.\<close>

definition bindE :: "('s, 'e, 'a) comp \<Rightarrow> ('a \<Rightarrow> ('s, 'e, 'b) comp) \<Rightarrow> ('s, 'e, 'b) comp" where
  "bindE m f s = (case m s of (Inl q, s') \<Rightarrow> (Inl q, s') | (Inr x, s') \<Rightarrow> f x s')"

text \<open>\<open>matchE m ok err\<close> is \<open>match m { Ok(x) => ok(x), Err(e) => err(e) }\<close>; a panic or a loop
  without end is not caught.\<close>

definition matchE ::
  "('s, 'e, 'a) comp \<Rightarrow> ('a \<Rightarrow> ('s, 'f, 'b) comp) \<Rightarrow> ('e \<Rightarrow> ('s, 'f, 'b) comp) \<Rightarrow> ('s, 'f, 'b) comp"
where
  "matchE m ok err s =
     (case m s of
        (Inr x, s') \<Rightarrow> ok x s'
      | (Inl q, s') \<Rightarrow>
          (case q of Raise e \<Rightarrow> err e s' | Panic \<Rightarrow> (Inl Panic, s') | NoReturn \<Rightarrow> (Inl NoReturn, s')))"

text \<open>\<open>m.map_err(f)\<close>.\<close>

definition map_err :: "('e \<Rightarrow> 'f) \<Rightarrow> ('s, 'e, 'a) comp \<Rightarrow> ('s, 'f, 'a) comp" where
  "map_err f m = matchE m ret (\<lambda>e. raise (f e))"

text \<open>A panic where the source unwraps or indexes, made of an \<open>option\<close>.\<close>

definition unwrap :: "'a option \<Rightarrow> ('s, 'e, 'a) comp" where
  "unwrap x = (case x of Some y \<Rightarrow> ret y | None \<Rightarrow> stop Panic)"

text \<open>Reading and writing the state itself.\<close>

definition getS :: "('s, 'e, 's) comp" where
  "getS s = (Inr s, s)"

definition modifyS :: "('s \<Rightarrow> 's) \<Rightarrow> ('s, 'e, unit) comp" where
  "modifyS f s = (Inr (), f s)"

text \<open>A \<open>for\<close> loop with mutable locals: every element in order, each seeing what the last left.\<close>

fun foldE :: "('x \<Rightarrow> 'b \<Rightarrow> ('s, 'e, 'b) comp) \<Rightarrow> 'x list \<Rightarrow> 'b \<Rightarrow> ('s, 'e, 'b) comp" where
  "foldE f [] b = ret b"
| "foldE f (x # xs) b = bindE (f x b) (\<lambda>b'. foldE f xs b')"

text \<open>\<open>.map(f).collect::<Result<Vec<_>, _>>()\<close>: in order, stopping at the first error.\<close>

fun mapE :: "('x \<Rightarrow> ('s, 'e, 'y) comp) \<Rightarrow> 'x list \<Rightarrow> ('s, 'e, 'y list) comp" where
  "mapE f [] = ret []"
| "mapE f (x # xs) = bindE (f x) (\<lambda>y. bindE (mapE f xs) (\<lambda>ys. ret (y # ys)))"

text \<open>\<open>.iter().any(p)\<close> over an effectful test: stops at the first that holds.\<close>

fun anyE :: "('x \<Rightarrow> ('s, 'e, bool) comp) \<Rightarrow> 'x list \<Rightarrow> ('s, 'e, bool) comp" where
  "anyE p [] = ret False"
| "anyE p (x # xs) = bindE (p x) (\<lambda>b. if b then ret True else anyE p xs)"

subsection \<open>Weakest preconditions\<close>

text \<open>\<open>wp m Q E s\<close>: run from \<open>s\<close>, \<open>m\<close> ends in a value and state with \<open>Q\<close>, or stops with \<open>E\<close>.\<close>

definition wp :: "('s, 'e, 'a) comp \<Rightarrow> ('a \<Rightarrow> 's \<Rightarrow> bool) \<Rightarrow> ('e stop \<Rightarrow> 's \<Rightarrow> bool) \<Rightarrow> 's \<Rightarrow> bool" where
  "wp m Q E s = (case m s of (Inr x, s') \<Rightarrow> Q x s' | (Inl q, s') \<Rightarrow> E q s')"

lemma wp_ret [wp_simps]: "wp (ret x) Q E s = Q x s"
  by (simp add: wp_def ret_def)

lemma wp_stop [wp_simps]: "wp (stop q) Q E s = E q s"
  by (simp add: wp_def stop_def)

lemma wp_getS [wp_simps]: "wp getS Q E s = Q s s"
  by (simp add: wp_def getS_def)

lemma wp_modifyS [wp_simps]: "wp (modifyS f) Q E s = Q () (f s)"
  by (simp add: wp_def modifyS_def)

lemma wp_bindE [wp_simps]: "wp (bindE m f) Q E s = wp m (\<lambda>x. wp (f x) Q E) E s"
  by (simp add: wp_def bindE_def split: prod.splits sum.splits)

lemma wp_matchE [wp_simps]:
  "wp (matchE m ok err) Q E s =
     wp m (\<lambda>x. wp (ok x) Q E)
       (\<lambda>q. case q of Raise e \<Rightarrow> wp (err e) Q E | Panic \<Rightarrow> E Panic | NoReturn \<Rightarrow> E NoReturn) s"
  by (simp add: wp_def matchE_def split: prod.splits sum.splits stop.splits)

lemma wp_map_err [wp_simps]:
  "wp (map_err f m) Q E s =
     wp m Q (\<lambda>q. case q of Raise e \<Rightarrow> E (Raise (f e)) | Panic \<Rightarrow> E Panic | NoReturn \<Rightarrow> E NoReturn) s"
  by (simp add: wp_def map_err_def matchE_def ret_def stop_def split: prod.splits sum.splits stop.splits)

lemma wp_unwrap [wp_simps]:
  "wp (unwrap x) Q E s = (case x of Some y \<Rightarrow> Q y s | None \<Rightarrow> E Panic s)"
  by (simp add: unwrap_def wp_ret wp_stop split: option.splits)

lemma wp_if [wp_simps]: "wp (if b then m else n) Q E s = (if b then wp m Q E s else wp n Q E s)"
  by simp

lemma wp_mono:
  assumes "wp m Q E s"
    and "\<And>x s'. Q x s' \<Longrightarrow> Q' x s'" and "\<And>q s'. E q s' \<Longrightarrow> E' q s'"
  shows "wp m Q' E' s"
  using assms by (auto simp: wp_def split: prod.splits sum.splits)

lemma wp_conj: "wp m Q E s \<Longrightarrow> wp m Q' E' s \<Longrightarrow> wp m (\<lambda>x s. Q x s \<and> Q' x s) (\<lambda>q s. E q s \<and> E' q s) s"
  by (auto simp: wp_def split: prod.splits sum.splits)

lemma wp_ok: "wp m Q E s \<Longrightarrow> m s = (Inr x, s') \<Longrightarrow> Q x s'"
  by (simp add: wp_def)

lemma wp_err: "wp m Q E s \<Longrightarrow> m s = (Inl q, s') \<Longrightarrow> E q s'"
  by (simp add: wp_def)

lemma wpI: "(\<And>x s'. m s = (Inr x, s') \<Longrightarrow> Q x s') \<Longrightarrow> (\<And>q s'. m s = (Inl q, s') \<Longrightarrow> E q s') \<Longrightarrow> wp m Q E s"
  by (auto simp: wp_def split: prod.splits sum.splits)

text \<open>The loop rule: an invariant over the elements done so far.\<close>

lemma wp_foldE:
  assumes "I [] b s"
    and step: "\<And>ys x zs b s. xs = ys @ x # zs \<Longrightarrow> I ys b s \<Longrightarrow> wp (f x b) (I (ys @ [x])) E s"
  shows "wp (foldE f xs b) (I xs) E s"
proof -
  have "wp (foldE f zs b) (I xs) E s" if "xs = ys @ zs" "I ys b s" for ys zs b s
    using that
  proof (induction zs arbitrary: ys b s)
    case Nil
    then show ?case by (simp add: wp_simps)
  next
    case (Cons z zs)
    from step [OF Cons.prems] have "wp (f z b) (I (ys @ [z])) E s" .
    moreover have "wp (foldE f zs b') (I xs) E s'" if "I (ys @ [z]) b' s'" for b' s'
      using Cons.IH [of "ys @ [z]"] Cons.prems(1) that by simp
    ultimately show ?case
      by (auto simp: wp_simps intro: wp_mono)
  qed
  from this [of "[]" xs] assms(1) show ?thesis by simp
qed

text \<open>What a successful run was made of.\<close>

lemma bindE_Inr:
  "bindE m f s = (Inr y, s') \<longleftrightarrow> (\<exists>x t. m s = (Inr x, t) \<and> f x t = (Inr y, s'))"
  by (auto simp: bindE_def split: prod.splits sum.splits)

lemma bindE_Inl:
  "bindE m f s = (Inl q, s') \<longleftrightarrow>
     m s = (Inl q, s') \<or> (\<exists>x t. m s = (Inr x, t) \<and> f x t = (Inl q, s'))"
  by (auto simp: bindE_def split: prod.splits sum.splits)

lemma matchE_Inr:
  "matchE m ok err s = (Inr y, s') \<longleftrightarrow>
     (\<exists>x t. m s = (Inr x, t) \<and> ok x t = (Inr y, s')) \<or>
     (\<exists>e t. m s = (Inl (Raise e), t) \<and> err e t = (Inr y, s'))"
  by (auto simp: matchE_def split: prod.splits sum.splits stop.splits)

lemma map_err_Inr [simp]: "map_err f m s = (Inr y, s') \<longleftrightarrow> m s = (Inr y, s')"
  by (auto simp: map_err_def matchE_def ret_def stop_def split: prod.splits sum.splits stop.splits)

lemma ret_eq [simp]: "ret x s = (r, s') \<longleftrightarrow> r = Inr x \<and> s' = s"
  by (auto simp: ret_def)

lemma stop_eq [simp]: "stop q s = (r, s') \<longleftrightarrow> r = Inl q \<and> s' = s"
  by (auto simp: stop_def)

lemma getS_eq [simp]: "getS s = (r, s') \<longleftrightarrow> r = Inr s \<and> s' = s"
  by (auto simp: getS_def)

lemma modifyS_eq [simp]: "modifyS f s = (r, s') \<longleftrightarrow> r = Inr () \<and> s' = f s"
  by (auto simp: modifyS_def)

lemma unwrap_Inr [simp]: "unwrap x s = (Inr y, s') \<longleftrightarrow> x = Some y \<and> s' = s"
  by (auto simp: unwrap_def split: option.splits)

lemmas comp_defs = ret_def stop_def bindE_def matchE_def map_err_def unwrap_def getS_def modifyS_def

subsection \<open>Preservation\<close>

text \<open>\<open>preserves I m\<close>: whatever way \<open>m\<close> ends, it keeps \<open>I\<close>.\<close>

definition preserves :: "('s \<Rightarrow> bool) \<Rightarrow> ('s, 'e, 'a) comp \<Rightarrow> bool" where
  "preserves I m \<longleftrightarrow> (\<forall>s. I s \<longrightarrow> I (snd (m s)))"

lemma preservesD: "preserves I m \<Longrightarrow> I s \<Longrightarrow> I (snd (m s))"
  by (simp add: preserves_def)

lemma preserves_end: "preserves I m \<Longrightarrow> I s \<Longrightarrow> m s = (r, s') \<Longrightarrow> I s'"
  by (drule (1) preservesD) simp

lemma preserves_wp: "preserves I m \<Longrightarrow> I s \<Longrightarrow> wp m (\<lambda>_. I) (\<lambda>_. I) s"
  by (rule wpI; rule preserves_end)

lemma preserves_ret [preserve]: "preserves I (ret x)"
  by (simp add: preserves_def ret_def)

lemma preserves_stop [preserve]: "preserves I (stop q)"
  by (simp add: preserves_def stop_def)

lemma preserves_getS [preserve]: "preserves I getS"
  by (simp add: preserves_def getS_def)

lemma preserves_unwrap [preserve]: "preserves I (unwrap x)"
  by (simp add: unwrap_def preserve split: option.splits)

lemma preserves_bindE [preserve]:
  "preserves I m \<Longrightarrow> (\<And>x. preserves I (f x)) \<Longrightarrow> preserves I (bindE m f)"
  by (auto simp: preserves_def bindE_def split: prod.splits sum.splits)

text \<open>When what \<open>m\<close> returns matters.\<close>

lemma preserves_bindE_val:
  assumes "preserves I m" and "\<And>x s s'. m s = (Inr x, s') \<Longrightarrow> preserves I (f x)"
  shows "preserves I (bindE m f)"
proof -
  have "I (snd (bindE m f s))" if "I s" for s
    using preservesD [OF assms(1) that] preservesD [OF assms(2)]
    by (cases "m s"; cases "fst (m s)") (auto simp: bindE_def)
  then show ?thesis by (simp add: preserves_def)
qed

lemma preserves_matchE [preserve]:
  "preserves I m \<Longrightarrow> (\<And>x. preserves I (ok x)) \<Longrightarrow> (\<And>e. preserves I (err e)) \<Longrightarrow>
     preserves I (matchE m ok err)"
  by (auto simp: preserves_def matchE_def split: prod.splits sum.splits stop.splits)

lemma preserves_map_err [preserve]: "preserves I m \<Longrightarrow> preserves I (map_err f m)"
  by (simp add: map_err_def preserve)

lemma preserves_if [preserve]:
  "(b \<Longrightarrow> preserves I m) \<Longrightarrow> (\<not> b \<Longrightarrow> preserves I n) \<Longrightarrow> preserves I (if b then m else n)"
  by simp

lemma preserves_foldE [preserve]:
  "(\<And>x b. preserves I (f x b)) \<Longrightarrow> preserves I (foldE f xs b)"
  by (induction xs arbitrary: b) (auto intro!: preserve)

lemma preserves_mapE [preserve]: "(\<And>x. preserves I (f x)) \<Longrightarrow> preserves I (mapE f xs)"
  by (induction xs) (auto intro!: preserve)

lemma preserves_anyE [preserve]: "(\<And>x. preserves I (p x)) \<Longrightarrow> preserves I (anyE p xs)"
  by (induction xs) (auto intro!: preserve)

lemma preserves_modifyS: "(\<And>s. I s \<Longrightarrow> I (f s)) \<Longrightarrow> preserves I (modifyS f)"
  by (simp add: preserves_def modifyS_def)

lemma preserves_option [preserve]:
  "(x = None \<Longrightarrow> preserves I m) \<Longrightarrow> (\<And>y. x = Some y \<Longrightarrow> preserves I (f y)) \<Longrightarrow>
     preserves I (case x of None \<Rightarrow> m | Some y \<Rightarrow> f y)"
  by (cases x) auto

lemma preserves_sum [preserve]:
  "(\<And>y. x = Inl y \<Longrightarrow> preserves I (g y)) \<Longrightarrow> (\<And>y. x = Inr y \<Longrightarrow> preserves I (f y)) \<Longrightarrow>
     preserves I (case x of Inl y \<Rightarrow> g y | Inr y \<Rightarrow> f y)"
  by (cases x) auto

lemma preserves_prod [preserve]:
  "(\<And>a b. x = (a, b) \<Longrightarrow> preserves I (f a b)) \<Longrightarrow> preserves I (case x of (a, b) \<Rightarrow> f a b)"
  by (cases x) auto

subsection \<open>Panics\<close>

text \<open>\<open>calm m\<close>: whatever the state, \<open>m\<close> does not panic.\<close>

definition calm :: "('s, 'e, 'a) comp \<Rightarrow> bool" where
  "calm m \<longleftrightarrow> (\<forall>s. fst (m s) \<noteq> Inl Panic)"

lemma calmD: "calm m \<Longrightarrow> m s = (Inl q, s') \<Longrightarrow> q \<noteq> Panic"
  unfolding calm_def by (metis fst_conv)

lemma calmI: "(\<And>s s'. m s \<noteq> (Inl Panic, s')) \<Longrightarrow> calm m"
  unfolding calm_def by (metis prod.collapse)

lemma calm_ret [calm_intros]: "calm (ret x)"
  by (simp add: calm_def ret_def)

lemma calm_stop [calm_intros]: "q \<noteq> Panic \<Longrightarrow> calm (stop q)"
  by (simp add: calm_def stop_def)

lemma calm_getS [calm_intros]: "calm getS"
  by (simp add: calm_def getS_def)

lemma calm_modifyS [calm_intros]: "calm (modifyS f)"
  by (simp add: calm_def modifyS_def)

lemma calm_unwrap: "x \<noteq> None \<Longrightarrow> calm (unwrap x)"
  by (auto simp: calm_def unwrap_def ret_def)

lemma calm_bindE:
  assumes "calm m" and "\<And>x s s'. m s = (Inr x, s') \<Longrightarrow> calm (f x)"
  shows "calm (bindE m f)"
  by (rule calmI) (auto simp: bindE_Inl dest: calmD [OF assms(1)] calmD [OF assms(2)])

lemma calm_bind [calm_intros]: "calm m \<Longrightarrow> (\<And>x. calm (f x)) \<Longrightarrow> calm (bindE m f)"
  by (rule calm_bindE)

lemma calm_matchE:
  assumes "calm m" and "\<And>x s s'. m s = (Inr x, s') \<Longrightarrow> calm (ok x)" and "\<And>e. calm (err e)"
  shows "calm (matchE m ok err)"
  by (rule calmI)
     (auto simp: matchE_def split: prod.splits sum.splits stop.splits
       dest: calmD [OF assms(1)] calmD [OF assms(2)] calmD [OF assms(3)])

lemma calm_match [calm_intros]:
  "calm m \<Longrightarrow> (\<And>x. calm (ok x)) \<Longrightarrow> (\<And>e. calm (err e)) \<Longrightarrow> calm (matchE m ok err)"
  by (rule calm_matchE)

lemma calm_map_err [calm_intros]: "calm m \<Longrightarrow> calm (map_err f m)"
  unfolding map_err_def by (intro calm_match calm_ret calm_stop) simp_all

lemma calm_if [calm_intros]: "(b \<Longrightarrow> calm m) \<Longrightarrow> (\<not> b \<Longrightarrow> calm n) \<Longrightarrow> calm (if b then m else n)"
  by simp

lemma calm_option [calm_intros]:
  "(x = None \<Longrightarrow> calm m) \<Longrightarrow> (\<And>y. x = Some y \<Longrightarrow> calm (f y)) \<Longrightarrow> calm (case x of None \<Rightarrow> m | Some y \<Rightarrow> f y)"
  by (cases x) auto

lemma calm_sum [calm_intros]:
  "(\<And>y. x = Inl y \<Longrightarrow> calm (g y)) \<Longrightarrow> (\<And>y. x = Inr y \<Longrightarrow> calm (f y)) \<Longrightarrow>
     calm (case x of Inl y \<Rightarrow> g y | Inr y \<Rightarrow> f y)"
  by (cases x) auto

lemma calm_prod [calm_intros]: "(\<And>a b. x = (a, b) \<Longrightarrow> calm (f a b)) \<Longrightarrow> calm (case x of (a, b) \<Rightarrow> f a b)"
  by (cases x) auto

lemma calm_list [calm_intros]:
  "(x = [] \<Longrightarrow> calm m) \<Longrightarrow> (\<And>y ys. x = y # ys \<Longrightarrow> calm (f y ys)) \<Longrightarrow>
     calm (case x of [] \<Rightarrow> m | y # ys \<Rightarrow> f y ys)"
  by (cases x) auto

lemma calm_foldE [calm_intros]: "(\<And>x b. calm (f x b)) \<Longrightarrow> calm (foldE f xs b)"
  by (induction xs arbitrary: b) (auto intro!: calm_intros)

lemma calm_mapE [calm_intros]: "(\<And>x. calm (f x)) \<Longrightarrow> calm (mapE f xs)"
  by (induction xs) (auto intro!: calm_intros)

lemma calm_anyE [calm_intros]: "(\<And>x. calm (p x)) \<Longrightarrow> calm (anyE p xs)"
  by (induction xs) (auto intro!: calm_intros)

subsection \<open>Returning\<close>

text \<open>\<open>safe I Q m\<close>: from a state with \<open>I\<close>, \<open>m\<close> returns, with a value of \<open>Q\<close> or an error, never in a
  panic or a loop without end, and \<open>I\<close> holds again.\<close>

definition safe :: "('s \<Rightarrow> bool) \<Rightarrow> ('a \<Rightarrow> bool) \<Rightarrow> ('s, 'e, 'a) comp \<Rightarrow> bool" where
  "safe I Q m \<longleftrightarrow> (\<forall>s. I s \<longrightarrow> wp m (\<lambda>x s. I s \<and> Q x) (\<lambda>q s. I s \<and> (\<exists>e. q = Raise e)) s)"

abbreviation returns :: "('s \<Rightarrow> bool) \<Rightarrow> ('s, 'e, 'a) comp \<Rightarrow> bool" where
  "returns I m \<equiv> safe I (\<lambda>_. True) m"

lemma safe_wp: "safe I Q m \<Longrightarrow> I s \<Longrightarrow> wp m (\<lambda>x s. I s \<and> Q x) (\<lambda>q s. I s \<and> (\<exists>e. q = Raise e)) s"
  by (simp add: safe_def)

lemma safe_weaken: "safe I P m \<Longrightarrow> (\<And>x. P x \<Longrightarrow> Q x) \<Longrightarrow> safe I Q m"
  by (auto simp: safe_def intro: wp_mono)

lemma safe_returns: "safe I P m \<Longrightarrow> returns I m"
  by (erule safe_weaken) simp

lemma safe_end:
  assumes "safe I Q m" and "I s"
  obtains x s' where "m s = (Inr x, s')" "I s'" "Q x" | e s' where "m s = (Inl (Raise e), s')" "I s'"
proof (cases "m s")
  case (Pair r s')
  then show thesis
    using safe_wp [OF assms] that by (cases r) (auto simp: wp_def)
qed

lemma safe_ret [safe_intros]: "Q x \<Longrightarrow> safe I Q (ret x)"
  by (simp add: safe_def wp_simps)

lemma safe_raise [safe_intros]: "safe I Q (raise e)"
  by (simp add: safe_def wp_simps)

lemma safe_getS [safe_intros]: "safe I I getS"
  by (simp add: safe_def wp_simps)

lemma safe_modifyS: "(\<And>s. I s \<Longrightarrow> I (f s)) \<Longrightarrow> returns I (modifyS f)"
  by (simp add: safe_def wp_simps)

lemma safe_unwrap: "x = Some y \<Longrightarrow> Q y \<Longrightarrow> safe I Q (unwrap x)"
  by (simp add: safe_def wp_simps)

lemma safe_bindE [safe_intros]:
  assumes "safe I P m" and "\<And>x. P x \<Longrightarrow> safe I Q (f x)"
  shows "safe I Q (bindE m f)"
  unfolding safe_def wp_bindE
  by (intro allI impI) (rule wp_mono [OF safe_wp [OF assms(1)]], simp_all add: safe_wp [OF assms(2)])

lemma safe_matchE [safe_intros]:
  assumes "safe I P m" and "\<And>x. P x \<Longrightarrow> safe I Q (ok x)" and "\<And>e. safe I Q (err e)"
  shows "safe I Q (matchE m ok err)"
  unfolding safe_def wp_matchE
  by (intro allI impI) (rule wp_mono [OF safe_wp [OF assms(1)]], auto simp: safe_wp [OF assms(2)] safe_wp [OF assms(3)])

lemma safe_map_err [safe_intros]:
  assumes "safe I Q m"
  shows "safe I Q (map_err f m)"
  unfolding safe_def wp_map_err
  by (intro allI impI) (rule wp_mono [OF safe_wp [OF assms]], auto)

lemma safe_if [safe_intros]:
  "(b \<Longrightarrow> safe I Q m) \<Longrightarrow> (\<not> b \<Longrightarrow> safe I Q n) \<Longrightarrow> safe I Q (if b then m else n)"
  by simp

lemma safe_option [safe_intros]:
  "(x = None \<Longrightarrow> safe I Q m) \<Longrightarrow> (\<And>y. x = Some y \<Longrightarrow> safe I Q (f y)) \<Longrightarrow>
     safe I Q (case x of None \<Rightarrow> m | Some y \<Rightarrow> f y)"
  by (cases x) auto

lemma safe_prod [safe_intros]:
  "(\<And>a b. x = (a, b) \<Longrightarrow> safe I Q (f a b)) \<Longrightarrow> safe I Q (case x of (a, b) \<Rightarrow> f a b)"
  by (cases x) auto

lemma safe_foldE:
  assumes "\<And>x b. x \<in> set xs \<Longrightarrow> B b \<Longrightarrow> safe I B (f x b)" and "B b"
  shows "safe I B (foldE f xs b)"
  using assms by (induction xs arbitrary: b) (auto intro!: safe_intros)

lemma safe_mapE: "(\<And>x. x \<in> set xs \<Longrightarrow> safe I Q (f x)) \<Longrightarrow> safe I (list_all Q) (mapE f xs)"
  by (induction xs) (auto intro!: safe_intros)

lemma safe_mapE_each:
  "(\<And>x. x \<in> set xs \<Longrightarrow> safe I (R x) (f x)) \<Longrightarrow> safe I (list_all2 R xs) (mapE f xs)"
  by (induction xs) (auto intro!: safe_intros)

lemma safe_anyE: "(\<And>x. x \<in> set xs \<Longrightarrow> returns I (p x)) \<Longrightarrow> returns I (anyE p xs)"
  by (induction xs) (auto intro!: safe_intros)

end
