(* ===== verification/Grouping.thy ===== *)
theory Grouping
  imports Prelude
begin

text \<open>
  The vector idiom of \<open>Extent::holders\<close>, \<open>live_ranges\<close>, \<open>Filesystem::logical_ino\<close> and
  \<open>Filesystem::extent_batch\<close>: walk over items in order, and either grow the last element of a
  vector (\<open>last_mut()\<close>) or push a new one. \<open>absorb\<close> is that loop; the locale \<open>run_grouping\<close>
  is its contract where the test is "the last group has this item's key", and shows that the
  result is the partition of the items into runs of equal keys.
\<close>

section \<open>Growing the last element of a vector\<close>

definition absorb1 :: "('g \<Rightarrow> 'x \<Rightarrow> bool) \<Rightarrow> ('g \<Rightarrow> 'x \<Rightarrow> 'g) \<Rightarrow> ('x \<Rightarrow> 'g) \<Rightarrow> 'g list \<Rightarrow> 'x \<Rightarrow> 'g list" where
  "absorb1 joins grow new acc x =
     (if acc \<noteq> [] \<and> joins (last acc) x then butlast acc @ [grow (last acc) x] else acc @ [new x])"

definition absorb :: "('g \<Rightarrow> 'x \<Rightarrow> bool) \<Rightarrow> ('g \<Rightarrow> 'x \<Rightarrow> 'g) \<Rightarrow> ('x \<Rightarrow> 'g) \<Rightarrow> 'x list \<Rightarrow> 'g list" where
  "absorb joins grow new xs = foldl (absorb1 joins grow new) [] xs"

text \<open>The loop rule: an invariant between the items done so far and the vector.\<close>

lemma absorb_rule:
  assumes "I [] []"
    and grow: "\<And>ys x zs acc g. xs = ys @ x # zs \<Longrightarrow> I ys (acc @ [g]) \<Longrightarrow> joins g x \<Longrightarrow>
                 I (ys @ [x]) (acc @ [grow g x])"
    and new: "\<And>ys x zs acc. xs = ys @ x # zs \<Longrightarrow> I ys acc \<Longrightarrow> acc = [] \<or> \<not> joins (last acc) x \<Longrightarrow>
                 I (ys @ [x]) (acc @ [new x])"
  shows "I xs (absorb joins grow new xs)"
proof -
  have "I xs (foldl (absorb1 joins grow new) acc zs)" if "xs = ys @ zs" "I ys acc" for ys zs acc
    using that
  proof (induction zs arbitrary: ys acc)
    case Nil
    then show ?case by simp
  next
    case (Cons z zs)
    have "I (ys @ [z]) (absorb1 joins grow new acc z)"
      using grow [of ys z zs "butlast acc" "last acc"] new [of ys z zs acc] Cons.prems
      by (auto simp: absorb1_def)
    then show ?case using Cons.IH [of "ys @ [z]"] Cons.prems(1) by simp
  qed
  from this [of "[]" xs "[]"] assms(1) show ?thesis by (simp add: absorb_def)
qed

section \<open>Runs of equal keys\<close>

text \<open>The specification: the maximal stretches of neighbours with equal keys.\<close>

function runs :: "('x \<Rightarrow> 'k) \<Rightarrow> 'x list \<Rightarrow> 'x list list" where
  "runs key [] = []"
| "runs key (x # xs) =
     (x # takeWhile (\<lambda>y. key y = key x) xs) # runs key (dropWhile (\<lambda>y. key y = key x) xs)"
  by pat_completeness auto
termination
  by (relation "measure (\<lambda>(key, xs). length xs)") (auto simp: le_imp_less_Suc length_dropWhile_le)

lemma concat_runs [simp]: "concat (runs key xs) = xs"
  by (induction key xs rule: runs.induct) auto

lemma runs_nonempty: "r \<in> set (runs key xs) \<Longrightarrow> r \<noteq> []"
  by (induction key xs rule: runs.induct) auto

lemma runs_same_key: "r \<in> set (runs key xs) \<Longrightarrow> x \<in> set r \<Longrightarrow> key x = key (hd r)"
proof (induction key xs rule: runs.induct)
  case (2 key y ys)
  then show ?case by (auto dest: set_takeWhileD)
qed simp

lemma runs_subset: "r \<in> set (runs key xs) \<Longrightarrow> set r \<subseteq> set xs"
  by (metis concat_runs set_concat UN_upper)

text \<open>Of a list sorted by key, the runs are exactly the classes of equal keys, in key order.\<close>

lemma runs_keys_sorted:
  fixes key :: "'x \<Rightarrow> 'k::linorder"
  assumes "sorted (map key xs)"
  shows "sorted_wrt (<) (map (key \<circ> hd) (runs key xs))"
  using assms
proof (induction key xs rule: runs.induct)
  case (2 key x xs)
  let ?rest = "dropWhile (\<lambda>y. key y = key x) xs"
  have sorted_rest: "sorted (map key ?rest)"
    using "2.prems" by (metis dropWhile_eq_drop drop_map list.simps(9) sorted_wrt_drop sorted_simps(2))
  have "key x < key y" if y: "y \<in> set ?rest" for y
  proof -
    from y have ne: "?rest \<noteq> []" by (metis empty_iff empty_set)
    then have "key (hd ?rest) \<noteq> key x" by (metis (mono_tags) hd_dropWhile)
    moreover have "key x \<le> key (hd ?rest)"
      using "2.prems" hd_in_set [OF ne] set_dropWhileD by fastforce
    moreover have "key (hd ?rest) \<le> key y"
      using sorted_rest y ne by (cases ?rest) auto
    ultimately show ?thesis by order
  qed
  then have "\<forall>r \<in> set (runs key ?rest). key x < key (hd r)"
    using runs_nonempty runs_subset by (metis hd_in_set subsetD)
  then show ?case using "2.IH" [OF sorted_rest] by simp
qed simp

lemma runs_distinct_keys:
  fixes key :: "'x \<Rightarrow> 'k::linorder"
  assumes "sorted (map key xs)"
  shows "distinct (map (key \<circ> hd) (runs key xs))"
  using runs_keys_sorted [OF assms] strict_sorted_iff by blast

lemma distinct_filter_single: "distinct xs \<Longrightarrow> x \<in> set xs \<Longrightarrow> filter (\<lambda>y. y = x) xs = [x]"
  by (induction xs) (auto simp: filter_empty_conv)

lemma runs_eq_filter:
  fixes key :: "'x \<Rightarrow> 'k::linorder"
  assumes "sorted (map key xs)" and "r \<in> set (runs key xs)"
  shows "r = filter (\<lambda>x. key x = key (hd r)) xs"
proof -
  let ?p = "\<lambda>x. key x = key (hd r)"
  have "filter ?p s = (if s = r then s else [])" if s: "s \<in> set (runs key xs)" for s
  proof (cases "s = r")
    case True
    then show ?thesis using runs_same_key [OF assms(2)] by (auto intro: filter_True)
  next
    case False
    have "inj_on (key \<circ> hd) (set (runs key xs))"
      using runs_distinct_keys [OF assms(1)] by (simp add: distinct_map)
    with False s assms(2) have "key (hd s) \<noteq> key (hd r)"
      by (auto simp: inj_on_def)
    then show ?thesis using False runs_same_key [OF s] by (auto simp: filter_empty_conv)
  qed
  then have parts: "map (filter ?p) (runs key xs) = map (\<lambda>s. if s = r then s else []) (runs key xs)"
    by simp
  have keep: "concat (map (\<lambda>s. if s = r then s else []) ss) = concat (filter (\<lambda>s. s = r) ss)" for ss
    by (induction ss) auto
  have "distinct (runs key xs)"
    using runs_distinct_keys [OF assms(1)] by (simp add: distinct_map)
  then have single: "filter (\<lambda>s. s = r) (runs key xs) = [r]"
    using assms(2) by (rule distinct_filter_single)
  have "filter ?p xs = concat (map (filter ?p) (runs key xs))"
    by (metis concat_runs filter_concat)
  also have "\<dots> = concat [r]"
    by (simp only: parts keep single)
  finally show ?thesis by simp
qed

text \<open>So the runs are one per key, in order of the keys.\<close>

lemma runs_by_key:
  fixes key :: "'x \<Rightarrow> 'k::linorder"
  assumes "sorted (map key xs)"
  shows "runs key xs = map (\<lambda>k. filter (\<lambda>x. key x = k) xs) (sorted_list_of_set (set (map key xs)))"
proof -
  have "set (map key xs) = (\<Union>r \<in> set (runs key xs). key ` set r)"
    by (simp add: image_UN [symmetric] set_concat [symmetric] del: set_concat)
  also have "\<dots> = (\<Union>r \<in> set (runs key xs). {key (hd r)})"
  proof (rule SUP_cong [OF refl])
    fix r assume r: "r \<in> set (runs key xs)"
    have "r \<noteq> []" by (rule runs_nonempty [OF r])
    then have "hd r \<in> set r" by simp
    then show "key ` set r = {key (hd r)}"
      using runs_same_key [OF r] by blast
  qed
  finally have "set (map key xs) = set (map (key \<circ> hd) (runs key xs))" by auto
  moreover have "sorted_list_of_set (set (map (key \<circ> hd) (runs key xs))) = map (key \<circ> hd) (runs key xs)"
    using runs_keys_sorted [OF assms]
    by (intro sorted_list_of_set.idem_if_sorted_distinct) (auto simp only: strict_sorted_iff)
  ultimately have "map (\<lambda>k. filter (\<lambda>x. key x = k) xs) (sorted_list_of_set (set (map key xs))) =
      map (\<lambda>r. filter (\<lambda>x. key x = key (hd r)) xs) (runs key xs)"
    by simp
  also have "\<dots> = runs key xs"
    by (rule map_idI) (simp add: runs_eq_filter [OF assms, symmetric])
  finally show ?thesis by (rule sym)
qed

section \<open>The grouping contract\<close>

locale run_grouping =
  fixes key :: "'x \<Rightarrow> 'k" and gkey :: "'g \<Rightarrow> 'k"
    and new :: "'x \<Rightarrow> 'g" and grow :: "'g \<Rightarrow> 'x \<Rightarrow> 'g"
  assumes gkey_new: "gkey (new x) = key x"
    and gkey_grow: "gkey g = key x \<Longrightarrow> gkey (grow g x) = gkey g"
begin

text \<open>What the loop makes of one run: started by its first item, grown by the others.\<close>

definition build :: "'x list \<Rightarrow> 'g" where
  "build r = foldl grow (new (hd r)) (tl r)"

lemma gkey_foldl: "\<forall>x \<in> set xs. key x = gkey g \<Longrightarrow> gkey (foldl grow g xs) = gkey g"
  by (induction xs arbitrary: g) (auto simp: gkey_grow)

lemma absorb_from_last:
  "foldl (absorb1 (\<lambda>g x. gkey g = key x) grow new) (acc @ [g]) xs =
     acc @ foldl grow g (takeWhile (\<lambda>x. key x = gkey g) xs)
         # map build (runs key (dropWhile (\<lambda>x. key x = gkey g) xs))"
proof (induction xs arbitrary: acc g)
  case Nil
  then show ?case by simp
next
  case (Cons x xs)
  show ?case
  proof (cases "key x = gkey g")
    case True
    then have "gkey (grow g x) = gkey g" by (simp add: gkey_grow)
    with True show ?thesis using Cons.IH [of acc "grow g x"] by (simp add: absorb1_def)
  next
    case False
    have "foldl (absorb1 (\<lambda>g x. gkey g = key x) grow new) (acc @ [g]) (x # xs) =
          foldl (absorb1 (\<lambda>g x. gkey g = key x) grow new) ((acc @ [g]) @ [new x]) xs"
      using False by (simp add: absorb1_def)
    also note Cons.IH [of "acc @ [g]" "new x"]
    finally show ?thesis using False by (simp add: gkey_new build_def)
  qed
qed

theorem grouping: "absorb (\<lambda>g x. gkey g = key x) grow new xs = map build (runs key xs)"
proof (cases xs)
  case Nil
  then show ?thesis by (simp add: absorb_def)
next
  case (Cons x ys)
  have "absorb (\<lambda>g x. gkey g = key x) grow new xs =
        foldl (absorb1 (\<lambda>g x. gkey g = key x) grow new) ([] @ [new x]) ys"
    by (simp add: Cons absorb_def absorb1_def)
  also note absorb_from_last
  finally show ?thesis by (simp add: Cons gkey_new build_def)
qed

lemma gkey_build: "r \<in> set (runs key xs) \<Longrightarrow> gkey (build r) = key (hd r)"
proof -
  assume r: "r \<in> set (runs key xs)"
  have "\<forall>x \<in> set (tl r). key x = gkey (new (hd r))"
    unfolding gkey_new using runs_same_key [OF r] runs_nonempty [OF r]
    by (blast dest: list.set_sel(2))
  then show ?thesis by (simp add: build_def gkey_foldl gkey_new)
qed

lemma map_gkey_groups:
  "map gkey (absorb (\<lambda>g x. gkey g = key x) grow new xs) = map (key \<circ> hd) (runs key xs)"
  by (simp add: grouping gkey_build)

end

text \<open>Where keys are ordered and the items come sorted, each group is the class of its key.\<close>

locale sorted_grouping = run_grouping key gkey new grow
  for key :: "'x \<Rightarrow> 'k::linorder" and gkey :: "'g \<Rightarrow> 'k" and new grow
begin

lemma groups_sorted:
  "sorted (map key xs) \<Longrightarrow>
     sorted_wrt (<) (map gkey (absorb (\<lambda>g x. gkey g = key x) grow new xs))"
  by (simp add: map_gkey_groups runs_keys_sorted)

lemma groups_distinct:
  "sorted (map key xs) \<Longrightarrow> distinct (map gkey (absorb (\<lambda>g x. gkey g = key x) grow new xs))"
  by (simp add: map_gkey_groups runs_distinct_keys)

lemma group_eq_build_filter:
  assumes "sorted (map key xs)" and "g \<in> set (absorb (\<lambda>g x. gkey g = key x) grow new xs)"
  shows "g = build (filter (\<lambda>x. key x = gkey g) xs)"
    and "filter (\<lambda>x. key x = gkey g) xs \<noteq> []"
proof -
  from assms(2) obtain r where r: "r \<in> set (runs key xs)" and g: "g = build r"
    by (auto simp: grouping)
  have "r = filter (\<lambda>x. key x = gkey g) xs"
    using runs_eq_filter [OF assms(1) r] gkey_build [OF r] g by simp
  then show "g = build (filter (\<lambda>x. key x = gkey g) xs)" and "filter (\<lambda>x. key x = gkey g) xs \<noteq> []"
    using g runs_nonempty [OF r] by auto
qed

lemma every_key_grouped:
  assumes "x \<in> set xs"
  shows "\<exists>g \<in> set (absorb (\<lambda>g x. gkey g = key x) grow new xs). gkey g = key x"
proof -
  have "x \<in> set (concat (runs key xs))" using assms by simp
  then obtain r where r: "r \<in> set (runs key xs)" "x \<in> set r"
    unfolding set_concat by blast
  then have "gkey (build r) = key x"
    using gkey_build runs_same_key by metis
  with r show ?thesis by (auto simp: grouping)
qed

lemma groups_by_key:
  assumes "sorted (map key xs)"
  shows "absorb (\<lambda>g x. gkey g = key x) grow new xs =
     map (\<lambda>k. build (filter (\<lambda>x. key x = k) xs)) (sorted_list_of_set (set (map key xs)))"
  by (simp add: grouping runs_by_key [OF assms] comp_def)

end

end
