(* ===== verification/Ranges.thy ===== *)
theory Ranges
  imports Grouping
begin

text \<open>
  Half-open ranges (\<open>Range<u64>\<close> of the source, as pairs) and the merge that
  \<open>live_ranges\<close> of src/extent.rs makes of them. The order facts hold over any linear order;
  only the byte counts at the end are about words.
\<close>

section \<open>Ranges and what they cover\<close>

type_synonym 'a range = "'a \<times> 'a"

definition span :: "'a::linorder range \<Rightarrow> 'a set" where
  "span r = {fst r..<snd r}"

definition covered :: "'a::linorder range list \<Rightarrow> 'a set" where
  "covered rs = (\<Union>r \<in> set rs. span r)"

lemma covered_simps [simp]:
  "covered [] = {}" "covered (r # rs) = span r \<union> covered rs"
  "covered (rs @ rs') = covered rs \<union> covered rs'"
  by (auto simp: covered_def)

lemma covered_mset_cong: "mset rs = mset rs' \<Longrightarrow> covered rs = covered rs'"
  unfolding covered_def by (drule mset_eq_setD) simp

text \<open>The merge loop over sorted ranges: touching or overlapping ranges become one.\<close>

definition merge_sorted :: "'a::linorder range list \<Rightarrow> 'a range list" where
  "merge_sorted = absorb (\<lambda>last r. fst r \<le> snd last)
     (\<lambda>last r. (fst last, max (snd last) (snd r))) (\<lambda>r. r)"

lemma span_grow:
  "fst g \<le> fst r \<Longrightarrow> fst r \<le> snd g \<Longrightarrow> span (fst g, max (snd g) (snd r)) = span g \<union> span r"
  by (auto simp: span_def max_def)

lemma covered_merge_sorted:
  assumes "sorted (map fst rs)"
  shows "covered (merge_sorted rs) = covered rs"
proof -
  let ?I = "\<lambda>ys acc. covered acc = covered ys \<and> (\<forall>g \<in> set acc. fst g \<in> fst ` set ys)"
  have "?I rs (merge_sorted rs)"
    unfolding merge_sorted_def
  proof (rule absorb_rule, goal_cases)
    case (2 ys r zs acc g)
    then have "fst g \<le> fst r" using assms by (fastforce simp: sorted_append)
    with 2 show ?case by (auto simp: span_grow)
  qed auto
  then show ?thesis by simp
qed

text \<open>\<open>gapped\<close>: in order, with at least one uncovered point between neighbours.\<close>

definition gapped :: "'a::linorder range list \<Rightarrow> bool" where
  "gapped rs \<longleftrightarrow> sorted_wrt (\<lambda>r r'. snd r < fst r') rs"

lemma gapped_merge_sorted:
  assumes "sorted (map fst rs)" and "\<forall>r \<in> set rs. fst r \<le> snd r"
  shows "gapped (merge_sorted rs) \<and> (\<forall>r \<in> set (merge_sorted rs). fst r \<le> snd r)"
proof -
  let ?I = "\<lambda>ys acc. gapped acc \<and> (\<forall>g \<in> set acc. fst g \<le> snd g)"
  have "?I rs (merge_sorted rs)"
    unfolding merge_sorted_def
  proof (rule absorb_rule, goal_cases)
    case (2 ys r zs acc g)
    then show ?case by (auto simp: gapped_def sorted_wrt_append le_max_iff_disj)
  next
    case (3 ys r zs acc)
    then have r: "fst r \<le> snd r" using assms(2) by auto
    show ?case
    proof (cases acc rule: rev_cases)
      case Nil
      with r show ?thesis by (simp add: gapped_def)
    next
      case (snoc acc' g)
      with 3 have "snd g < fst r" and "fst g \<le> snd g" by auto
      moreover have "\<forall>h \<in> set acc'. snd h < fst g"
        using 3 snoc by (simp add: gapped_def sorted_wrt_append)
      ultimately have "\<forall>h \<in> set acc'. snd h < fst r" by (meson le_less_trans less_trans)
      with 3 snoc r \<open>snd g < fst r\<close> show ?thesis by (auto simp: gapped_def sorted_wrt_append)
    qed
  qed (simp add: gapped_def)
  then show ?thesis by simp
qed

text \<open>Every end of a merged range is an end of a given one, and no empty range is made.\<close>

lemma merge_sorted_ends:
  "\<forall>g \<in> set (merge_sorted rs). fst g \<in> fst ` set rs \<and> snd g \<in> snd ` set rs"
proof -
  let ?I = "\<lambda>ys acc. \<forall>g \<in> set acc. fst g \<in> fst ` set ys \<and> snd g \<in> snd ` set ys"
  have "?I rs (merge_sorted rs)"
    unfolding merge_sorted_def
    by (rule absorb_rule) (auto simp: max_def)
  then show ?thesis by simp
qed

lemma merge_sorted_nonempty:
  assumes "sorted (map fst rs)" and "\<forall>r \<in> set rs. fst r < snd r"
  shows "\<forall>g \<in> set (merge_sorted rs). fst g < snd g"
proof -
  let ?I = "\<lambda>ys acc. \<forall>g \<in> set acc. fst g < snd (g :: 'a range)"
  have "?I rs (merge_sorted rs)"
    unfolding merge_sorted_def
    by (rule absorb_rule) (use assms(2) in \<open>auto simp: less_max_iff_disj\<close>)
  then show ?thesis by simp
qed

section \<open>The merged form is canonical\<close>

lemma gapped_Cons:
  "gapped (r # rs) \<longleftrightarrow> (\<forall>r' \<in> set rs. snd r < fst r') \<and> gapped rs"
  by (simp add: gapped_def)

lemma covered_after:
  "gapped (r # rs) \<Longrightarrow> x \<in> covered rs \<Longrightarrow> snd r < x"
  by (fastforce simp: gapped_Cons covered_def span_def)

lemma gapped_head_least:
  assumes "gapped (r # rs)" and "fst r < snd r" and "x \<in> covered (r # rs)"
  shows "fst r \<le> x"
  using assms covered_after [OF assms(1), of x] by (auto simp: span_def)

lemma gapped_head_end:
  assumes "gapped (r # rs)"
  shows "snd r \<notin> covered (r # rs)"
  using covered_after [OF assms, of "snd r"] by (auto simp: span_def)

lemma gapped_unique:
  assumes "gapped rs" "\<forall>r \<in> set rs. fst r < snd r"
    and "gapped rs'" "\<forall>r \<in> set rs'. fst r < snd r"
    and "covered rs = covered rs'"
  shows "rs = rs'"
  using assms
proof (induction rs arbitrary: rs')
  case Nil
  then show ?case by (cases rs') (auto simp: span_def)
next
  case (Cons r rs)
  obtain r' rest where rs': "rs' = r' # rest"
    using Cons.prems by (cases rs') (auto simp: span_def)
  note g = Cons.prems(1) and g' = Cons.prems(3) [unfolded rs']
  have ne: "fst r < snd r" "fst r' < snd r'" using Cons.prems rs' by auto
  have same: "covered (r # rs) = covered (r' # rest)" using Cons.prems(5) rs' by simp
  have "fst r \<in> covered (r # rs)" "fst r' \<in> covered (r' # rest)"
    using ne by (auto simp: span_def)
  then have start: "fst r = fst r'"
    using gapped_head_least [OF g ne(1)] gapped_head_least [OF g' ne(2)] same by (metis order_antisym)
  have "snd r \<notin> span r'"
    using gapped_head_end [OF g] unfolding same by simp
  moreover have "snd r' \<notin> span r"
    using gapped_head_end [OF g'] unfolding same [symmetric] by simp
  ultimately have "snd r = snd r'" using ne start by (auto simp: span_def)
  with start have r: "r = r'" by (simp add: prod_eq_iff)
  have "covered rs = covered (r # rs) - span r"
    using covered_after [OF g] by (force simp: span_def)
  also have "\<dots> = covered rest"
    using covered_after [OF g'] same r by (force simp: span_def)
  finally have "rs = rest" using Cons.IH [of rest] Cons.prems rs' by (auto simp: gapped_Cons)
  with r rs' show ?case by simp
qed

section \<open>Counting the bytes of merged ranges\<close>

definition range_bytes :: "u64 range \<Rightarrow> u64" where
  "range_bytes r = snd r - fst r"

lemma card_span: "card (span r) = unat (snd r) - unat (fst r)" for r :: "u64 range"
  by (simp add: span_def card_word_interval)

lemma card_covered_gapped:
  fixes rs :: "u64 range list"
  assumes "gapped rs" and "\<forall>r \<in> set rs. fst r \<le> snd r"
  shows "card (covered rs) = sum_list (map (\<lambda>r. unat (range_bytes r)) rs)"
  using assms
proof (induction rs)
  case Nil
  then show ?case by simp
next
  case (Cons r rs)
  have "span r \<inter> covered rs = {}"
    using covered_after [OF Cons.prems(1)] by (fastforce simp: span_def)
  then have "card (covered (r # rs)) = card (span r) + card (covered rs)"
    by (simp add: card_Un_disjoint)
  with Cons show ?case
    by (simp add: gapped_Cons card_span range_bytes_def unat_simps)
qed

lemma unat_sum_list: "unat (sum_list ws) = sum_list (map unat ws) mod 2 ^ 64" for ws :: "u64 list"
proof (induction ws)
  case (Cons w ws)
  have "unat (w + sum_list ws) = (unat w + unat (sum_list ws)) mod 2 ^ 64"
    by (simp add: unat_word_ariths)
  with Cons show ?case by (simp add: mod_simps)
qed simp

lemma card_word_set: "card (A :: u64 set) \<le> 2 ^ 64"
proof -
  have "card A \<le> card (UNIV :: u64 set)" by (rule card_mono) auto
  then show ?thesis by (simp add: card_word)
qed

text \<open>No end-exclusive range holds the last address, so the bytes of merged ranges add up
  without wrapping.\<close>

lemma unat_sum_gapped:
  fixes rs :: "u64 range list"
  assumes "gapped rs" and "\<forall>r \<in> set rs. fst r \<le> snd r"
  shows "unat (sum_list (map range_bytes rs)) = card (covered rs)"
proof -
  have "- 1 \<notin> covered rs"
    by (auto simp: covered_def span_def)
  then have "covered rs \<subseteq> UNIV - {- 1}" by auto
  then have "card (covered rs) \<le> card (UNIV - {- 1 :: u64})" by (rule card_mono [rotated]) simp
  then have "card (covered rs) < 2 ^ 64" by (simp add: card_Diff_singleton card_word)
  then show ?thesis
    using card_covered_gapped [OF assms] by (simp add: unat_sum_list comp_def)
qed

end
