(* ===== verification/Format.thy ===== *)
theory Format
  imports Prelude
begin

text \<open>
  src/format.rs: byte counts as text, and the number formatting of the standard library that the
  messages of the program use.

  \<open>human\<close> computes in \<open>f64\<close>. A \<open>u64\<close> becomes a float by rounding to 53 significant bits
  (\<open>f64_of_u64\<close>, ties to even), and a division by 1024 only moves the exponent, so the value
  after \<open>k\<close> rounds of the loop is exactly \<open>m / 1024 ^ k\<close> for the integer \<open>m\<close> it started from.
  The model keeps \<open>m\<close> and \<open>k\<close>. \<open>{:.2}\<close> rounds that exact quotient to hundredths, ties to even.
\<close>

section \<open>Decimal and hexadecimal text\<close>

definition digit :: "nat \<Rightarrow> char" where
  "digit d = ''0123456789abcdef'' ! d"

text \<open>\<open>{}\<close> of an unsigned integer, and the digits of \<open>{:x}\<close>.\<close>

fun show_base :: "nat \<Rightarrow> nat \<Rightarrow> string" where
  "show_base b n = (if b < 2 \<or> n < b then [digit n] else show_base b (n div b) @ [digit (n mod b)])"

declare show_base.simps [simp del]

definition show_nat :: "nat \<Rightarrow> string" where
  "show_nat n = show_base 10 n"

text \<open>\<open>{:#x}\<close>.\<close>

definition show_hex :: "nat \<Rightarrow> string" where
  "show_hex n = ''0x'' @ show_base 16 n"

text \<open>Reading a number back, for the round trip.\<close>

definition undigit :: "char \<Rightarrow> nat" where
  "undigit c = length (takeWhile (\<lambda>x. x \<noteq> c) ''0123456789abcdef'')"

definition read_base :: "nat \<Rightarrow> string \<Rightarrow> nat" where
  "read_base b cs = foldl (\<lambda>n c. b * n + undigit c) 0 cs"

lemma undigit_digit:
  assumes "d < 16"
  shows "undigit (digit d) = d"
proof -
  have "\<forall>d \<in> set [0..<16]. undigit (digit d) = d"
    by (simp add: upt_rec undigit_def digit_def)
  then show ?thesis using assms by simp
qed

lemma read_show_base: "2 \<le> b \<Longrightarrow> b \<le> 16 \<Longrightarrow> read_base b (show_base b n) = n"
proof (induction b n rule: show_base.induct)
  case (1 b n)
  show ?case
  proof (cases "n < b")
    case True
    with "1.prems" show ?thesis
      by (simp add: show_base.simps [of b n] read_base_def undigit_digit)
  next
    case False
    with "1.IH" "1.prems" have "read_base b (show_base b (n div b)) = n div b" by simp
    moreover have "n mod b < 16" using "1.prems" by (meson mod_less_divisor less_le_trans zero_less_numeral)
    ultimately show ?thesis
      using False "1.prems" by (simp add: show_base.simps [of b n] read_base_def undigit_digit)
  qed
qed

section \<open>Rounding\<close>

text \<open>\<open>n / d\<close> to the nearest integer, ties to even.\<close>

definition round_half_even :: "nat \<Rightarrow> nat \<Rightarrow> nat" where
  "round_half_even n d =
     (let q = n div d; r = n mod d
      in if 2 * r < d \<or> (2 * r = d \<and> even q) then q else q + 1)"

lemma round_half_even_near:
  assumes "0 < d"
  shows "2 * (round_half_even n d * d) \<le> 2 * n + d \<and> 2 * n \<le> 2 * (round_half_even n d * d) + d"
proof -
  have n: "n = n div d * d + n mod d" by simp
  have r: "n mod d < d" using assms by simp
  show ?thesis
    using n r by (auto simp: round_half_even_def Let_def add_mult_distrib; linarith)
qed

lemma round_half_even_mono_bound:
  assumes "0 < d" and "n \<le> k * d"
  shows "round_half_even n d \<le> k"
proof (cases "n = k * d")
  case True
  with assms show ?thesis by (simp add: round_half_even_def Let_def)
next
  case False
  with assms have "n div d < k" by (simp add: div_less_iff_less_mult)
  then show ?thesis by (simp add: round_half_even_def Let_def)
qed

text \<open>\<open>bytes as f64\<close>, which is an integer again: 53 significant bits.\<close>

definition f64_of_u64 :: "u64 \<Rightarrow> nat" where
  "f64_of_u64 w =
     (let n = unat w; e = ilog2 n - 52
      in if n < 2 ^ 53 then n else round_half_even n (2 ^ e) * 2 ^ e)"

lemma f64_exact: "unat w < 2 ^ 53 \<Longrightarrow> f64_of_u64 w = unat w"
  by (simp add: f64_of_u64_def Let_def)

section \<open>human\<close>

definition UNITS :: "string list" where
  "UNITS = [''B'', ''KiB'', ''MiB'', ''GiB'', ''TiB'', ''PiB'']"

text \<open>The \<open>while\<close> loop: \<open>m / 1024 ^ unit\<close> is the value so far.\<close>

function human_loop :: "nat \<Rightarrow> nat \<Rightarrow> nat" where
  "human_loop m unit =
     (if 1024 * 1024 ^ unit \<le> m \<and> unit < length UNITS - 1 then human_loop m (Suc unit) else unit)"
  by pat_completeness auto
termination
  by (relation "measure (\<lambda>(m, unit). length UNITS - unit)") auto

declare human_loop.simps [simp del]

text \<open>The hundredths \<open>{value:.2}\<close> prints.\<close>

definition hundredths :: "nat \<Rightarrow> nat \<Rightarrow> nat" where
  "hundredths m unit = round_half_even (100 * m) (1024 ^ unit)"

definition human :: "u64 \<Rightarrow> string" where
  "human bytes =
     (let m = f64_of_u64 bytes; unit = human_loop m 0; h = hundredths m unit
      in show_nat (h div 100) @ ''.'' @ [digit (h mod 100 div 10), digit (h mod 10)]
           @ '' '' @ UNITS ! unit)"

lemma human_loop_in_units:
  "unit < length UNITS \<Longrightarrow> human_loop m unit < length UNITS \<and> unit \<le> human_loop m unit"
proof (induction m unit rule: human_loop.induct)
  case (1 m unit)
  then show ?case
    by (cases "unit < length UNITS - 1") (auto simp: human_loop.simps [of m unit] intro: Suc_leD)
qed

lemma human_loop_upper:
  "unit < length UNITS \<Longrightarrow>
     m < 1024 ^ Suc (human_loop m unit) \<or> human_loop m unit = length UNITS - 1"
proof (induction m unit rule: human_loop.induct)
  case (1 m unit)
  then show ?case
    by (cases "1024 * 1024 ^ unit \<le> m \<and> unit < length UNITS - 1")
       (auto simp: human_loop.simps [of m unit])
qed

lemma human_loop_lower:
  "unit = 0 \<or> 1024 ^ unit \<le> m \<Longrightarrow> human_loop m unit = 0 \<or> 1024 ^ human_loop m unit \<le> m"
proof (induction m unit rule: human_loop.induct)
  case (1 m unit)
  then show ?case
    by (cases "1024 * 1024 ^ unit \<le> m \<and> unit < length UNITS - 1")
       (auto simp: human_loop.simps [of m unit])
qed


lemma human_examples:
  "human 65536 = ''64.00 KiB''" "human 0 = ''0.00 B''" "human 1536 = ''1.50 KiB''"
  unfolding human_def f64_of_u64_def Let_def
  by (simp_all add: human_loop.simps show_nat_def show_base.simps digit_def
      hundredths_def round_half_even_def UNITS_def)

end
