(* ===== verification/Extent.thy ===== *)
theory Extent
  imports Ranges Format
begin

text \<open>
  src/extent.rs: extents and the references into them, the ranges of an extent that are still
  live, what of it is used and free, who holds it, and whether a rewrite is worth its cost.

  Field names carry a prefix per struct (\<open>r_\<close> for \<open>ExtentRef\<close>, \<open>e_\<close> for \<open>Extent\<close>, \<open>h_\<close> for
  \<open>Holder\<close>). \<open>sort_unstable_by_key\<close> is modelled by a sort that happens to be stable, which is one
  of the orders it may produce; the theorems about it only use that its result is a sorted
  permutation.
\<close>

section \<open>Data\<close>

definition MIN_RECLAIM_BYTES :: u64 where
  "MIN_RECLAIM_BYTES = 65536"

definition MAX_COPY_RATIO :: u64 where
  "MAX_COPY_RATIO = 4"

record extent_ref =
  r_root :: u64
  r_inode :: u64
  r_disk_address :: u64
  r_disk_bytes :: u64
  r_uncompressed_bytes :: u64
  r_file_offset :: u64
  r_extent_offset :: u64
  r_num_bytes :: u64
  r_leaf_generation :: u64

record extent =
  e_disk_address :: u64
  e_disk_bytes :: u64
  e_uncompressed_bytes :: u64
  e_refs :: "extent_ref list"
  e_live_ranges :: "u64 range list"

record holder =
  h_root :: u64
  h_inode :: u64
  h_refs :: "extent_ref list"

datatype left_alone =
    TooLittleToFree | TooMuchToCopy | NoDataCow | PastEnd | Changed | Unresolved | Failed | Deleted

section \<open>Operations\<close>

definition ref_range :: "extent_ref \<Rightarrow> u64 range" where
  "ref_range r = (r_extent_offset r, r_extent_offset r + r_num_bytes r)"

definition live_ranges :: "extent_ref list \<Rightarrow> u64 range list" where
  "live_ranges refs = merge_sorted (sort (map ref_range refs))"

definition Extent_new :: "u64 \<Rightarrow> u64 \<Rightarrow> u64 \<Rightarrow> extent_ref list \<Rightarrow> extent" where
  "Extent_new disk_address disk_bytes uncompressed_bytes refs =
     \<lparr>e_disk_address = disk_address, e_disk_bytes = disk_bytes,
      e_uncompressed_bytes = uncompressed_bytes, e_refs = refs, e_live_ranges = live_ranges refs\<rparr>"

text \<open>\<open>None\<close> is the panic of \<open>&refs[0]\<close>. The \<open>debug_assert\<close>s are not in a release build.\<close>

definition from_refs :: "extent_ref list \<Rightarrow> extent option" where
  "from_refs refs =
     (case refs of
        [] \<Rightarrow> None
      | first # _ \<Rightarrow>
          Some (Extent_new (r_disk_address first) (r_disk_bytes first) (r_uncompressed_bytes first) refs))"

definition live_uncompressed_bytes :: "extent \<Rightarrow> u64" where
  "live_uncompressed_bytes e = sum_list (map (\<lambda>r. snd r - fst r) (e_live_ranges e))"

definition disk_used_bytes :: "extent \<Rightarrow> u64" where
  "disk_used_bytes e =
     (if e_uncompressed_bytes e = 0 then 0
      else ucast ((ucast (min (live_uncompressed_bytes e) (e_uncompressed_bytes e)) :: u128)
                    * ucast (e_disk_bytes e) div ucast (e_uncompressed_bytes e)))"

definition disk_free_bytes :: "extent \<Rightarrow> u64" where
  "disk_free_bytes e = e_disk_bytes e - disk_used_bytes e"

definition holder_of_ref :: "extent_ref \<Rightarrow> holder" where
  "holder_of_ref r = \<lparr>h_root = r_root r, h_inode = r_inode r, h_refs = [r]\<rparr>"

definition holder_push :: "holder \<Rightarrow> extent_ref \<Rightarrow> holder" where
  "holder_push h r = h\<lparr>h_refs := h_refs h @ [r]\<rparr>"

definition holders :: "extent \<Rightarrow> holder list" where
  "holders e =
     absorb (\<lambda>h r. (h_root h, h_inode h) = (r_root r, r_inode r)) holder_push holder_of_ref
       (sort_key (\<lambda>r. (r_root r, r_inode r, r_file_offset r)) (e_refs e))"

definition not_worth_rewriting :: "extent \<Rightarrow> left_alone option" where
  "not_worth_rewriting e =
     (let free_bytes = disk_free_bytes e
      in if free_bytes < MIN_RECLAIM_BYTES then Some TooLittleToFree
         else if free_bytes * MAX_COPY_RATIO < live_uncompressed_bytes e then Some TooMuchToCopy
         else None)"

definition worth_rewriting :: "extent \<Rightarrow> bool" where
  "worth_rewriting e \<longleftrightarrow> not_worth_rewriting e = None"

definition LeftAlone_ALL :: "left_alone list" where
  "LeftAlone_ALL =
     [TooLittleToFree, TooMuchToCopy, NoDataCow, PastEnd, Changed, Unresolved, Failed, Deleted]"

fun label :: "left_alone \<Rightarrow> string" where
  "label TooLittleToFree = ''frees under '' @ human MIN_RECLAIM_BYTES"
| "label TooMuchToCopy = ''copies over '' @ show_nat (unat MAX_COPY_RATIO) @ ''x what it frees''"
| "label NoDataCow = ''held by a nodatacow file''"
| "label PastEnd = ''held past a file's end''"
| "label Changed = ''changed during the scan''"
| "label Unresolved = ''holders could not be looked up''"
| "label Failed = ''failed to access or rewrite''"
| "label Deleted = ''file was deleted''"

section \<open>Live ranges\<close>

text \<open>\<open>ref_ok r\<close>: the reference does not run past the end of the 64-bit address space, as no
  reference of a filesystem does. \<open>extent_ok\<close>: every reference is so, and the ranges are theirs.\<close>

definition ref_ok :: "extent_ref \<Rightarrow> bool" where
  "ref_ok r \<longleftrightarrow> fits (r_extent_offset r) (r_num_bytes r)"

definition extent_ok :: "extent \<Rightarrow> bool" where
  "extent_ok e \<longleftrightarrow> e_live_ranges e = live_ranges (e_refs e) \<and> (\<forall>r \<in> set (e_refs e). ref_ok r)"

text \<open>The bytes of the extent that some reference covers.\<close>

definition live_bytes :: "extent_ref list \<Rightarrow> u64 set" where
  "live_bytes refs = (\<Union>r \<in> set refs. {r_extent_offset r..<r_extent_offset r + r_num_bytes r})"

lemma covered_ref_ranges: "covered (map ref_range refs) = live_bytes refs"
  by (auto simp: covered_def live_bytes_def span_def ref_range_def)

lemma sorted_fst_sort: "sorted (map fst (sort rs))" for rs :: "u64 range list"
proof -
  have "sorted_wrt (\<lambda>a b. a \<le> b) (sort rs)" by simp
  then show ?thesis
    by (auto simp: sorted_wrt_map elim!: sorted_wrt_mono_rel [rotated] simp: less_eq_prod_def)
qed

lemma covered_live_ranges: "covered (live_ranges refs) = live_bytes refs"
  unfolding live_ranges_def covered_merge_sorted [OF sorted_fst_sort] covered_ref_ranges [symmetric]
  by (rule covered_mset_cong) simp

lemma ref_range_ordered: "ref_ok r \<Longrightarrow> fst (ref_range r) \<le> snd (ref_range r)"
  by (simp add: ref_ok_def ref_range_def fits_le)

lemma live_ranges_gapped:
  assumes "\<forall>r \<in> set refs. ref_ok r"
  shows "gapped (live_ranges refs)" and "\<forall>r \<in> set (live_ranges refs). fst r \<le> snd r"
proof -
  have "\<forall>r \<in> set (sort (map ref_range refs)). fst r \<le> snd r"
    using assms by (auto intro: ref_range_ordered)
  from gapped_merge_sorted [OF sorted_fst_sort this]
  show "gapped (live_ranges refs)" and "\<forall>r \<in> set (live_ranges refs). fst r \<le> snd r"
    by (simp_all add: live_ranges_def)
qed

lemma live_ranges_nonempty:
  assumes "\<forall>r \<in> set refs. ref_ok r \<and> r_num_bytes r \<noteq> 0"
  shows "\<forall>r \<in> set (live_ranges refs). fst r < snd r"
proof -
  have "\<forall>r \<in> set (sort (map ref_range refs)). fst r < snd r"
    using assms by (auto simp: ref_range_def ref_ok_def word_less_nat_alt unat_simps unat_gt_0)
  from merge_sorted_nonempty [OF sorted_fst_sort this] show ?thesis by (simp add: live_ranges_def)
qed

lemma live_ranges_ends:
  "g \<in> set (live_ranges refs) \<Longrightarrow>
     (\<exists>r \<in> set refs. fst g = r_extent_offset r) \<and>
     (\<exists>r \<in> set refs. snd g = r_extent_offset r + r_num_bytes r)"
  using merge_sorted_ends [of "sort (map ref_range refs)"]
  by (fastforce simp: live_ranges_def ref_range_def)

text \<open>
  C33: The live ranges of an extent are exactly the bytes its references cover, in order and apart:
  no byte that is referenced is missing, none that is not is included, and no two ranges touch.
\<close>

theorem live_ranges_exact:
  assumes "\<forall>r \<in> set refs. ref_ok r"
  shows "(\<Union>g \<in> set (live_ranges refs). {fst g..<snd g}) =
           (\<Union>r \<in> set refs. {r_extent_offset r..<r_extent_offset r + r_num_bytes r})
       \<and> sorted_wrt (\<lambda>g g'. snd g < fst g') (live_ranges refs)
       \<and> (\<forall>g \<in> set (live_ranges refs). fst g \<le> snd g)"
  using covered_live_ranges [of refs] live_ranges_gapped [OF assms]
  by (auto simp: covered_def live_bytes_def span_def gapped_def)

text \<open>Three references used by the witnesses: two that overlap and one apart from them.\<close>

definition sample_ref :: "u64 \<Rightarrow> u64 \<Rightarrow> extent_ref" where
  "sample_ref start len =
     \<lparr>r_root = 5, r_inode = 257, r_disk_address = 0, r_disk_bytes = 1024,
      r_uncompressed_bytes = 1024, r_file_offset = 0, r_extent_offset = start, r_num_bytes = len,
      r_leaf_generation = 0\<rparr>"

lemma live_ranges_exact_witness:
  "list_all ref_ok [sample_ref 0 600, sample_ref 900 124, sample_ref 400 400]
   \<and> live_ranges [sample_ref 0 600, sample_ref 900 124, sample_ref 400 400] = [(0, 800), (900, 1024)]
   \<and> sorted_wrt (\<lambda>g g'. snd g < fst g')
       (live_ranges [sample_ref 0 600, sample_ref 900 124, sample_ref 400 400])"
proof -
  have ok: "\<forall>r \<in> set [sample_ref 0 600, sample_ref 900 124, sample_ref 400 400]. ref_ok r"
    by (simp add: sample_ref_def ref_ok_def fits_def)
  have "live_ranges [sample_ref 0 600, sample_ref 900 124, sample_ref 400 400] = [(0, 800), (900, 1024)]"
    by (simp add: live_ranges_def sample_ref_def ref_range_def merge_sorted_def absorb_def absorb1_def)
  with ok live_ranges_exact [OF ok] show ?thesis unfolding list_all_iff by blast
qed

text \<open>
  C34: The merged form is canonical: two lists of (non-empty) references that cover the same bytes
  have the same live ranges, whatever their order and however they overlap. In particular the
  unstable sort cannot make a difference.
\<close>

theorem live_ranges_canonical:
  assumes "\<forall>r \<in> set refs. ref_ok r \<and> r_num_bytes r \<noteq> 0"
    and "\<forall>r \<in> set refs'. ref_ok r \<and> r_num_bytes r \<noteq> 0"
    and "live_bytes refs = live_bytes refs'"
  shows "live_ranges refs = live_ranges refs'"
  using assms
  by (intro gapped_unique live_ranges_gapped(1) live_ranges_nonempty)
     (auto simp: covered_live_ranges)

lemma live_ranges_canonical_witness:
  "live_ranges [sample_ref 0 512, sample_ref 512 512] = live_ranges [sample_ref 0 1024]"
proof (rule live_ranges_canonical)
  show "live_bytes [sample_ref 0 512, sample_ref 512 512] = live_bytes [sample_ref 0 1024]"
    by (auto simp: live_bytes_def sample_ref_def word_less_nat_alt word_le_nat_alt)
qed (simp_all add: sample_ref_def ref_ok_def fits_def)

section \<open>What is used and what is free\<close>

lemma extent_ok_ranges:
  assumes "extent_ok e"
  shows "gapped (e_live_ranges e)" and "\<forall>r \<in> set (e_live_ranges e). fst r \<le> snd r"
    and "covered (e_live_ranges e) = live_bytes (e_refs e)"
  using assms live_ranges_gapped [of "e_refs e"] covered_live_ranges [of "e_refs e"]
  by (auto simp: extent_ok_def)

lemma live_card:
  "extent_ok e \<Longrightarrow> unat (live_uncompressed_bytes e) = card (live_bytes (e_refs e))"
  using unat_sum_gapped [OF extent_ok_ranges(1,2)] extent_ok_ranges(3)
  by (simp add: live_uncompressed_bytes_def range_bytes_def [abs_def])

text \<open>
  The live byte count of an extent is the number of bytes some reference covers, each counted
  once however many references share it, and the sum does not wrap.
\<close>

lemma live_uncompressed_bytes_counts_once:
  assumes "extent_ok e"
  shows "unat (live_uncompressed_bytes e) = card (live_bytes (e_refs e))"
  by (rule live_card [OF assms])

definition sample_extent :: "extent_ref list \<Rightarrow> extent" where
  "sample_extent refs = Extent_new 0 1024 1024 refs"

lemma sample_extent_ok:
  "\<forall>r \<in> set refs. ref_ok r \<Longrightarrow> extent_ok (sample_extent refs)"
  by (simp add: sample_extent_def Extent_new_def extent_ok_def)

lemma live_uncompressed_bytes_counts_once_witness:
  "unat (live_uncompressed_bytes (sample_extent [sample_ref 0 600, sample_ref 400 400]))
     = card (live_bytes (e_refs (sample_extent [sample_ref 0 600, sample_ref 400 400])))
   \<and> live_uncompressed_bytes (sample_extent [sample_ref 0 600, sample_ref 400 400]) = 800"
proof -
  have "extent_ok (sample_extent [sample_ref 0 600, sample_ref 400 400])"
    by (rule sample_extent_ok) (simp add: sample_ref_def ref_ok_def fits_def)
  note live_uncompressed_bytes_counts_once [OF this]
  moreover have "live_uncompressed_bytes (sample_extent [sample_ref 0 600, sample_ref 400 400]) = 800"
    by (simp add: live_uncompressed_bytes_def sample_extent_def Extent_new_def live_ranges_def
        sample_ref_def ref_range_def merge_sorted_def absorb_def absorb1_def)
  ultimately show ?thesis by blast
qed

text \<open>The scaling of used bytes, on naturals: the product fits the \<open>u128\<close> it is computed in, and
  the quotient the \<open>u64\<close> it is cut to.\<close>

lemma unat_disk_used_bytes:
  "unat (disk_used_bytes e) =
     (let live = unat (live_uncompressed_bytes e); u = unat (e_uncompressed_bytes e)
      in min live u * unat (e_disk_bytes e) div u)"
proof (cases "e_uncompressed_bytes e = 0")
  case True
  then show ?thesis by (simp add: disk_used_bytes_def)
next
  case False
  let ?l = "min (live_uncompressed_bytes e) (e_uncompressed_bytes e)"
  let ?d = "e_disk_bytes e" and ?u = "e_uncompressed_bytes e"
  have u: "0 < unat ?u" using False by (simp add: unat_gt_0)
  have "unat ?l * unat ?d \<le> unat ?u * unat ?d"
    by (intro mult_right_mono) (simp_all add: unat_simps)
  then have le: "unat ?l * unat ?d div unat ?u \<le> unat ?d"
    using u by (metis div_le_mono nonzero_mult_div_cancel_left less_numeral_extra(3))
  have "unat ?l * unat ?d < 2 ^ 64 * 2 ^ 64"
    by (intro mult_strict_mono unat_u64_bound) auto
  then have "unat ((ucast ?l :: u128) * ucast ?d) = unat ?l * unat ?d"
    by (simp add: unat_word_ariths unat_widen)
  then have "unat ((ucast ?l :: u128) * ucast ?d div ucast ?u) = unat ?l * unat ?d div unat ?u"
    by (simp add: unat_div unat_widen)
  then have "unat (disk_used_bytes e) = unat ?l * unat ?d div unat ?u mod 2 ^ 64"
    using False by (simp add: disk_used_bytes_def unat_narrow)
  also have "\<dots> = unat ?l * unat ?d div unat ?u"
    using le unat_u64_bound [of ?d] by (intro mod_less) linarith
  finally show ?thesis by (simp add: Let_def unat_simps)
qed

lemma disk_used_le: "disk_used_bytes e \<le> e_disk_bytes e"
proof -
  let ?l = "unat (live_uncompressed_bytes e)" and ?u = "unat (e_uncompressed_bytes e)"
  have "min ?l ?u * unat (e_disk_bytes e) div ?u \<le> ?u * unat (e_disk_bytes e) div ?u"
    by (intro div_le_mono mult_right_mono) auto
  also have "\<dots> \<le> unat (e_disk_bytes e)" by simp
  finally show ?thesis by (simp add: word_le_nat_alt unat_disk_used_bytes Let_def)
qed

text \<open>
  C35: Used and free bytes split an extent's disk bytes, for every extent there is: neither the
  128-bit scaling nor the subtraction ever wraps, so nothing is reported free that is not there.
\<close>

theorem used_and_free_split_disk_bytes:
  "unat (disk_used_bytes e) + unat (disk_free_bytes e) = unat (e_disk_bytes e)"
  using disk_used_le [of e]
  by (simp add: disk_free_bytes_def unat_simps word_le_nat_alt)

text \<open>
  Of an extent that is not compressed, and whose references stay inside it, what is free on
  disk is exactly the bytes no reference covers.
\<close>

lemma uncompressed_free_is_unreferenced:
  assumes "extent_ok e"
    and "e_uncompressed_bytes e = e_disk_bytes e"
    and "\<forall>r \<in> set (e_refs e). unat (r_extent_offset r) + unat (r_num_bytes r) \<le> unat (e_disk_bytes e)"
  shows "unat (disk_free_bytes e) = card ({0..<e_disk_bytes e} - live_bytes (e_refs e))"
proof -
  let ?live = "live_bytes (e_refs e)" and ?d = "e_disk_bytes e"
  have sub: "?live \<subseteq> {0..<?d}"
    using assms(1,3)
    by (fastforce simp: live_bytes_def extent_ok_def ref_ok_def word_less_nat_alt unat_simps)
  then have "card ?live \<le> unat ?d"
    by (metis card_mono card_word_interval diff_zero finite unat_0)
  moreover have "unat (live_uncompressed_bytes e) = card ?live"
    by (simp add: live_card [OF assms(1)])
  ultimately have "unat (disk_used_bytes e) = card ?live"
    using assms(2) by (cases "unat ?d = 0") (simp_all add: unat_disk_used_bytes Let_def)
  moreover have "card ({0..<?d} - ?live) = unat ?d - card ?live"
    using sub by (simp add: card_Diff_subset card_word_interval)
  ultimately show ?thesis
    using disk_used_le [of e] by (simp add: disk_free_bytes_def unat_simps)
qed

lemma uncompressed_free_is_unreferenced_witness:
  "unat (disk_free_bytes (sample_extent [sample_ref 0 600, sample_ref 400 400]))
     = card ({0..<e_disk_bytes (sample_extent [sample_ref 0 600, sample_ref 400 400])}
             - live_bytes (e_refs (sample_extent [sample_ref 0 600, sample_ref 400 400])))
   \<and> disk_free_bytes (sample_extent [sample_ref 0 600, sample_ref 400 400]) = 224"
proof
  show "unat (disk_free_bytes (sample_extent [sample_ref 0 600, sample_ref 400 400]))
     = card ({0..<e_disk_bytes (sample_extent [sample_ref 0 600, sample_ref 400 400])}
             - live_bytes (e_refs (sample_extent [sample_ref 0 600, sample_ref 400 400])))"
    by (rule uncompressed_free_is_unreferenced)
       (simp_all add: sample_extent_ok sample_extent_def Extent_new_def extent_ok_def sample_ref_def
          ref_ok_def fits_def)
  show "disk_free_bytes (sample_extent [sample_ref 0 600, sample_ref 400 400]) = 224"
    by (simp add: disk_free_bytes_def disk_used_bytes_def live_uncompressed_bytes_def
        sample_extent_def Extent_new_def live_ranges_def sample_ref_def ref_range_def
        merge_sorted_def absorb_def absorb1_def)
qed

section \<open>Holders\<close>

interpretation holder_groups: sorted_grouping "\<lambda>r. (r_root r, r_inode r)" "\<lambda>h. (h_root h, h_inode h)"
    holder_of_ref holder_push
  by unfold_locales (simp_all add: holder_of_ref_def holder_push_def)

lemma h_refs_foldl_push [simp]: "h_refs (foldl holder_push h rs) = h_refs h @ rs"
  by (induction rs arbitrary: h) (simp_all add: holder_push_def)

lemma h_refs_build: "rs \<noteq> [] \<Longrightarrow> h_refs (holder_groups.build rs) = rs"
  by (simp add: holder_groups.build_def holder_of_ref_def)

abbreviation holder_order :: "extent_ref \<Rightarrow> u64 \<times> u64 \<times> u64" where
  "holder_order r \<equiv> (r_root r, r_inode r, r_file_offset r)"

lemma sorted_by_file:
  "sorted (map holder_order refs) \<Longrightarrow> sorted (map (\<lambda>r. (r_root r, r_inode r)) refs)"
  unfolding sorted_wrt_map by (erule sorted_wrt_mono_rel [rotated]) (auto simp: less_eq_prod_def)

lemma sorted_offsets_of_file:
  assumes "sorted (map holder_order refs)" and "\<forall>r \<in> set refs. (r_root r, r_inode r) = k"
  shows "sorted (map r_file_offset refs)"
proof -
  have "r_root r = fst k \<and> r_inode r = snd k" if "r \<in> set refs" for r
    using assms(2) that by auto
  then show ?thesis
    using assms(1) unfolding sorted_wrt_map
    by (elim sorted_wrt_mono_rel [rotated]) (simp add: less_eq_prod_def)
qed

lemma holders_eq_runs:
  "holders e = map holder_groups.build (runs (\<lambda>r. (r_root r, r_inode r)) (sort_key holder_order (e_refs e)))"
  using holder_groups.grouping by (simp add: holders_def)

lemma concat_holder_refs: "concat (map h_refs (holders e)) = sort_key holder_order (e_refs e)"
proof -
  let ?rs = "runs (\<lambda>r. (r_root r, r_inode r)) (sort_key holder_order (e_refs e))"
  have "map h_refs (holders e) = ?rs"
    unfolding holders_eq_runs map_map by (rule map_idI) (simp add: h_refs_build runs_nonempty)
  then show ?thesis by (simp only: concat_runs)
qed

lemma holder_refs:
  assumes "h \<in> set (holders e)"
  shows "h_refs h = filter (\<lambda>r. (r_root r, r_inode r) = (h_root h, h_inode h)) (sort_key holder_order (e_refs e))"
    and "h_refs h \<noteq> []"
proof -
  let ?xs = "sort_key holder_order (e_refs e)"
  let ?f = "filter (\<lambda>r. (r_root r, r_inode r) = (h_root h, h_inode h)) ?xs"
  have "sorted (map (\<lambda>r. (r_root r, r_inode r)) ?xs)"
    by (rule sorted_by_file) simp
  from holder_groups.group_eq_build_filter [OF this] assms
  have h: "h = holder_groups.build ?f" and ne: "?f \<noteq> []" by (simp_all add: holders_def)
  from h have "h_refs h = h_refs (holder_groups.build ?f)" by (rule arg_cong)
  also have "\<dots> = ?f" by (rule h_refs_build [OF ne])
  finally show "h_refs h = ?f" .
  with ne show "h_refs h \<noteq> []" by simp
qed

text \<open>
  C36: The holders of an extent partition its references by file: each file that holds it appears
  exactly once, in order of subvolume and inode, with all of its references and no other, in file
  order.
\<close>

theorem holders_partition:
  "sorted_wrt (<) (map (\<lambda>h. (h_root h, h_inode h)) (holders e))
   \<and> mset (concat (map h_refs (holders e))) = mset (e_refs e)
   \<and> list_all (\<lambda>h. h_refs h \<noteq> [] \<and> sorted (map r_file_offset (h_refs h)) \<and>
         mset (h_refs h) =
           filter_mset (\<lambda>r. (r_root r, r_inode r) = (h_root h, h_inode h)) (mset (e_refs e))) (holders e)"
proof (unfold list_all_iff, intro conjI ballI)
  let ?xs = "sort_key holder_order (e_refs e)"
  have sorted: "sorted (map holder_order ?xs)" by simp
  show "sorted_wrt (<) (map (\<lambda>h. (h_root h, h_inode h)) (holders e))"
    using holder_groups.groups_sorted [OF sorted_by_file [OF sorted]] by (simp add: holders_def)
  show "mset (concat (map h_refs (holders e))) = mset (e_refs e)"
    by (simp only: concat_holder_refs mset_sort)
  fix h assume h: "h \<in> set (holders e)"
  show "h_refs h \<noteq> []" by (rule holder_refs(2) [OF h])
  show "sorted (map r_file_offset (h_refs h))"
    unfolding holder_refs(1) [OF h]
    by (rule sorted_offsets_of_file [of _ "(h_root h, h_inode h)"])
       (use sorted sorted_filter in \<open>auto simp del: sorted_sort_key\<close>)
  show "mset (h_refs h) =
      filter_mset (\<lambda>r. (r_root r, r_inode r) = (h_root h, h_inode h)) (mset (e_refs e))"
    unfolding holder_refs(1) [OF h] mset_filter mset_sort ..
qed

section \<open>Selection\<close>

text \<open>
  The two selection criteria, on the exact byte counts: an extent is left alone when it frees
  under 64 KiB, or else when it copies more than four times what it frees, and is worth rewriting
  in every other case.
\<close>

lemma not_worth_rewriting_thresholds:
  assumes "unat (e_disk_bytes e) < 2 ^ 62"
  shows "not_worth_rewriting e =
     (if unat (disk_free_bytes e) < 65536 then Some TooLittleToFree
      else if 4 * unat (disk_free_bytes e) < unat (live_uncompressed_bytes e) then Some TooMuchToCopy
      else None)
   \<and> (worth_rewriting e \<longleftrightarrow>
        \<not> unat (disk_free_bytes e) < 65536 \<and>
        \<not> 4 * unat (disk_free_bytes e) < unat (live_uncompressed_bytes e))"
proof -
  have "unat (disk_free_bytes e) \<le> unat (e_disk_bytes e)"
    using disk_used_le [of e] by (simp add: disk_free_bytes_def unat_simps)
  with assms have "unat (disk_free_bytes e) < 2 ^ 62" by simp
  then have "unat (disk_free_bytes e * MAX_COPY_RATIO) = 4 * unat (disk_free_bytes e)"
    by (simp add: MAX_COPY_RATIO_def unat_word_ariths)
  then show ?thesis
    by (simp add: not_worth_rewriting_def worth_rewriting_def Let_def MIN_RECLAIM_BYTES_def
        word_less_nat_alt)
qed

lemma not_worth_rewriting_thresholds_witness:
  "not_worth_rewriting (Extent_new 0 1048576 1048576 [sample_ref 0 4096]) = None
   \<and> not_worth_rewriting (Extent_new 0 1048576 1048576 [sample_ref 0 921600]) = Some TooMuchToCopy"
proof -
  have d: "unat (e_disk_bytes (Extent_new 0 1048576 1048576 refs)) < 2 ^ 62" for refs
    by (simp add: Extent_new_def)
  show ?thesis
    unfolding not_worth_rewriting_thresholds [OF d, THEN conjunct1]
    by (simp add: disk_free_bytes_def disk_used_bytes_def live_uncompressed_bytes_def
        Extent_new_def live_ranges_def sample_ref_def ref_range_def
        merge_sorted_def absorb_def absorb1_def)
qed

end
