(* ===== verification/Os.thy ===== *)
theory Os
  imports Format
begin

text \<open>
  What the program runs on, as parameters of the model: the kernel's binary interface (constants
  and struct layouts, which come from the \<open>linux-raw-sys\<close> package) and the kernel's operations
  (system calls, ioctls and the file operations of the standard library on top of them). Nothing
  is assumed of them here; a theorem that relies on documented behaviour names it as a hypothesis.

  The state a computation runs over is the kernel's own state, of any type \<open>'w\<close>, together with
  what a \<open>Filesystem\<close> handle keeps behind its mutexes: the pool of search buffers, the
  subvolumes looked up so far, and the last snapshots read for the current batch.
\<close>

section \<open>Errors\<close>

text \<open>\<open>std::io::Error\<close>: an error number of the system, the program's own \<open>Changed\<close> marker, or a
  kind with a message. \<open>OsKind\<close> stands for the kind the standard library gives any error number
  but \<open>ENOENT\<close>; none of those is \<open>InvalidData\<close>.\<close>

datatype error_kind = NotFound | InvalidData | UnexpectedEof | WriteZero | OtherKind | OsKind u32

datatype io_error = OsError u32 | ChangedError string | CustomError error_kind string

fun kind_of :: "io_error \<Rightarrow> error_kind" where
  "kind_of (OsError n) = (if n = 2 then NotFound else OsKind n)"
| "kind_of (ChangedError _) = OtherKind"
| "kind_of (CustomError k _) = k"

fun raw_os_error :: "io_error \<Rightarrow> u32 option" where
  "raw_os_error (OsError n) = Some n"
| "raw_os_error _ = None"

abbreviation other_error :: "string \<Rightarrow> io_error" where
  "other_error msg \<equiv> CustomError OtherKind msg"

section \<open>Binary layouts\<close>

text \<open>A struct of the interface: its size, and how to read one from that many bytes.\<close>

record 'a layout =
  l_size :: nat
  l_decode :: "u8 list \<Rightarrow> 'a"

record search_header =
  sh_transid :: u64
  sh_objectid :: u64
  sh_offset :: u64
  sh_type :: u32
  sh_len :: u32

record btrfs_extent_item =
  ei_refs :: u64
  ei_generation :: u64
  ei_flags :: u64

record btrfs_extent_data_ref =
  dr_root :: u64
  dr_objectid :: u64
  dr_offset :: u64
  dr_count :: u32

record btrfs_file_extent_item =
  fe_ram_bytes :: u64
  fe_type :: u8
  fe_disk_bytenr :: u64
  fe_disk_num_bytes :: u64
  fe_offset :: u64
  fe_num_bytes :: u64

record btrfs_root_ref =
  rr_dirid :: u64
  rr_name_len :: u16

record search_key =
  sk_tree_id :: u64
  sk_min_objectid :: u64
  sk_max_objectid :: u64
  sk_min_offset :: u64
  sk_max_offset :: u64
  sk_min_transid :: u64
  sk_max_transid :: u64
  sk_min_type :: u32
  sk_max_type :: u32
  sk_nr_items :: u32

record abi =
  EXTENT_DATA_KEY :: u32
  EXTENT_DATA_REF_KEY :: u32
  EXTENT_ITEM_KEY :: u32
  EXTENT_OWNER_REF_KEY :: u32
  SHARED_DATA_REF_KEY :: u32
  ROOT_BACKREF_KEY :: u32
  ROOT_ITEM_KEY :: u32
  EXTENT_TREE_OBJECTID :: u64
  FS_TREE_OBJECTID :: u64
  ROOT_TREE_OBJECTID :: u64
  FIRST_FREE_OBJECTID :: u64
  EXTENT_FLAG_DATA :: u64
  FILE_EXTENT_INLINE :: u32
  FS_INFO_FLAG_GENERATION :: u64
  SUPER_MAGIC :: u64
  FS_NOCOW_FL :: u32
  DEDUPE_RANGE_SAME :: u32
  ENOSPC :: u32
  EDQUOT :: u32
  EROFS :: u32
  EIO :: u32
  EUCLEAN :: u32
  header_layout :: "search_header layout"
  extent_item_layout :: "btrfs_extent_item layout"
  data_ref_layout :: "btrfs_extent_data_ref layout"
  owner_ref_size :: nat
  file_extent_layout :: "btrfs_file_extent_item layout"
  root_ref_layout :: "btrfs_root_ref layout"
  root_item_last_snapshot :: nat

text \<open>Little-endian fields, as the hosts the program runs on have them.\<close>

fun le_nat :: "u8 list \<Rightarrow> nat" where
  "le_nat [] = 0"
| "le_nat (b # bs) = unat b + 256 * le_nat bs"

definition le_field :: "u8 list \<Rightarrow> nat \<Rightarrow> nat \<Rightarrow> 'a::len word" where
  "le_field bs at n = of_nat (le_nat (take n (drop at bs)))"

text \<open>\<open>u64\<close> itself read from bytes.\<close>

definition u64_layout :: "u64 layout" where
  "u64_layout = \<lparr>l_size = 8, l_decode = (\<lambda>bs. le_field bs 0 8)\<rparr>"

text \<open>\<open>read_struct::<T>(buf, off)\<close> of src/kernel.rs; the sum of offset and size is a checked one
  on \<open>usize\<close>.\<close>

definition read_struct :: "'a layout \<Rightarrow> u8 list \<Rightarrow> nat \<Rightarrow> 'a option" where
  "read_struct L buf off =
     (let fin = off + l_size L
      in if 2 ^ 64 \<le> fin then None
         else if length buf < fin then None
         else Some (l_decode L (take (l_size L) (drop off buf))))"

section \<open>Kernel operations\<close>

datatype open_flag = O_RDONLY | O_RDWR | O_DIRECTORY | O_NOATIME | O_TMPFILE | O_CLOEXEC

datatype resolve_flag = RESOLVE_BENEATH | RESOLVE_NO_SYMLINKS | RESOLVE_NO_XDEV

record metadata =
  md_ino :: u64
  md_len :: u64
  md_is_dir :: bool
  md_modified :: "io_error + int"

record statfs =
  sf_type :: u64
  sf_bsize :: u64
  sf_flags :: u64

type_synonym path = string

text \<open>\<open>rounds\<close> is the model's bound on loops whose end only the kernel decides; a loop that
  uses it up ends in \<open>NoReturn\<close>. Theorems that claim a result say how large it has to be.\<close>

record ('w, 'f) kernel = abi +
  rounds :: nat
  k_search :: "search_key \<Rightarrow> u64 \<Rightarrow> 'w \<Rightarrow> (io_error + u32 \<times> u8 list) \<times> 'w"
  k_logical_ino :: "u64 \<Rightarrow> nat \<Rightarrow> u64 list \<Rightarrow> 'w \<Rightarrow> (io_error + u64 list) \<times> 'w"
  k_ino_lookup :: "'f \<Rightarrow> u64 \<Rightarrow> u64 \<Rightarrow> 'w \<Rightarrow> (io_error + u64 \<times> u8 list) \<times> 'w"
  k_ino_paths :: "'f \<Rightarrow> u64 \<Rightarrow> nat \<Rightarrow> 'w \<Rightarrow> (io_error + u32 \<times> u8 list) \<times> 'w"
  k_openat2 :: "'f \<Rightarrow> path \<Rightarrow> open_flag set \<Rightarrow> resolve_flag set \<Rightarrow> 'w \<Rightarrow> (io_error + 'f) \<times> 'w"
  k_open :: "path \<Rightarrow> 'w \<Rightarrow> (io_error + 'f) \<times> 'w"
  k_clone_mount :: "'f \<Rightarrow> 'w \<Rightarrow> (io_error + 'f) \<times> 'w"
  k_fstatfs :: "'f \<Rightarrow> 'w \<Rightarrow> (io_error + statfs) \<times> 'w"
  k_fs_info :: "'f \<Rightarrow> u64 \<Rightarrow> 'w \<Rightarrow> (io_error + u64 \<times> u64) \<times> 'w"
  k_syncfs :: "'f \<Rightarrow> 'w \<Rightarrow> (io_error + unit) \<times> 'w"
  k_metadata :: "'f \<Rightarrow> 'w \<Rightarrow> (io_error + metadata) \<times> 'w"
  k_get_flags :: "'f \<Rightarrow> 'w \<Rightarrow> (io_error + u32) \<times> 'w"
  k_set_flags :: "'f \<Rightarrow> u32 \<Rightarrow> 'w \<Rightarrow> (io_error + unit) \<times> 'w"
  k_read_exact_at :: "'f \<Rightarrow> u64 \<Rightarrow> nat \<Rightarrow> 'w \<Rightarrow> (io_error + u8 list) \<times> 'w"
  k_write_all_at :: "'f \<Rightarrow> u8 list \<Rightarrow> u64 \<Rightarrow> 'w \<Rightarrow> (io_error + unit) \<times> 'w"
  k_dedupe :: "'f \<Rightarrow> u64 \<Rightarrow> u64 \<Rightarrow> 'f \<Rightarrow> u64 \<Rightarrow> 'w \<Rightarrow> (io_error + u32 \<times> u64) \<times> 'w"
  k_strerror :: "u32 \<Rightarrow> string"

text \<open>\<open>Display\<close> of an error.\<close>

fun show_error :: "('w, 'f) kernel \<Rightarrow> io_error \<Rightarrow> string" where
  "show_error K (OsError n) = k_strerror K n"
| "show_error K (ChangedError why) = why"
| "show_error K (CustomError _ msg) = msg"

section \<open>The state computations run over\<close>

record search_args =
  sa_key :: search_key
  sa_buf_size :: u64
  sa_buf :: "u8 list"

text \<open>\<open>Subvolume\<close> of src/kernel.rs.\<close>

record subvolume =
  sv_path :: path

record 'w sys =
  world :: 'w
  searchargs_pool :: "search_args list"
  subvolumes :: "u64 \<rightharpoonup> subvolume option"
  last_snapshots :: "u64 \<rightharpoonup> u64"

type_synonym ('w, 'a) io = "('w sys, io_error, 'a) comp"

text \<open>One call into the kernel: an error of it is the error of the computation.\<close>

definition sys_call :: "('w \<Rightarrow> (io_error + 'a) \<times> 'w) \<Rightarrow> ('w, 'a) io" where
  "sys_call f s =
     (case f (world s) of
        (Inl e, w) \<Rightarrow> (Inl (Raise e), s\<lparr>world := w\<rparr>)
      | (Inr x, w) \<Rightarrow> (Inr x, s\<lparr>world := w\<rparr>))"

lemma wp_sys_call [wp_simps]:
  "wp (sys_call f) Q E s =
     (case f (world s) of
        (Inl e, w) \<Rightarrow> E (Raise e) (s\<lparr>world := w\<rparr>)
      | (Inr x, w) \<Rightarrow> Q x (s\<lparr>world := w\<rparr>))"
  by (simp add: wp_def sys_call_def split: prod.splits sum.splits)

lemma calm_sys_call [calm_intros]: "calm (sys_call f)"
  by (auto simp: calm_def sys_call_def split: prod.splits sum.splits)

text \<open>The contract of a property of the handle's own state: what the kernel does is nothing to
  it. Every kernel call keeps such a property.\<close>

locale own_state =
  fixes I :: "'w sys \<Rightarrow> bool"
  assumes world_irrelevant: "I (s\<lparr>world := w\<rparr>) \<longleftrightarrow> I s"
begin

lemma preserves_sys_call: "preserves I (sys_call f)"
  by (simp add: preserves_def sys_call_def world_irrelevant split: prod.splits sum.splits)

end

text \<open>The other way round, a property of the kernel's state alone.\<close>

locale world_state =
  fixes I :: "'w sys \<Rightarrow> bool" and J :: "'w \<Rightarrow> bool"
  assumes world_only: "I s \<longleftrightarrow> J (world s)"
begin

lemma preserves_sys_call: "(\<And>w. J w \<Longrightarrow> J (snd (f w))) \<Longrightarrow> preserves I (sys_call f)"
  by (auto simp: preserves_def sys_call_def world_only split: prod.splits sum.splits) (metis snd_conv)+

lemma preserves_own: "(\<And>s. world (f s) = world s) \<Longrightarrow> preserves I (modifyS f)"
  by (simp add: preserves_def modifyS_def world_only)

end

interpretation on_world: world_state "\<lambda>s. J (world s)" J for J :: "'w \<Rightarrow> bool"
  by unfold_locales simp

text \<open>\<open>Filesystem\<close> of src/kernel.rs, less what is behind its mutexes: that is in \<open>sys\<close>.\<close>

record 'f filesystem =
  fs_file :: 'f
  fs_private :: 'f
  fs_mount :: path
  fs_sectorsize :: u64
  fs_read_only :: bool

section \<open>The interface's documented values\<close>

text \<open>The constants and layouts of \<open>linux/btrfs_tree.h\<close> and \<open>linux/btrfs.h\<close>, for the concrete
  runs of the witnesses. No theorem but a witness depends on them.\<close>

definition header_layout_v2 :: "search_header layout" where
  "header_layout_v2 = \<lparr>l_size = 32, l_decode = (\<lambda>bs.
     \<lparr>sh_transid = le_field bs 0 8, sh_objectid = le_field bs 8 8, sh_offset = le_field bs 16 8,
      sh_type = le_field bs 24 4, sh_len = le_field bs 28 4\<rparr>)\<rparr>"

definition btrfs_abi :: abi where
  "btrfs_abi = \<lparr>
     EXTENT_DATA_KEY = 108, EXTENT_DATA_REF_KEY = 178, EXTENT_ITEM_KEY = 168,
     EXTENT_OWNER_REF_KEY = 172, SHARED_DATA_REF_KEY = 184, ROOT_BACKREF_KEY = 144,
     ROOT_ITEM_KEY = 132, EXTENT_TREE_OBJECTID = 2, FS_TREE_OBJECTID = 5, ROOT_TREE_OBJECTID = 1,
     FIRST_FREE_OBJECTID = 256, EXTENT_FLAG_DATA = 1, FILE_EXTENT_INLINE = 0,
     FS_INFO_FLAG_GENERATION = 2, SUPER_MAGIC = 0x9123683E, FS_NOCOW_FL = 0x00800000,
     DEDUPE_RANGE_SAME = 0, ENOSPC = 28, EDQUOT = 122, EROFS = 30, EIO = 5, EUCLEAN = 117,
     header_layout = header_layout_v2,
     extent_item_layout = \<lparr>l_size = 24, l_decode = (\<lambda>bs.
       \<lparr>ei_refs = le_field bs 0 8, ei_generation = le_field bs 8 8, ei_flags = le_field bs 16 8\<rparr>)\<rparr>,
     data_ref_layout = \<lparr>l_size = 28, l_decode = (\<lambda>bs.
       \<lparr>dr_root = le_field bs 0 8, dr_objectid = le_field bs 8 8, dr_offset = le_field bs 16 8,
        dr_count = le_field bs 24 4\<rparr>)\<rparr>,
     owner_ref_size = 8,
     file_extent_layout = \<lparr>l_size = 53, l_decode = (\<lambda>bs.
       \<lparr>fe_ram_bytes = le_field bs 8 8, fe_type = le_field bs 20 1, fe_disk_bytenr = le_field bs 21 8,
        fe_disk_num_bytes = le_field bs 29 8, fe_offset = le_field bs 37 8,
        fe_num_bytes = le_field bs 45 8\<rparr>)\<rparr>,
     root_ref_layout = \<lparr>l_size = 18, l_decode = (\<lambda>bs.
       \<lparr>rr_dirid = le_field bs 0 8, rr_name_len = le_field bs 16 2\<rparr>)\<rparr>,
     root_item_last_snapshot = 200\<rparr>"

text \<open>A kernel with these values on which every operation fails (\<open>ENOSYS\<close>); the witnesses give it
  the operations they run.\<close>

definition sample_kernel :: "('w, 'f) kernel" where
  "sample_kernel = abi.extend btrfs_abi \<lparr>
     rounds = 10,
     k_search = (\<lambda>_ _ w. (Inl (OsError 38), w)),
     k_logical_ino = (\<lambda>_ _ _ w. (Inl (OsError 38), w)),
     k_ino_lookup = (\<lambda>_ _ _ w. (Inl (OsError 38), w)),
     k_ino_paths = (\<lambda>_ _ _ w. (Inl (OsError 38), w)),
     k_openat2 = (\<lambda>_ _ _ _ w. (Inl (OsError 38), w)),
     k_open = (\<lambda>_ w. (Inl (OsError 38), w)),
     k_clone_mount = (\<lambda>_ w. (Inl (OsError 38), w)),
     k_fstatfs = (\<lambda>_ w. (Inl (OsError 38), w)),
     k_fs_info = (\<lambda>_ _ w. (Inl (OsError 38), w)),
     k_syncfs = (\<lambda>_ w. (Inl (OsError 38), w)),
     k_metadata = (\<lambda>_ w. (Inl (OsError 38), w)),
     k_get_flags = (\<lambda>_ w. (Inl (OsError 38), w)),
     k_set_flags = (\<lambda>_ _ w. (Inl (OsError 38), w)),
     k_read_exact_at = (\<lambda>_ _ _ w. (Inl (OsError 38), w)),
     k_write_all_at = (\<lambda>_ _ _ w. (Inl (OsError 38), w)),
     k_dedupe = (\<lambda>_ _ _ _ _ w. (Inl (OsError 38), w)),
     k_strerror = (\<lambda>_. ''os error'')\<rparr>"

lemmas sample_kernel_simps = sample_kernel_def btrfs_abi_def abi.defs

definition sample_sys :: "'w \<Rightarrow> 'w sys" where
  "sample_sys w = \<lparr>world = w, searchargs_pool = [], subvolumes = Map.empty, last_snapshots = Map.empty\<rparr>"

lemma sample_sys_simps [simp]:
  "world (sample_sys w) = w" "searchargs_pool (sample_sys w) = []"
  "subvolumes (sample_sys w) = Map.empty" "last_snapshots (sample_sys w) = Map.empty"
  by (simp_all add: sample_sys_def)

end
