(* ===== verification/Search.thy ===== *)
theory Search
  imports Os
begin

text \<open>
  The tree search of src/kernel.rs: \<open>SearchArgs\<close>, its reading of the kernel's answer item by item,
  the loop that carries on from the last key until the range is read to its end, and the pool the
  buffers come from.

  The main results: whatever a reused buffer still holds from an earlier search is never read; the
  next key to search from is the successor of the last one returned; and a search over a key range
  hands the callback exactly the items of the range, in order, each once.
\<close>

section \<open>SearchArgs\<close>

definition BUF_SIZE :: nat where
  "BUF_SIZE = 256 * 1024"

definition MAX_ITEM_SIZE :: nat where
  "MAX_ITEM_SIZE = 64 * 1024"

type_synonym tree_key = "u64 \<times> u32 \<times> u64"

definition set_range :: "tree_key \<Rightarrow> tree_key \<Rightarrow> search_args \<Rightarrow> search_args" where
  "set_range lo hi args =
     args\<lparr>sa_key := (sa_key args)
       \<lparr>sk_min_objectid := fst lo, sk_min_type := fst (snd lo), sk_min_offset := snd (snd lo),
        sk_max_objectid := fst hi, sk_max_type := fst (snd hi), sk_max_offset := snd (snd hi)\<rparr>\<rparr>"

definition set_tree :: "u64 \<Rightarrow> search_args \<Rightarrow> search_args" where
  "set_tree tree_id args = args\<lparr>sa_key := (sa_key args)\<lparr>sk_tree_id := tree_id\<rparr>\<rparr>"

text \<open>\<open>boxed_zeroed\<close>, then \<open>SearchArgs::new\<close>.\<close>

definition zeroed_args :: search_args where
  "zeroed_args =
     \<lparr>sa_key = \<lparr>sk_tree_id = 0, sk_min_objectid = 0, sk_max_objectid = 0, sk_min_offset = 0,
        sk_max_offset = 0, sk_min_transid = 0, sk_max_transid = 0, sk_min_type = 0, sk_max_type = 0,
        sk_nr_items = 0\<rparr>,
      sa_buf_size = 0, sa_buf = replicate BUF_SIZE 0\<rparr>"

definition SearchArgs_new :: "u64 \<Rightarrow> search_args" where
  "SearchArgs_new tree_id =
     (let args = set_tree tree_id zeroed_args;
          args = args\<lparr>sa_buf_size := of_nat BUF_SIZE\<rparr>;
          args = set_range (0, 0, 0) (- 1, - 1, - 1) args
      in args\<lparr>sa_key := (sa_key args)\<lparr>sk_max_transid := - 1\<rparr>\<rparr>)"

text \<open>Computations that have a search buffer in hand besides the handle's state.\<close>

type_synonym ('w, 'a) args_io = "(search_args \<times> 'w sys, io_error, 'a) comp"

text \<open>\<open>SearchArgs::search\<close>. The kernel writes its answer over the front of the buffer; what lies
  behind it stays as it was.\<close>

definition search :: "('w, 'f) kernel \<Rightarrow> ('w, unit) args_io" where
  "search K = (\<lambda>(args, s).
     let args = args\<lparr>sa_key := (sa_key args)\<lparr>sk_nr_items := - 1\<rparr>\<rparr>
     in case sys_call (k_search K (sa_key args) (sa_buf_size args)) s of
          (Inl q, s') \<Rightarrow> (Inl q, (args, s'))
        | (Inr (nr, bytes), s') \<Rightarrow>
            (Inr (), (args\<lparr>sa_key := (sa_key args)\<lparr>sk_nr_items := nr\<rparr>,
                           sa_buf := take (length (sa_buf args)) bytes @ drop (length bytes) (sa_buf args)\<rparr>, s')))"

text \<open>The callback gets a header and the item's bytes, and updates what it has captured.\<close>

type_synonym 'b each = "search_header \<Rightarrow> u8 list \<Rightarrow> 'b \<Rightarrow> io_error + 'b"

fun items_loop ::
  "'z abi_scheme \<Rightarrow> u8 list \<Rightarrow> 'b each \<Rightarrow> nat \<Rightarrow> nat \<Rightarrow> search_header option \<Rightarrow> 'b
     \<Rightarrow> io_error + search_header option \<times> nat \<times> 'b"
where
  "items_loop A buf each 0 pos lst b = Inr (lst, pos, b)"
| "items_loop A buf each (Suc n) pos lst b =
     (case read_struct (header_layout A) buf pos of
        None \<Rightarrow> Inl (other_error ''search claimed more items than its buffer holds'')
      | Some header \<Rightarrow>
          (let start = pos + l_size (header_layout A); fin = start + unat (sh_len header)
           in if length buf < fin then Inl (other_error ''search item runs past its buffer'')
              else (case each header (take (fin - start) (drop start buf)) b of
                      Inl e \<Rightarrow> Inl e
                    | Inr b' \<Rightarrow> items_loop A buf each n fin (Some header) b')))"

definition items ::
  "'z abi_scheme \<Rightarrow> search_args \<Rightarrow> 'b each \<Rightarrow> 'b \<Rightarrow> io_error + search_header option \<times> bool \<times> 'b"
where
  "items A args each b =
     (case items_loop A (sa_buf args) each (unat (sk_nr_items (sa_key args))) 0 None b of
        Inl e \<Rightarrow> Inl e
      | Inr (lst, pos, b') \<Rightarrow>
          Inr (lst, l_size (header_layout A) + MAX_ITEM_SIZE \<le> BUF_SIZE - pos, b'))"

text \<open>The end of \<open>search_all\<close>'s loop body: the key to carry on from, or \<open>None\<close> after the very last.\<close>

definition next_key :: "search_header \<Rightarrow> search_key \<Rightarrow> search_key option" where
  "next_key lst key =
     (let key = key\<lparr>sk_min_objectid := sh_objectid lst, sk_min_type := sh_type lst\<rparr>
      in if sh_offset lst < - 1 then Some (key\<lparr>sk_min_offset := sh_offset lst + 1\<rparr>)
         else if sh_type lst < 255 then Some (key\<lparr>sk_min_type := sh_type lst + 1, sk_min_offset := 0\<rparr>)
         else if sh_objectid lst < - 1 then
           Some (key\<lparr>sk_min_objectid := sh_objectid lst + 1, sk_min_type := 0, sk_min_offset := 0\<rparr>)
         else None)"

fun search_all_loop :: "('w, 'f) kernel \<Rightarrow> 'b each \<Rightarrow> nat \<Rightarrow> 'b \<Rightarrow> ('w, 'b) args_io" where
  "search_all_loop K each 0 b = stop NoReturn"
| "search_all_loop K each (Suc n) b =
     bindE (search K) (\<lambda>_.
     bindE getS (\<lambda>(args, _).
       case items K args each b of
         Inl e \<Rightarrow> raise e
       | Inr (lst, complete, b) \<Rightarrow>
           (case lst of
              None \<Rightarrow> ret b
            | Some lst \<Rightarrow>
                if complete then ret b
                else (case next_key lst (sa_key args) of
                        None \<Rightarrow> ret b
                      | Some key \<Rightarrow>
                          bindE (modifyS (apfst (\<lambda>a. a\<lparr>sa_key := key\<rparr>))) (\<lambda>_.
                          search_all_loop K each n b)))))"

definition search_all :: "('w, 'f) kernel \<Rightarrow> 'b each \<Rightarrow> 'b \<Rightarrow> ('w, 'b) args_io" where
  "search_all K each b = search_all_loop K each (rounds K) b"

text \<open>\<open>Filesystem::searchargs\<close> and the guard's \<open>drop\<close>: a buffer is taken from the pool, or made,
  and goes back whichever way the computation that has it ends.\<close>

definition take_searchargs :: "'w sys \<Rightarrow> search_args \<times> 'w sys" where
  "take_searchargs s =
     (case searchargs_pool s of
        [] \<Rightarrow> (SearchArgs_new 0, s)
      | pool \<Rightarrow> (last pool, s\<lparr>searchargs_pool := butlast pool\<rparr>))"

definition drop_searchargs :: "search_args \<Rightarrow> 'w sys \<Rightarrow> 'w sys" where
  "drop_searchargs args s = s\<lparr>searchargs_pool := searchargs_pool s @ [args]\<rparr>"

definition with_searchargs :: "('w, 'a) args_io \<Rightarrow> ('w, 'a) io" where
  "with_searchargs m s =
     (case m (take_searchargs s) of (r, (args, s')) \<Rightarrow> (r, drop_searchargs args s'))"

section \<open>The pool\<close>

text \<open>What every buffer of the pool has in common with a new one: everything a search does not
  set itself.\<close>

definition args_ok :: "search_args \<Rightarrow> bool" where
  "args_ok args \<longleftrightarrow>
     sk_min_transid (sa_key args) = 0 \<and> sk_max_transid (sa_key args) = - 1 \<and>
     sa_buf_size args = of_nat BUF_SIZE \<and> length (sa_buf args) = BUF_SIZE"

definition pool_ok :: "'w sys \<Rightarrow> bool" where
  "pool_ok s \<longleftrightarrow> (\<forall>args \<in> set (searchargs_pool s). args_ok args)"

interpretation pool: own_state pool_ok
  by unfold_locales (simp add: pool_ok_def)

lemma args_ok_new: "args_ok (SearchArgs_new tree_id)"
  by (simp add: args_ok_def SearchArgs_new_def Let_def set_tree_def set_range_def zeroed_args_def)

lemma args_ok_setters [simp]:
  "args_ok (set_tree t args) = args_ok args" "args_ok (set_range lo hi args) = args_ok args"
  by (simp_all add: args_ok_def set_tree_def set_range_def)

lemma args_ok_nr [simp]: "args_ok (args\<lparr>sa_key := (sa_key args)\<lparr>sk_nr_items := n\<rparr>\<rparr>) = args_ok args"
  by (simp add: args_ok_def)

lemma args_ok_next_key: "args_ok args \<Longrightarrow> next_key h (sa_key args) = Some key \<Longrightarrow> args_ok (args\<lparr>sa_key := key\<rparr>)"
  by (auto simp: args_ok_def next_key_def Let_def split: if_splits)

lemma args_ok_answer: "args_ok args \<Longrightarrow> args_ok (args\<lparr>sa_key := (sa_key args)\<lparr>sk_nr_items := n\<rparr>,
    sa_buf := take (length (sa_buf args)) bytes @ drop (length bytes) (sa_buf args)\<rparr>)"
  by (auto simp: args_ok_def)

abbreviation loan_ok :: "search_args \<times> 'w sys \<Rightarrow> bool" where
  "loan_ok as \<equiv> args_ok (fst as) \<and> pool_ok (snd as)"

lemma preserves_search [preserve]: "preserves loan_ok (search K)"
proof -
  have "loan_ok (snd (search K (args, s)))" if "args_ok args" "pool_ok s" for args s
  proof -
    let ?args = "args\<lparr>sa_key := (sa_key args)\<lparr>sk_nr_items := - 1\<rparr>\<rparr>"
    have "args_ok ?args" using that by simp
    moreover have "pool_ok (snd (sys_call (k_search K (sa_key ?args) (sa_buf_size ?args)) s))"
      by (rule preservesD [OF pool.preserves_sys_call that(2)])
    ultimately show ?thesis
      using args_ok_answer [of ?args]
      by (auto simp: search_def Let_def split: prod.splits sum.splits)
  qed
  then show ?thesis by (simp add: preserves_def)
qed

lemma preserves_search_all_loop: "preserves loan_ok (search_all_loop K each n b)"
proof (induction n arbitrary: b)
  case 0
  then show ?case by (simp add: preserve)
next
  case (Suc n)
  have step: "preserves loan_ok (\<lambda>as. (case next_key lst (sa_key (fst as)) of
                None \<Rightarrow> ret b
              | Some key \<Rightarrow> bindE (modifyS (apfst (\<lambda>a. a\<lparr>sa_key := key\<rparr>))) (\<lambda>_.
                  search_all_loop K each n b)) as)" for lst b
    using Suc.IH [of b] args_ok_next_key
    by (auto simp: preserves_def bindE_def modifyS_def ret_def split: option.splits)
  show ?case
    unfolding search_all_loop.simps
  proof (rule preserves_bindE [OF preserves_search])
    fix u :: unit
    show "preserves loan_ok (bindE getS (\<lambda>(args, _).
       case items K args each b of
         Inl e \<Rightarrow> raise e
       | Inr (lst, complete, b) \<Rightarrow>
           (case lst of
              None \<Rightarrow> ret b
            | Some lst \<Rightarrow>
                if complete then ret b
                else (case next_key lst (sa_key args) of
                        None \<Rightarrow> ret b
                      | Some key \<Rightarrow>
                          bindE (modifyS (apfst (\<lambda>a. a\<lparr>sa_key := key\<rparr>))) (\<lambda>_.
                          search_all_loop K each n b)))))"
      using step
      by (auto simp: preserves_def bindE_def getS_def ret_def stop_def split: sum.splits option.splits)
  qed
qed

lemma preserves_search_all [preserve]: "preserves loan_ok (search_all K each b)"
  by (simp add: search_all_def preserves_search_all_loop)

lemma take_searchargs_ok: "pool_ok s \<Longrightarrow> loan_ok (take_searchargs s)"
  by (cases "searchargs_pool s")
     (auto simp: take_searchargs_def pool_ok_def args_ok_new dest: in_set_butlastD)

lemma preserves_with_searchargs [preserve]:
  assumes "preserves loan_ok m"
  shows "preserves pool_ok (with_searchargs m)"
  unfolding preserves_def
proof (intro allI impI)
  fix s :: "'a sys" assume "pool_ok s"
  then have "loan_ok (snd (m (take_searchargs s)))"
    by (rule preservesD [OF assms take_searchargs_ok])
  then show "pool_ok (snd (with_searchargs m s))"
    by (auto simp: with_searchargs_def drop_searchargs_def pool_ok_def split: prod.splits)
qed

text \<open>Nothing of a search panics: where the source slices the buffer, it has checked the bounds.\<close>

lemma calm_search [calm_intros]: "calm (search K)"
  by (auto simp: calm_def search_def Let_def sys_call_def split: prod.splits sum.splits)

lemma calm_search_all [calm_intros]: "calm (search_all K each b)"
proof -
  have "calm (search_all_loop K each n b)" for n
    by (induction n arbitrary: b) (auto intro!: calm_intros)
  then show ?thesis by (simp add: search_all_def)
qed

lemma calm_with_searchargs [calm_intros]: "calm m \<Longrightarrow> calm (with_searchargs m)"
  by (rule calmI) (auto simp: with_searchargs_def split: prod.splits dest: calmD)

section \<open>Reading the answer\<close>

text \<open>An item of a tree: its header and its bytes. \<open>encodes A bs its\<close>: the bytes are those items
  one after the other, as the kernel lays them out.\<close>

type_synonym item = "search_header \<times> u8 list"

definition item_key :: "item \<Rightarrow> tree_key" where
  "item_key i = (sh_objectid (fst i), sh_type (fst i), sh_offset (fst i))"

fun encodes :: "'z abi_scheme \<Rightarrow> u8 list \<Rightarrow> item list \<Rightarrow> bool" where
  "encodes A bs [] \<longleftrightarrow> bs = []"
| "encodes A bs ((h, d) # its) \<longleftrightarrow>
     (let n = l_size (header_layout A)
      in n + length d \<le> length bs \<and> l_decode (header_layout A) (take n bs) = h \<and>
         take (length d) (drop n bs) = d \<and> unat (sh_len h) = length d \<and>
         encodes A (drop (n + length d) bs) its)"

text \<open>What the callback makes of a list of items.\<close>

fun each_item :: "'b each \<Rightarrow> item list \<Rightarrow> 'b \<Rightarrow> io_error + 'b" where
  "each_item each [] b = Inr b"
| "each_item each ((h, d) # its) b =
     (case each h d b of Inl e \<Rightarrow> Inl e | Inr b' \<Rightarrow> each_item each its b')"

lemma each_item_append:
  "each_item each (its @ its') b =
     (case each_item each its b of Inl e \<Rightarrow> Inl e | Inr b' \<Rightarrow> each_item each its' b')"
  by (induction each its b rule: each_item.induct) (auto split: sum.splits)

lemma items_loop_decodes:
  assumes "encodes A (take n (drop pos buf)) its" and "pos + n \<le> length buf" and "length buf < 2 ^ 64"
  shows "items_loop A buf each (length its) pos lst b =
     (case each_item each its b of
        Inl e \<Rightarrow> Inl e
      | Inr b' \<Rightarrow> Inr (if its = [] then lst else Some (fst (List.last its)), pos + n, b'))"
  using assms
proof (induction its arbitrary: n pos lst b)
  case Nil
  then show ?case by (cases "n = 0") (auto simp: take_eq_Nil)
next
  case (Cons i its)
  obtain h d where i: "i = (h, d)" by (cases i)
  let ?H = "l_size (header_layout A)" and ?bs = "take n (drop pos buf)"
  have len: "length ?bs = n" using Cons.prems(2) by simp
  from Cons.prems(1) i len have
      fit: "?H + length d \<le> n" and h: "l_decode (header_layout A) (take ?H ?bs) = h"
    and d: "take (length d) (drop ?H ?bs) = d" and l: "unat (sh_len h) = length d"
    and rest: "encodes A (drop (?H + length d) ?bs) its"
    by (auto simp: Let_def)
  have hd: "read_struct (header_layout A) buf pos = Some h"
    using h fit Cons.prems(2,3) by (simp add: read_struct_def Let_def min_absorb1)
  have body: "take (length d) (drop (pos + ?H) buf) = d"
    using d fit by (simp add: drop_take min_absorb1 add.commute)
  from fit obtain n' where n: "n = ?H + length d + n'" by (auto simp: le_iff_add)
  have "drop (?H + length d) ?bs = take n' (drop (pos + ?H + length d) buf)"
    by (simp add: n drop_take add.commute add.left_commute)
  with rest have enc: "encodes A (take n' (drop (pos + ?H + length d) buf)) its" by simp
  have bound: "pos + ?H + length d + n' \<le> length buf" using Cons.prems(2) n by simp
  have stop: "pos + ?H + length d + n' = pos + n" by (simp add: n)
  have last: "n' = 0" if "its = []" using that enc bound by auto
  note IH = Cons.IH [OF enc bound Cons.prems(3), unfolded stop]
  show ?case
    using fit Cons.prems(2) n last by (simp add: i hd l body IH Let_def split: sum.splits)
qed

section \<open>The next key\<close>

definition min_key :: "search_key \<Rightarrow> tree_key" where
  "min_key k = (sk_min_objectid k, sk_min_type k, sk_min_offset k)"

definition max_key :: "search_key \<Rightarrow> tree_key" where
  "max_key k = (sk_max_objectid k, sk_max_type k, sk_max_offset k)"

definition header_key :: "search_header \<Rightarrow> tree_key" where
  "header_key h = (sh_objectid h, sh_type h, sh_offset h)"

lemma word_succ_le_iff: "a < - 1 \<Longrightarrow> a + 1 \<le> b \<longleftrightarrow> a < b" for a b :: "'a::len word"
  by (auto simp: inc_less_eq_iff)

lemma tree_key_le: "(a, t, c) \<le> (a', t', c') \<longleftrightarrow> a < a' \<or> a = a' \<and> (t < t' \<or> t = t' \<and> c \<le> c')"
  and tree_key_less: "(a, t, c) < (a', t', c') \<longleftrightarrow> a < a' \<or> a = a' \<and> (t < t' \<or> t = t' \<and> c < c')"
  for a a' c c' :: u64 and t t' :: u32
  by (auto simp: less_eq_prod_def less_prod_def)

lemma next_key_succ:
  assumes "sh_type h \<le> 255" and "fst (snd k) \<le> 255"
  shows "case next_key h key of
           Some key' \<Rightarrow> (min_key key' \<le> k \<longleftrightarrow> header_key h < k) \<and> max_key key' = max_key key
             \<and> sk_tree_id key' = sk_tree_id key \<and> sk_max_transid key' = sk_max_transid key
         | None \<Rightarrow> \<not> header_key h < k"
proof -
  obtain a t c where k: "k = (a, t, c)" by (cases k)
  have top: "x < - 1 \<or> x = - 1" for x :: u64
    using word_order.not_eq_extremum by blast
  note order = tree_key_le tree_key_less word_succ_le_iff word_succ_le_iff [unfolded le_less]
  consider "sh_offset h < - 1" | "sh_offset h = - 1" "sh_type h < 255"
    | "sh_offset h = - 1" "sh_type h = 255" "sh_objectid h < - 1"
    | "sh_offset h = - 1" "sh_type h = 255" "sh_objectid h = - 1"
    using top assms(1) by (metis order_le_less)
  then show ?thesis
  proof cases
    case 2
    then have "sh_type h < - 1" by (auto intro: less_trans)
    then have "sh_type h + 1 \<le> t \<longleftrightarrow> sh_type h < t" by (rule word_succ_le_iff)
    with 2 show ?thesis
      by (auto simp: next_key_def Let_def min_key_def max_key_def header_key_def k tree_key_le
          tree_key_less le_less word_neq_0_conv)
  next
    case 3
    then have "sh_objectid h + 1 \<le> a \<longleftrightarrow> sh_objectid h < a" by (intro word_succ_le_iff)
    with 3 assms(2) show ?thesis
      by (auto simp: next_key_def Let_def min_key_def max_key_def header_key_def k tree_key_le
          tree_key_less le_less word_neq_0_conv not_less)
  qed (use assms(2) in \<open>auto simp: next_key_def Let_def min_key_def max_key_def header_key_def k order not_less\<close>)
qed

text \<open>
  The key a search carries on from is the immediate successor of the last key returned, among
  the keys a tree can hold (whose type is a byte): no item is read twice and none is skipped. There
  is no such key only after the very last one. The rest of the search stays as it was.
\<close>

lemma next_key_is_successor:
  assumes "sh_type h \<le> 255" and "fst (snd k) \<le> 255"
  shows "case next_key h key of
           Some key' \<Rightarrow> (min_key key' \<le> k \<longleftrightarrow> header_key h < k) \<and> max_key key' = max_key key
             \<and> sk_tree_id key' = sk_tree_id key \<and> sk_max_transid key' = sk_max_transid key
         | None \<Rightarrow> \<not> header_key h < k"
  by (rule next_key_succ [OF assms])

section \<open>Searches read their range to its end\<close>

definition in_range :: "search_key \<Rightarrow> item \<Rightarrow> bool" where
  "in_range key i \<longleftrightarrow> min_key key \<le> item_key i \<and> item_key i \<le> max_key key"

definition matching :: "(u64 \<Rightarrow> item list) \<Rightarrow> search_key \<Rightarrow> item list" where
  "matching tree key = filter (in_range key) (tree (sk_tree_id key))"

lemma matching_nr_items [simp]: "matching tree (key\<lparr>sk_nr_items := n\<rparr>) = matching tree key"
proof -
  have "in_range (key\<lparr>sk_nr_items := n\<rparr>) = in_range key"
    by (rule ext) (simp add: in_range_def min_key_def max_key_def)
  then show ?thesis by (simp add: matching_def)
qed

text \<open>A tree holds its items in strict key order; types are bytes and items are bounded.\<close>

definition tree_ok :: "item list \<Rightarrow> bool" where
  "tree_ok its \<longleftrightarrow>
     sorted_wrt (<) (map item_key its) \<and>
     (\<forall>i \<in> set its. sh_type (fst i) \<le> 255 \<and> length (snd i) \<le> MAX_ITEM_SIZE)"

text \<open>What the search ioctl documents: it answers with the first items of the range, laid out one
  after the other, and stops short of the last only where the next one does not fit.\<close>

definition answers :: "'z abi_scheme \<Rightarrow> item list \<Rightarrow> u32 \<Rightarrow> u8 list \<Rightarrow> bool" where
  "answers A its nr bytes \<longleftrightarrow>
     (\<exists>got rest. its = got @ rest \<and> unat nr = length got \<and> encodes A bytes got \<and>
        length bytes \<le> BUF_SIZE \<and>
        (rest \<noteq> [] \<longrightarrow> got \<noteq> [] \<and>
           BUF_SIZE < length bytes + l_size (header_layout A) + length (snd (hd rest))))"

definition serves :: "('w, 'f) kernel \<Rightarrow> (u64 \<Rightarrow> item list) \<Rightarrow> 'w \<Rightarrow> bool" where
  "serves K tree w \<longleftrightarrow>
     (\<forall>key. sk_min_transid key = 0 \<and> sk_max_transid key = - 1 \<and> sk_nr_items key = - 1 \<longrightarrow>
        (\<exists>nr bytes. k_search K key (of_nat BUF_SIZE) w = (Inr (nr, bytes), w) \<and>
                    answers K (matching tree key) nr bytes))"

lemma item_key_header: "item_key i = header_key (fst i)"
  by (simp add: item_key_def header_key_def)

lemma matching_sorted: "tree_ok (tree (sk_tree_id key)) \<Longrightarrow> tree_ok (matching tree key)"
  by (auto simp: tree_ok_def matching_def sorted_wrt_map sorted_wrt_filter)

lemma filter_after_last:
  assumes "sorted_wrt (<) (map item_key (got @ rest))" and "got \<noteq> []"
  shows "filter (\<lambda>i. item_key (last got) < item_key i) (got @ rest) = rest"
proof -
  from assms(2) obtain init l where got: "got = init @ [l]" by (cases got rule: rev_cases) auto
  then show ?thesis
    using assms(1) by (auto simp: sorted_wrt_append filter_empty_conv intro!: filter_True dest: less_asym)
qed

lemma matching_next:
  assumes "tree_ok (tree (sk_tree_id key))" and m: "matching tree key = got @ rest" and "got \<noteq> []"
  shows "next_key (fst (last got)) key = Some key' \<Longrightarrow> matching tree key' = rest"
    and "next_key (fst (last got)) key = None \<Longrightarrow> rest = []"
proof -
  let ?h = "fst (last got)" and ?its = "tree (sk_tree_id key)"
  have sorted: "tree_ok (got @ rest)" using matching_sorted [of tree key, OF assms(1)] m by simp
  have "last got \<in> set (matching tree key)" using m assms(3) by simp
  then have lst: "sh_type ?h \<le> 255" "min_key key \<le> header_key ?h"
    using assms(1) by (auto simp: matching_def tree_ok_def in_range_def item_key_header)
  have types: "fst (snd (item_key i)) \<le> 255" if "i \<in> set ?its" for i
    using assms(1) that by (simp add: tree_ok_def item_key_def)
  have rest: "filter (\<lambda>i. header_key ?h < item_key i) (matching tree key) = rest"
    using filter_after_last [of got rest] sorted assms(3) m by (simp add: tree_ok_def item_key_header)
  {
    assume "next_key ?h key = Some key'"
    then have key': "min_key key' \<le> item_key i \<longleftrightarrow> header_key ?h < item_key i"
      "max_key key' = max_key key" "sk_tree_id key' = sk_tree_id key" if "i \<in> set ?its" for i
      using next_key_succ [OF lst(1) types [OF that], of key] by simp_all
    have "in_range key' i \<longleftrightarrow> in_range key i \<and> header_key ?h < item_key i" if "i \<in> set ?its" for i
      using key' [OF that] lst(2) by (auto simp: in_range_def)
    moreover have "sk_tree_id key' = sk_tree_id key"
      using \<open>next_key ?h key = Some key'\<close> by (auto simp: next_key_def Let_def split: if_splits)
    ultimately have "matching tree key' = filter (\<lambda>i. header_key ?h < item_key i) (matching tree key)"
      by (auto simp: matching_def intro: filter_cong)
    then show "matching tree key' = rest" by (simp only: rest)
  }
  assume "next_key ?h key = None"
  then have "\<not> header_key ?h < item_key i" if "i \<in> set ?its" for i
    using next_key_succ [OF lst(1) types [OF that], of key] by simp
  then show "rest = []" using rest by (auto simp: matching_def filter_empty_conv)
qed

lemma items_decodes:
  assumes "answers A its nr bytes" and "sk_nr_items (sa_key args) = nr"
    and "sa_buf args = bytes @ stale" and "length (sa_buf args) = BUF_SIZE"
  obtains got rest where "its = got @ rest"
    and "items A args each b =
          (case each_item each got b of
             Inl e \<Rightarrow> Inl e
           | Inr b' \<Rightarrow> Inr (if got = [] then None else Some (fst (last got)),
                           l_size (header_layout A) + MAX_ITEM_SIZE \<le> BUF_SIZE - length bytes, b'))"
    and "rest \<noteq> [] \<Longrightarrow> got \<noteq> []"
    and "rest \<noteq> [] \<Longrightarrow> BUF_SIZE < length bytes + l_size (header_layout A) + length (snd (hd rest))"
proof -
  from assms(1) obtain got rest where gr: "its = got @ rest" "unat nr = length got" "encodes A bytes got"
    "length bytes \<le> BUF_SIZE" "rest \<noteq> [] \<Longrightarrow> got \<noteq> []"
    "rest \<noteq> [] \<Longrightarrow> BUF_SIZE < length bytes + l_size (header_layout A) + length (snd (hd rest))"
    by (auto simp: answers_def)
  have "items_loop A (sa_buf args) each (length got) 0 None b =
     (case each_item each got b of
        Inl e \<Rightarrow> Inl e
      | Inr b' \<Rightarrow> Inr (if got = [] then None else Some (fst (last got)), 0 + length bytes, b'))"
    by (rule items_loop_decodes) (use assms(3,4) gr(3,4) in \<open>simp_all add: BUF_SIZE_def\<close>)
  then have "items A args each b =
          (case each_item each got b of
             Inl e \<Rightarrow> Inl e
           | Inr b' \<Rightarrow> Inr (if got = [] then None else Some (fst (last got)),
                           l_size (header_layout A) + MAX_ITEM_SIZE \<le> BUF_SIZE - length bytes, b'))"
    by (simp add: items_def assms(2) gr(2) split: sum.splits)
  with gr show thesis using that by blast
qed

lemma search_answers:
  assumes "serves K tree (world s)" and "args_ok args"
  obtains nr bytes stale where
    "search K (args, s) =
       (Inr (), (args\<lparr>sa_key := (sa_key args)\<lparr>sk_nr_items := nr\<rparr>, sa_buf := bytes @ stale\<rparr>, s))"
    and "answers K (matching tree (sa_key args)) nr bytes"
    and "length (bytes @ stale) = BUF_SIZE"
proof -
  let ?key = "(sa_key args)\<lparr>sk_nr_items := - 1\<rparr>"
  have "\<exists>nr bytes. k_search K ?key (of_nat BUF_SIZE) (world s) = (Inr (nr, bytes), world s) \<and>
          answers K (matching tree ?key) nr bytes"
    using assms by (simp add: serves_def args_ok_def del: matching_nr_items)
  then obtain nr bytes where call: "k_search K ?key (of_nat BUF_SIZE) (world s) = (Inr (nr, bytes), world s)"
    and ans: "answers K (matching tree (sa_key args)) nr bytes"
    by auto
  have fits: "length bytes \<le> BUF_SIZE" using ans by (auto simp: answers_def)
  have "search K (args, s) =
      (Inr (), (args\<lparr>sa_key := (sa_key args)\<lparr>sk_nr_items := nr\<rparr>,
                     sa_buf := bytes @ drop (length bytes) (sa_buf args)\<rparr>, s))"
    using assms(2) call fits by (simp add: search_def sys_call_def args_ok_def)
  with ans fits assms(2) show thesis
    by (intro that) (auto simp: args_ok_def)
qed

definition lift_result :: "io_error + 'b \<Rightarrow> io_error stop + 'b" where
  "lift_result r = (case r of Inl e \<Rightarrow> Inl (Raise e) | Inr b \<Rightarrow> Inr b)"

lemma search_all_loop_exact:
  assumes "serves K tree (world s)" and "args_ok args" and "tree_ok (tree (sk_tree_id (sa_key args)))"
    and "length (matching tree (sa_key args)) < n"
  shows "\<exists>args'. search_all_loop K each n b (args, s) =
           (lift_result (each_item each (matching tree (sa_key args)) b), (args', s))"
  using assms(2-)
proof (induction n arbitrary: args b)
  case 0
  then show ?case by simp
next
  case (Suc n)
  obtain nr bytes stale where
    search: "search K (args, s) =
       (Inr (), (args\<lparr>sa_key := (sa_key args)\<lparr>sk_nr_items := nr\<rparr>, sa_buf := bytes @ stale\<rparr>, s))"
    and ans: "answers K (matching tree (sa_key args)) nr bytes"
    and len: "length (bytes @ stale) = BUF_SIZE"
    by (rule search_answers [OF assms(1) Suc.prems(1)])
  let ?args = "args\<lparr>sa_key := (sa_key args)\<lparr>sk_nr_items := nr\<rparr>, sa_buf := bytes @ stale\<rparr>"
  have ok: "args_ok ?args" using Suc.prems(1) len by (simp add: args_ok_def)
  obtain got rest where m: "matching tree (sa_key args) = got @ rest"
    and its: "items K ?args each b =
          (case each_item each got b of
             Inl e \<Rightarrow> Inl e
           | Inr b' \<Rightarrow> Inr (if got = [] then None else Some (fst (last got)),
                           l_size (header_layout K) + MAX_ITEM_SIZE \<le> BUF_SIZE - length bytes, b'))"
    and some: "rest \<noteq> [] \<Longrightarrow> got \<noteq> []"
    and full: "rest \<noteq> [] \<Longrightarrow> BUF_SIZE < length bytes + l_size (header_layout K) + length (snd (hd rest))"
    using items_decodes [OF ans, of ?args stale each b] len by auto
  have tree: "tree_ok (tree (sk_tree_id (sa_key ?args)))" using Suc.prems(2) by simp
  have small: "length (snd (hd rest)) \<le> MAX_ITEM_SIZE" if "rest \<noteq> []"
  proof -
    have "hd rest \<in> set (matching tree (sa_key args))" using m that by simp
    then show ?thesis using Suc.prems(2) by (auto simp: matching_def tree_ok_def)
  qed
  show ?case
  proof (cases "each_item each got b")
    case (Inl e)
    then show ?thesis
      by (simp add: search bindE_def getS_def its m each_item_append lift_result_def stop_def)
  next
    case (Inr b')
    note step = search bindE_def getS_def its m each_item_append lift_result_def ret_def Inr
    have finished: ?thesis if "rest = []" "\<And>key. got \<noteq> [] \<Longrightarrow>
        \<not> l_size (header_layout K) + MAX_ITEM_SIZE \<le> BUF_SIZE - length bytes \<Longrightarrow>
        next_key (fst (last got)) (sa_key ?args) \<noteq> Some key"
      using that by (cases "next_key (fst (last got)) (sa_key ?args)") (auto simp: step)
    show ?thesis
    proof (cases "got \<noteq> [] \<and> \<not> l_size (header_layout K) + MAX_ITEM_SIZE \<le> BUF_SIZE - length bytes")
      case False
      have "rest = []"
      proof (rule ccontr)
        assume ne: "rest \<noteq> []"
        with some False have "l_size (header_layout K) + MAX_ITEM_SIZE \<le> BUF_SIZE - length bytes" by simp
        with full [OF ne] small [OF ne] show False by (simp add: MAX_ITEM_SIZE_def)
      qed
      with False show ?thesis by (intro finished) simp_all
    next
      case True
      show ?thesis
      proof (cases "next_key (fst (last got)) (sa_key ?args)")
        case None
        then have "rest = []"
          using matching_next(2) [of tree "sa_key ?args" got rest] tree m True by simp
        with None show ?thesis by (intro finished) simp_all
      next
        case (Some key)
        then have next_range: "matching tree key = rest"
          using matching_next(1) [of tree "sa_key ?args" got rest] tree m True by simp
        have same_tree: "sk_tree_id key = sk_tree_id (sa_key args)"
          using Some by (auto simp: next_key_def Let_def split: if_splits)
        have "args_ok (?args\<lparr>sa_key := key\<rparr>)"
          using ok Some by (rule args_ok_next_key)
        with Suc.IH [of "?args\<lparr>sa_key := key\<rparr>" b'] next_range same_tree Suc.prems(2,3) m True
        obtain args' where "search_all_loop K each n b' (?args\<lparr>sa_key := key\<rparr>, s) =
            (lift_result (each_item each rest b'), (args', s))"
          by (cases got) auto
        with True Some show ?thesis by (auto simp: step modifyS_def)
      qed
    qed
  qed
qed

text \<open>
  C15: A search over a key range gives the callback exactly the items of the tree in that range, in
  key order and each once, however many calls to the kernel it takes, and ends: more rounds than
  items are always enough. The kernel has to answer a search as the ioctl documents, with the first
  items of the range and stopping short only where the next one does not fit.
\<close>

theorem search_all_exact:
  assumes "serves K tree (world s)" and "args_ok args" and "tree_ok (tree (sk_tree_id (sa_key args)))"
    and "length (matching tree (sa_key args)) < rounds K"
  shows "\<exists>args'. search_all K each b (args, s) =
           (lift_result (each_item each (matching tree (sa_key args)) b), (args', s))"
  unfolding search_all_def by (rule search_all_loop_exact [OF assms])

text \<open>A kernel that serves one tree of one item, for the witnesses.\<close>

definition one_header :: search_header where
  "one_header = \<lparr>sh_transid = 7, sh_objectid = 5, sh_offset = 0, sh_type = 132, sh_len = 0\<rparr>"

definition one_item_bytes :: "u8 list" where
  "one_item_bytes = [7,0,0,0,0,0,0,0, 5,0,0,0,0,0,0,0, 0,0,0,0,0,0,0,0, 132,0,0,0, 0,0,0,0]"

definition one_tree :: "u64 \<Rightarrow> item list" where
  "one_tree t = (if t = 1 then [(one_header, [])] else [])"

definition one_item_kernel :: "('w, 'f) kernel" where
  "one_item_kernel = sample_kernel\<lparr>k_search := (\<lambda>key _ w.
     if matching one_tree key = [] then (Inr (0, []), w) else (Inr (1, one_item_bytes), w))\<rparr>"

lemma one_item_kernel_serves: "serves one_item_kernel one_tree w"
proof -
  have "answers one_item_kernel [(one_header, [])] 1 one_item_bytes"
    unfolding answers_def
    by (rule exI [of _ "[(one_header, [])]"], rule exI [of _ "[]"])
       (simp add: one_item_kernel_def sample_kernel_simps header_layout_v2_def one_item_bytes_def
         one_header_def le_field_def BUF_SIZE_def)
  moreover have "answers one_item_kernel [] 0 []"
    by (simp add: answers_def BUF_SIZE_def)
  moreover have "matching one_tree key \<noteq> [] \<Longrightarrow> matching one_tree key = [(one_header, [])]" for key
    by (auto simp: matching_def one_tree_def split: if_splits)
  ultimately show ?thesis
    by (auto simp: serves_def one_item_kernel_def)
qed

definition one_search :: search_args where
  "one_search = set_range (5, 132, 0) (5, 132, - 1) (set_tree 1 (SearchArgs_new 0))"

lemma one_search_matches: "matching one_tree (sa_key one_search) = [(one_header, [])]"
  by (simp add: matching_def one_tree_def one_search_def set_range_def set_tree_def in_range_def
      min_key_def max_key_def item_key_def one_header_def)

lemma one_search_ok: "args_ok one_search"
  by (simp add: one_search_def args_ok_new)

lemma one_tree_ok: "tree_ok (one_tree t)"
  by (simp add: tree_ok_def one_tree_def one_header_def)

lemma one_item_kernel_rounds [simp]: "rounds one_item_kernel = 10"
  by (simp add: one_item_kernel_def sample_kernel_simps)

lemma search_all_exact_witness:
  "\<exists>args'. search_all one_item_kernel (\<lambda>h d hs. Inr (h # hs)) [] (one_search, sample_sys ())
     = (Inr [one_header], (args', sample_sys ()))"
  using search_all_exact [OF one_item_kernel_serves one_search_ok one_tree_ok,
      of "\<lambda>h d hs. Inr (h # hs)" "[]" "sample_sys ()"]
  by (simp add: one_search_matches lift_result_def)

lemma next_key_is_successor_witness:
  "case next_key (one_header\<lparr>sh_offset := - 1\<rparr>) (sa_key one_search) of
     Some key' \<Rightarrow> (min_key key' \<le> (5, 133, 0) \<longleftrightarrow> header_key (one_header\<lparr>sh_offset := - 1\<rparr>) < (5, 133, 0))
       \<and> max_key key' = max_key (sa_key one_search)
       \<and> sk_tree_id key' = sk_tree_id (sa_key one_search)
       \<and> sk_max_transid key' = sk_max_transid (sa_key one_search)
   | None \<Rightarrow> \<not> header_key (one_header\<lparr>sh_offset := - 1\<rparr>) < (5, 133, 0)"
  by (rule next_key_is_successor) (simp_all add: one_header_def)

end
