(* ===== verification/Tally.thy ===== *)
theory Tally
  imports Os
begin

unbundle bit_operations_syntax

text \<open>
  The part of src/kernel.rs that reads the extent tree's account of one extent: \<open>Tally\<close> and the
  data it gathers. The main result is that the account is trusted (\<open>Backrefs::Files\<close>) only when
  every item was understood to its last byte, every reference in them names its file, and the
  references add up to the number the extent item gives; anything else is \<open>Opaque\<close>.
\<close>

section \<open>Data\<close>

text \<open>\<open>ExtentItem\<close>, \<open>RefOffsets\<close>, \<open>DataRef\<close>, \<open>Backrefs\<close>, \<open>Tally\<close>.\<close>

record extent_item =
  x_disk_bytes :: u64
  x_refs :: u64
  x_generation :: u64

datatype ref_offsets = Base u64 | Between u64 u64

record data_ref =
  d_root :: u64
  d_inode :: u64
  d_at :: ref_offsets
  d_count :: u64

datatype backrefs = Files "data_ref list" | Opaque

record tally =
  t_item :: "extent_item option"
  t_counted :: u64
  t_data_refs :: "data_ref list"
  t_opaque :: bool

definition Tally_default :: tally where
  "Tally_default = \<lparr>t_item = None, t_counted = 0, t_data_refs = [], t_opaque = False\<rparr>"

section \<open>Operations\<close>

definition is_extent_key :: "'z abi_scheme \<Rightarrow> u32 \<Rightarrow> bool" where
  "is_extent_key A key_type \<longleftrightarrow> EXTENT_ITEM_KEY A \<le> key_type \<and> key_type \<le> SHARED_DATA_REF_KEY A"

definition data_ref_of :: "btrfs_extent_data_ref \<Rightarrow> data_ref" where
  "data_ref_of r =
     \<lparr>d_root = dr_root r, d_inode = dr_objectid r, d_at = Base (dr_offset r), d_count = ucast (dr_count r)\<rparr>"

definition add_data_ref :: "btrfs_extent_data_ref \<Rightarrow> tally \<Rightarrow> tally" where
  "add_data_ref r t =
     t\<lparr>t_counted := t_counted t + ucast (dr_count r), t_data_refs := t_data_refs t @ [data_ref_of r]\<rparr>"

abbreviation opaque :: "tally \<Rightarrow> tally" where
  "opaque t \<equiv> t\<lparr>t_opaque := True\<rparr>"

text \<open>The loop of \<open>add_inline\<close>. It only breaks with bytes left over, and those make the tally
  opaque.\<close>

function add_inline :: "'z abi_scheme \<Rightarrow> u8 list \<Rightarrow> tally \<Rightarrow> tally" where
  "add_inline A [] t = t"
| "add_inline A (kind # body) t =
     (if ucast kind = EXTENT_DATA_REF_KEY A then
        (case read_struct (data_ref_layout A) body 0 of
           Some r \<Rightarrow>
             (let t = add_data_ref r t; len = l_size (data_ref_layout A)
              in if len \<le> length body then add_inline A (drop len body) t else opaque t)
         | None \<Rightarrow> opaque t)
      else if ucast kind = EXTENT_OWNER_REF_KEY A then
        (if owner_ref_size A \<le> length body then add_inline A (drop (owner_ref_size A) body) t else opaque t)
      else opaque t)"
  by pat_completeness auto
termination
  by (relation "measure (\<lambda>(A, bs, t). length bs)") auto

definition add_item :: "'z abi_scheme \<Rightarrow> u32 \<Rightarrow> u64 \<Rightarrow> u8 list \<Rightarrow> tally \<Rightarrow> tally" where
  "add_item A key_type key_offset item t =
     (if key_type = EXTENT_ITEM_KEY A then
        (case read_struct (extent_item_layout A) item 0 of
           None \<Rightarrow> opaque t
         | Some ext \<Rightarrow>
             (if ei_flags ext AND EXTENT_FLAG_DATA A = 0 then t
              else add_inline A (drop (l_size (extent_item_layout A)) item)
                     (t\<lparr>t_item := Some \<lparr>x_disk_bytes = key_offset, x_refs = ei_refs ext,
                                       x_generation = ei_generation ext\<rparr>\<rparr>)))
      else if key_type = EXTENT_DATA_REF_KEY A then
        (case read_struct (data_ref_layout A) item 0 of
           Some r \<Rightarrow> add_data_ref r t
         | None \<Rightarrow> opaque t)
      else opaque t)"

definition finish :: "tally \<Rightarrow> (extent_item \<times> backrefs) option" where
  "finish t =
     (case t_item t of
        None \<Rightarrow> None
      | Some item \<Rightarrow>
          Some (item, if t_opaque t \<or> t_counted t \<noteq> x_refs item then Opaque else Files (t_data_refs t)))"

section \<open>What the inline references of an item are\<close>

datatype inline_ref = NamesFile btrfs_extent_data_ref | Owner

fun inline_encodes :: "'z abi_scheme \<Rightarrow> u8 list \<Rightarrow> inline_ref list \<Rightarrow> bool" where
  "inline_encodes A bs [] \<longleftrightarrow> bs = []"
| "inline_encodes A bs (NamesFile r # rs) \<longleftrightarrow>
     bs \<noteq> [] \<and> ucast (hd bs) = EXTENT_DATA_REF_KEY A \<and>
     read_struct (data_ref_layout A) (tl bs) 0 = Some r \<and>
     inline_encodes A (drop (l_size (data_ref_layout A)) (tl bs)) rs"
| "inline_encodes A bs (Owner # rs) \<longleftrightarrow>
     bs \<noteq> [] \<and> ucast (hd bs) \<noteq> EXTENT_DATA_REF_KEY A \<and> ucast (hd bs) = EXTENT_OWNER_REF_KEY A \<and>
     owner_ref_size A \<le> length (tl bs) \<and>
     inline_encodes A (drop (owner_ref_size A) (tl bs)) rs"

fun files_named :: "inline_ref list \<Rightarrow> btrfs_extent_data_ref list" where
  "files_named [] = []"
| "files_named (NamesFile r # rs) = r # files_named rs"
| "files_named (Owner # rs) = files_named rs"

definition add_data_refs :: "btrfs_extent_data_ref list \<Rightarrow> tally \<Rightarrow> tally" where
  "add_data_refs rs t =
     t\<lparr>t_counted := t_counted t + sum_list (map (\<lambda>r. ucast (dr_count r)) rs),
       t_data_refs := t_data_refs t @ map data_ref_of rs\<rparr>"

lemma add_data_refs_simps [simp]:
  "add_data_refs [] t = t"
  "add_data_refs rs (add_data_ref r t) = add_data_refs (r # rs) t"
  "add_data_refs rs (add_data_refs rs' t) = add_data_refs (rs' @ rs) t"
  "t_opaque (add_data_refs rs t) = t_opaque t"
  "t_item (add_data_refs rs t) = t_item t"
  "add_data_refs [r] t = add_data_ref r t"
  by (simp_all add: add_data_refs_def add_data_ref_def add.assoc)

lemma add_data_refs_item:
  "add_data_refs rs (t\<lparr>t_item := x\<rparr>) = (add_data_refs rs t)\<lparr>t_item := x\<rparr>"
  by (simp add: add_data_refs_def)

lemma read_struct_size: "read_struct L bs 0 = Some x \<Longrightarrow> l_size L \<le> length bs"
  by (auto simp: read_struct_def Let_def split: if_splits)

lemma t_opaque_add_data_ref [simp]: "t_opaque (add_data_ref r t) = t_opaque t"
  by (simp add: add_data_ref_def)

text \<open>Bytes that are references through and through are read as those references.\<close>

lemma add_inline_decodes:
  "inline_encodes A bs rs \<Longrightarrow> add_inline A bs t = add_data_refs (files_named rs) t"
proof (induction rs arbitrary: bs t)
  case (Cons r rs)
  then show ?case
    by (cases bs; cases r) (auto simp: Let_def dest: read_struct_size)
qed simp

text \<open>Once opaque, opaque; and every other way through the loop leaves something unread.\<close>

lemma opaque_add_inline: "t_opaque t \<Longrightarrow> t_opaque (add_inline A bs t)"
  by (induction A bs t rule: add_inline.induct) (auto simp: Let_def split: option.splits)

lemma add_inline_not_opaque:
  "\<not> t_opaque (add_inline A bs t) \<Longrightarrow> \<exists>rs. inline_encodes A bs rs"
proof (induction A bs t rule: add_inline.induct)
  case (1 A t)
  then show ?case by (auto intro: exI [of _ "[]"])
next
  case (2 A kind body t)
  show ?case
  proof (cases "ucast kind = EXTENT_DATA_REF_KEY A")
    case True
    with "2.prems" obtain r where r: "read_struct (data_ref_layout A) body 0 = Some r"
      by (auto split: option.splits)
    with True "2.prems" "2.IH"(1) [OF True r refl refl] read_struct_size [OF r]
    obtain rs where "inline_encodes A (drop (l_size (data_ref_layout A)) body) rs"
      by (auto simp: Let_def)
    with True r show ?thesis by (intro exI [of _ "NamesFile r # rs"]) simp
  next
    case False
    with "2.prems" "2.IH"(2) obtain rs where "ucast kind = EXTENT_OWNER_REF_KEY A"
      "owner_ref_size A \<le> length body" "inline_encodes A (drop (owner_ref_size A) body) rs"
      by (auto split: if_splits)
    with False show ?thesis by (intro exI [of _ "Owner # rs"]) simp
  qed
qed

text \<open>
  C31: The inline reference parser is exact: it ends without giving up precisely on bytes that are a
  sequence of whole references it knows, up to the very end, and then it has added each of them
  that names a file, once and in order. Anything else makes the tally opaque.
\<close>

theorem add_inline_exact:
  "(\<not> t_opaque (add_inline A bs t) \<longleftrightarrow> \<not> t_opaque t \<and> (\<exists>rs. inline_encodes A bs rs))
   \<and> \<not> (inline_encodes A bs rs \<and> add_inline A bs t \<noteq> add_data_refs (files_named rs) t)"
proof -
  have "t_opaque (add_inline A bs t) = t_opaque t" if "inline_encodes A bs rs" for rs
    using add_inline_decodes [OF that, of t] by simp
  then show ?thesis
    using add_inline_decodes opaque_add_inline add_inline_not_opaque by metis
qed

section \<open>What a whole tally says\<close>

text \<open>The tally of an extent's items, each with its key's type and offset.\<close>

type_synonym extent_tree_item = "u32 \<times> u64 \<times> u8 list"

definition tally_of :: "'z abi_scheme \<Rightarrow> extent_tree_item list \<Rightarrow> tally" where
  "tally_of A its = foldl (\<lambda>t (key_type, key_offset, item). add_item A key_type key_offset item t) Tally_default its"

text \<open>The references one item names, where it is understood in full.\<close>

definition item_names :: "'z abi_scheme \<Rightarrow> extent_tree_item \<Rightarrow> btrfs_extent_data_ref list \<Rightarrow> bool" where
  "item_names A i rs =
     (case i of (key_type, key_offset, item) \<Rightarrow>
        if key_type = EXTENT_ITEM_KEY A then
          (case read_struct (extent_item_layout A) item 0 of
             None \<Rightarrow> False
           | Some ext \<Rightarrow>
               if ei_flags ext AND EXTENT_FLAG_DATA A = 0 then rs = []
               else \<exists>irs. inline_encodes A (drop (l_size (extent_item_layout A)) item) irs \<and> rs = files_named irs)
        else key_type = EXTENT_DATA_REF_KEY A \<and>
             (\<exists>r. read_struct (data_ref_layout A) item 0 = Some r \<and> rs = [r]))"

lemma add_item_not_opaque:
  assumes "\<not> t_opaque (add_item A key_type key_offset item t)"
  shows "\<exists>rs x. \<not> t_opaque t \<and> item_names A (key_type, key_offset, item) rs \<and>
           add_item A key_type key_offset item t = (add_data_refs rs t)\<lparr>t_item := x\<rparr>"
proof (cases "key_type = EXTENT_ITEM_KEY A")
  case True
  with assms obtain ext where ext: "read_struct (extent_item_layout A) item 0 = Some ext"
    by (auto simp: add_item_def split: option.splits)
  show ?thesis
  proof (cases "ei_flags ext AND EXTENT_FLAG_DATA A = 0")
    case True
    with assms \<open>key_type = _\<close> ext show ?thesis
      by (intro exI [of _ "[]"] exI [of _ "t_item t"]) (simp add: add_item_def item_names_def)
  next
    case False
    let ?t = "t\<lparr>t_item := Some \<lparr>x_disk_bytes = key_offset, x_refs = ei_refs ext, x_generation = ei_generation ext\<rparr>\<rparr>"
    let ?bs = "drop (l_size (extent_item_layout A)) item"
    have add: "add_item A key_type key_offset item t = add_inline A ?bs ?t"
      using True ext False by (simp add: add_item_def)
    then obtain irs where irs: "inline_encodes A ?bs irs"
      using add_inline_not_opaque assms by metis
    then have "add_item A key_type key_offset item t = add_data_refs (files_named irs) ?t"
      by (simp only: add add_inline_decodes)
    with irs True ext False assms show ?thesis
      by (intro exI [of _ "files_named irs"] exI [of _ "t_item ?t"])
         (auto simp: item_names_def add_data_refs_item)
  qed
next
  case False
  with assms obtain r where "key_type = EXTENT_DATA_REF_KEY A"
    "read_struct (data_ref_layout A) item 0 = Some r"
    by (auto simp: add_item_def split: if_splits option.splits)
  with False assms show ?thesis
    by (intro exI [of _ "[r]"] exI [of _ "t_item t"]) (simp add: add_item_def item_names_def add_data_ref_def)
qed

lemma tally_not_opaque:
  "\<not> t_opaque (tally_of A its) \<Longrightarrow>
     \<exists>rss x. list_all2 (item_names A) its rss \<and>
       tally_of A its = (add_data_refs (concat rss) Tally_default)\<lparr>t_item := x\<rparr>"
proof (induction its rule: rev_induct)
  case Nil
  show ?case
    by (rule exI [of _ "[]"], rule exI [of _ None]) (simp add: tally_of_def Tally_default_def)
next
  case (snoc i its)
  obtain key_type key_offset item where i: "i = (key_type, key_offset, item)" by (cases i)
  let ?t = "tally_of A its"
  have step: "tally_of A (its @ [i]) = add_item A key_type key_offset item ?t"
    by (simp add: tally_of_def i)
  with snoc.prems obtain rs x where rs: "\<not> t_opaque ?t" "item_names A i rs"
    "add_item A key_type key_offset item ?t = (add_data_refs rs ?t)\<lparr>t_item := x\<rparr>"
    using add_item_not_opaque i by metis
  from snoc.IH [OF rs(1)] obtain rss y where rss: "list_all2 (item_names A) its rss"
    "?t = (add_data_refs (concat rss) Tally_default)\<lparr>t_item := y\<rparr>"
    by blast
  have "tally_of A (its @ [i]) = (add_data_refs (concat (rss @ [rs])) Tally_default)\<lparr>t_item := x\<rparr>"
    unfolding step rs(3) by (simp add: rss(2) add_data_refs_item)
  moreover have "list_all2 (item_names A) (its @ [i]) (rss @ [rs])"
    using rss(1) rs(2) by (simp add: list_all2_appendI)
  ultimately show ?case by blast
qed

text \<open>
  C32: The extent tree's account of an extent is only trusted when it is complete: every item read
  about it was understood in full, the files named are exactly those its items name, and the
  reference counts add up to the number of references the extent item gives.
\<close>

theorem files_only_when_all_named:
  assumes "finish (tally_of A its) = Some (item, Files refs)"
  shows "\<exists>rss. list_all2 (item_names A) its rss \<and> refs = map data_ref_of (concat rss)
           \<and> x_refs item = sum_list (map d_count refs)"
proof -
  from assms have no: "\<not> t_opaque (tally_of A its)" and count: "t_counted (tally_of A its) = x_refs item"
    and refs: "refs = t_data_refs (tally_of A its)"
    by (auto simp: finish_def split: option.splits if_splits)
  from tally_not_opaque [OF no] obtain rss x where rss: "list_all2 (item_names A) its rss"
    "tally_of A its = (add_data_refs (concat rss) Tally_default)\<lparr>t_item := x\<rparr>"
    by blast
  then have "refs = map data_ref_of (concat rss)"
    by (simp add: refs add_data_refs_def Tally_default_def)
  moreover have "x_refs item = sum_list (map d_count refs)"
    using count rss(2)
    by (simp add: refs add_data_refs_def Tally_default_def data_ref_of_def comp_def)
  ultimately show ?thesis using rss(1) by blast
qed

text \<open>An extent item with one inline reference, as btrfs lays it out.\<close>

definition sample_extent_item :: "u8 list" where
  "sample_extent_item =
     [1,0,0,0,0,0,0,0, 9,0,0,0,0,0,0,0, 1,0,0,0,0,0,0,0,
      178, 5,0,0,0,0,0,0,0, 1,1,0,0,0,0,0,0, 0,16,0,0,0,0,0,0, 1,0,0,0]"

lemma sample_tally:
  "finish (tally_of btrfs_abi [(168, 65536, sample_extent_item)]) =
     Some (\<lparr>x_disk_bytes = 65536, x_refs = 1, x_generation = 9\<rparr>,
           Files [\<lparr>d_root = 5, d_inode = 257, d_at = Base 4096, d_count = 1\<rparr>])"
  by (simp add: finish_def tally_of_def add_item_def read_struct_def btrfs_abi_def sample_extent_item_def
      le_field_def Tally_default_def add_data_ref_def data_ref_of_def)

lemma files_only_when_all_named_witness:
  "\<exists>rss. list_all2 (item_names btrfs_abi) [(168, 65536, sample_extent_item)] rss
     \<and> [\<lparr>d_root = 5, d_inode = 257, d_at = Base 4096, d_count = 1\<rparr>] = map data_ref_of (concat rss)
     \<and> x_refs \<lparr>x_disk_bytes = 65536, x_refs = 1, x_generation = 9\<rparr>
         = sum_list (map d_count [\<lparr>d_root = 5, d_inode = 257, d_at = Base 4096, d_count = 1\<rparr>])"
  by (rule files_only_when_all_named [OF sample_tally])

end
