(* ===== verification/Sample.thy ===== *)
theory Sample
  imports Search
begin

text \<open>
  A kernel that serves given trees, for the concrete runs of the witnesses: it lays the items of a
  range out the way the search ioctl does. It is proved to serve its trees in the sense the
  theorems ask of a kernel, so their hypotheses can hold together.
\<close>

section \<open>Little-endian bytes\<close>

fun le_bytes :: "nat \<Rightarrow> nat \<Rightarrow> u8 list" where
  "le_bytes 0 x = []"
| "le_bytes (Suc n) x = of_nat x # le_bytes n (x div 256)"

lemma length_le_bytes [simp]: "length (le_bytes n x) = n"
  by (induction n arbitrary: x) auto

lemma le_nat_le_bytes: "le_nat (le_bytes n x) = x mod 256 ^ n"
proof (induction n arbitrary: x)
  case (Suc n)
  have "x mod (256 * 256 ^ n) = 256 * (x div 256 mod 256 ^ n) + x mod 256"
    by (rule mod_mult2_eq)
  with Suc show ?case by (simp add: unat_of_nat)
qed simp

text \<open>A field read back from where it was laid out.\<close>

lemma le_field_here:
  "le_field (le_bytes n x @ bs) 0 n = (of_nat (x mod 256 ^ n) :: 'a::len word)"
  by (simp add: le_field_def le_nat_le_bytes)

lemma le_field_skip: "length as \<le> at \<Longrightarrow> le_field (as @ bs) at n = le_field bs (at - length as) n"
  by (simp add: le_field_def)

section \<open>Items laid out\<close>

definition encode_header :: "search_header \<Rightarrow> u8 list" where
  "encode_header h =
     le_bytes 8 (unat (sh_transid h)) @ le_bytes 8 (unat (sh_objectid h)) @ le_bytes 8 (unat (sh_offset h))
     @ le_bytes 4 (unat (sh_type h)) @ le_bytes 4 (unat (sh_len h)) @ []"

definition encode_items :: "item list \<Rightarrow> u8 list" where
  "encode_items its = concat (map (\<lambda>i. encode_header (fst i) @ snd i) its)"

lemma encode_items_Cons [simp]: "encode_items (i # its) = encode_header (fst i) @ snd i @ encode_items its"
  and encode_items_Nil [simp]: "encode_items [] = []"
  by (simp_all add: encode_items_def)

lemma length_encode_header [simp]: "length (encode_header h) = 32"
  by (simp add: encode_header_def)

lemma u64_of_nat_mod: "(of_nat (unat x mod 18446744073709551616) :: u64) = x" for x :: u64
  using unat_u64_bound [of x] by simp

lemma u32_of_nat_mod: "(of_nat (unat x mod 4294967296) :: u32) = x" for x :: u32
proof -
  have "unat x < 4294967296" using unsigned_less [of x] by simp
  then show ?thesis by simp
qed

lemma decode_header: "l_decode header_layout_v2 (encode_header h) = h"
  unfolding header_layout_v2_def encode_header_def
  by (simp add: le_field_skip le_field_here u64_of_nat_mod u32_of_nat_mod del: append_Nil2)

lemma header_size: "l_size header_layout_v2 = 32"
  by (simp add: header_layout_v2_def)

lemma encodes_items:
  assumes "header_layout A = header_layout_v2" and "\<forall>i \<in> set its. unat (sh_len (fst i)) = length (snd i)"
  shows "encodes A (encode_items its) its"
  using assms(2)
proof (induction its)
  case (Cons i its)
  then show ?case
    by (cases i) (simp add: assms(1) decode_header Let_def header_size)
qed simp

lemma each_item_collects: "each_item (\<lambda>h d acc. Inr (acc @ [(h, d)])) its acc = Inr (acc @ its)"
  by (induction its arbitrary: acc) auto

text \<open>
  C22: What is laid out is read back: items written one after the other, each after its header, at the
  front of a search buffer are handed to the callback one by one as they were, whatever the rest of
  the buffer holds; the last header and whether another item would have fitted come with them.
\<close>

theorem items_read_back:
  assumes "header_layout A = header_layout_v2"
    and "list_all (\<lambda>i. unat (sh_len (fst i)) = length (snd i)) its"
    and "unat (sk_nr_items (sa_key args)) = length its"
    and "sa_buf args = encode_items its @ stale" and "length (sa_buf args) = BUF_SIZE"
  shows "items A args (\<lambda>h d acc. Inr (acc @ [(h, d)])) [] =
    Inr (if its = [] then None else Some (fst (last its)),
         32 + MAX_ITEM_SIZE \<le> BUF_SIZE - length (encode_items its), its)"
proof -
  have "encodes A (take (length (encode_items its)) (drop 0 (sa_buf args))) its"
    using encodes_items [OF assms(1)] assms(2) by (simp add: assms(4) list_all_iff)
  from items_loop_decodes [OF this, of "\<lambda>h d acc. Inr (acc @ [(h, d)])" None "[]"] assms(4,5)
  show ?thesis
    by (simp add: items_def assms(1,3) each_item_collects header_size BUF_SIZE_def)
qed

section \<open>A kernel serving given trees\<close>

definition tree_kernel :: "(u64 \<Rightarrow> item list) \<Rightarrow> ('w, 'f) kernel" where
  "tree_kernel tree = sample_kernel\<lparr>k_search := (\<lambda>key _ w.
     (Inr (of_nat (length (matching tree key)), encode_items (matching tree key)), w))\<rparr>"

definition tree_fits :: "item list \<Rightarrow> bool" where
  "tree_fits its \<longleftrightarrow> length (encode_items its) \<le> BUF_SIZE \<and> (\<forall>i \<in> set its. unat (sh_len (fst i)) = length (snd i))"

lemma length_encode_filter: "length (encode_items (filter P its)) \<le> length (encode_items its)"
  by (induction its) auto

lemma length_encode_ge: "length its \<le> length (encode_items its)"
  by (induction its) auto

lemma serves_trees:
  assumes "\<And>key. k_search K key (of_nat BUF_SIZE) w =
      (Inr (of_nat (length (matching tree key)), encode_items (matching tree key)), w)"
    and "header_layout K = header_layout_v2" and "\<And>t. tree_fits (tree t)"
  shows "serves K tree w"
  unfolding serves_def
proof (intro allI impI)
  fix key
  let ?m = "matching tree key"
  have fits: "length (encode_items ?m) \<le> BUF_SIZE"
    using length_encode_filter [of "in_range key" "tree (sk_tree_id key)"] assms(3) [of "sk_tree_id key"]
    by (simp add: matching_def tree_fits_def)
  then have "length ?m < 2 ^ 32" using length_encode_ge [of ?m] by (simp add: BUF_SIZE_def)
  then have nr: "unat (of_nat (length ?m) :: u32) = length ?m" by (simp add: unat_of_nat)
  have "encodes K (encode_items ?m) ?m"
    by (rule encodes_items [OF assms(2)])
       (use assms(3) [of "sk_tree_id key"] in \<open>simp add: matching_def tree_fits_def\<close>)
  with fits nr have "answers K ?m (of_nat (length ?m)) (encode_items ?m)"
    unfolding answers_def by (intro exI [of _ ?m] exI [of _ "[]"]) simp
  with assms(1) show "\<exists>nr bytes. k_search K key (of_nat BUF_SIZE) w = (Inr (nr, bytes), w) \<and> answers K ?m nr bytes"
    by blast
qed

section \<open>A small filesystem\<close>

text \<open>One file, inode 257 of the top-level subvolume, holding the first 4096 bytes of an extent of
  8192 bytes at address 65536.\<close>

definition extent_item_257 :: item where
  "extent_item_257 =
     (\<lparr>sh_transid = 9, sh_objectid = 65536, sh_offset = 8192, sh_type = 168, sh_len = 53\<rparr>,
      [1,0,0,0,0,0,0,0, 9,0,0,0,0,0,0,0, 1,0,0,0,0,0,0,0,
       178, 5,0,0,0,0,0,0,0, 1,1,0,0,0,0,0,0, 0,0,0,0,0,0,0,0, 1,0,0,0])"

definition file_item_257 :: item where
  "file_item_257 =
     (\<lparr>sh_transid = 9, sh_objectid = 257, sh_offset = 0, sh_type = 108, sh_len = 53\<rparr>,
      [9,0,0,0,0,0,0,0, 0,32,0,0,0,0,0,0, 0, 0, 0,0, 1, 0,0,1,0,0,0,0,0,
       0,32,0,0,0,0,0,0, 0,0,0,0,0,0,0,0, 0,16,0,0,0,0,0,0])"

definition root_item_5 :: item where
  "root_item_5 =
     (\<lparr>sh_transid = 9, sh_objectid = 5, sh_offset = 0, sh_type = 132, sh_len = 208\<rparr>,
      replicate 200 0 @ [3,0,0,0,0,0,0,0])"

definition small_tree :: "u64 \<Rightarrow> item list" where
  "small_tree t =
     (if t = 1 then [root_item_5] else if t = 2 then [extent_item_257]
      else if t = 5 then [file_item_257] else [])"

lemma items_read_back_witness:
  "items btrfs_abi \<lparr>sa_key = (sa_key (SearchArgs_new 2))\<lparr>sk_nr_items := 2\<rparr>, sa_buf_size = 0,
       sa_buf = encode_items [extent_item_257, file_item_257] @ replicate (BUF_SIZE - 170) 7\<rparr>
     (\<lambda>h d acc. Inr (acc @ [(h, d)])) [] =
   Inr (Some (fst file_item_257), True, [extent_item_257, file_item_257])"
proof -
  have header: "header_layout btrfs_abi = header_layout_v2" by (simp add: btrfs_abi_def)
  show ?thesis
    by (subst items_read_back [OF header, where its = "[extent_item_257, file_item_257]" and stale = "replicate (BUF_SIZE - 170) 7"])
       (simp_all add: extent_item_257_def file_item_257_def BUF_SIZE_def MAX_ITEM_SIZE_def)
qed

lemma small_tree_ok: "tree_ok (small_tree t)"
  by (simp add: tree_ok_def small_tree_def extent_item_257_def file_item_257_def root_item_5_def MAX_ITEM_SIZE_def)

lemma small_tree_fits: "tree_fits (small_tree t)"
  by (simp add: tree_fits_def small_tree_def extent_item_257_def file_item_257_def root_item_5_def BUF_SIZE_def)

lemma length_small_tree: "length (small_tree t) \<le> 1"
  by (simp add: small_tree_def)

text \<open>Its kernel also answers the backreference walk, and commits and reports generation 10. Every
  descriptor of it is on the root of the top-level subvolume.\<close>

definition small_kernel :: "(unit, unit) kernel" where
  "small_kernel = (tree_kernel small_tree)
     \<lparr>k_logical_ino := (\<lambda>address bytes _ w.
        if address \<noteq> 65536 then (Inl (OsError 2), w)
        else if 40 \<le> bytes then (Inr [0, 3, 257, 0, 5], w)
        else (Inr [push_bit 32 24, 0], w)),
      k_syncfs := (\<lambda>_ w. (Inr (), w)),
      k_fs_info := (\<lambda>_ _ w. (Inr (2, 10), w)),
      k_open := (\<lambda>_ w. (Inr (), w)), k_openat2 := (\<lambda>_ _ _ _ w. (Inr (), w)),
      k_clone_mount := (\<lambda>_ w. (Inr (), w)),
      k_fstatfs := (\<lambda>_ w. (Inr \<lparr>sf_type = 0x9123683E, sf_bsize = 4096, sf_flags = 0\<rparr>, w)),
      k_metadata := (\<lambda>_ w. (Inr \<lparr>md_ino = 256, md_len = 0, md_is_dir = True, md_modified = Inr 0\<rparr>, w)),
      k_ino_lookup := (\<lambda>_ _ _ w. (Inr (5, []), w))\<rparr>"

lemmas small_kernel_simps = small_kernel_def tree_kernel_def sample_kernel_simps

lemma small_kernel_abi [simp]:
  "EXTENT_DATA_KEY small_kernel = EXTENT_DATA_KEY btrfs_abi"
  "EXTENT_DATA_REF_KEY small_kernel = EXTENT_DATA_REF_KEY btrfs_abi"
  "EXTENT_ITEM_KEY small_kernel = EXTENT_ITEM_KEY btrfs_abi"
  "EXTENT_OWNER_REF_KEY small_kernel = EXTENT_OWNER_REF_KEY btrfs_abi"
  "SHARED_DATA_REF_KEY small_kernel = SHARED_DATA_REF_KEY btrfs_abi"
  "ROOT_BACKREF_KEY small_kernel = ROOT_BACKREF_KEY btrfs_abi"
  "ROOT_ITEM_KEY small_kernel = ROOT_ITEM_KEY btrfs_abi"
  "EXTENT_TREE_OBJECTID small_kernel = EXTENT_TREE_OBJECTID btrfs_abi"
  "FS_TREE_OBJECTID small_kernel = FS_TREE_OBJECTID btrfs_abi"
  "ROOT_TREE_OBJECTID small_kernel = ROOT_TREE_OBJECTID btrfs_abi"
  "FIRST_FREE_OBJECTID small_kernel = FIRST_FREE_OBJECTID btrfs_abi"
  "EXTENT_FLAG_DATA small_kernel = EXTENT_FLAG_DATA btrfs_abi"
  "FILE_EXTENT_INLINE small_kernel = FILE_EXTENT_INLINE btrfs_abi"
  "FS_INFO_FLAG_GENERATION small_kernel = FS_INFO_FLAG_GENERATION btrfs_abi"
  "root_item_last_snapshot small_kernel = root_item_last_snapshot btrfs_abi"
  "header_layout small_kernel = header_layout btrfs_abi"
  "extent_item_layout small_kernel = extent_item_layout btrfs_abi"
  "data_ref_layout small_kernel = data_ref_layout btrfs_abi"
  "owner_ref_size small_kernel = owner_ref_size btrfs_abi"
  "file_extent_layout small_kernel = file_extent_layout btrfs_abi"
  "root_ref_layout small_kernel = root_ref_layout btrfs_abi"
  "rounds small_kernel = 10"
  by (simp_all add: small_kernel_simps)

lemma small_kernel_serves: "serves small_kernel small_tree w"
  by (rule serves_trees)
     (simp_all add: small_kernel_simps small_tree_fits)

end
