(* ===== verification/Resolve.thy ===== *)
theory Resolve
  imports Search Tally Extent Sample
begin

unbundle bit_operations_syntax

text \<open>
  How src/kernel.rs resolves an extent to every reference to it: the file extent items a
  \<open>DataRef\<close> stands for, the backreference walk (\<open>logical_ino\<close>), and the choice between the extent
  tree's own account and that walk (\<open>resolve\<close>).

  Searches and ioctls go through the handle's one descriptor, which the kernel operations of the
  model leave implicit.
\<close>

section \<open>File extent items\<close>

definition MAX_COMPRESSED_BYTES :: u64 where
  "MAX_COMPRESSED_BYTES = 128 * 1024"

text \<open>\<open>changed(why)\<close> and \<open>is_changed\<close>.\<close>

definition changed :: "string \<Rightarrow> io_error" where
  "changed why = ChangedError why"

fun is_changed :: "io_error \<Rightarrow> bool" where
  "is_changed (ChangedError _) = True"
| "is_changed _ = False"

text \<open>What \<open>search_extent_refs\<close> makes of one item: nothing of one too short, inline or a hole.\<close>

definition file_extent_ref :: "'z abi_scheme \<Rightarrow> u64 \<Rightarrow> u64 \<Rightarrow> search_header \<Rightarrow> u8 list \<Rightarrow> extent_ref option" where
  "file_extent_ref A root inode header item =
     (case read_struct (file_extent_layout A) item 0 of
        None \<Rightarrow> None
      | Some fe \<Rightarrow>
          if ucast (fe_type fe) = FILE_EXTENT_INLINE A then None
          else if fe_disk_bytenr fe = 0 then None
          else Some
            \<lparr>r_root = root, r_inode = inode, r_disk_address = fe_disk_bytenr fe,
             r_disk_bytes = fe_disk_num_bytes fe, r_uncompressed_bytes = fe_ram_bytes fe,
             r_file_offset = sh_offset header, r_extent_offset = fe_offset fe,
             r_num_bytes = fe_num_bytes fe, r_leaf_generation = sh_transid header\<rparr>)"

definition extent_ref_each ::
  "'z abi_scheme \<Rightarrow> u64 \<Rightarrow> u64 \<Rightarrow> (extent_ref \<Rightarrow> 'b \<Rightarrow> 'b) \<Rightarrow> 'b each"
where
  "extent_ref_each A root inode f header item b =
     Inr (case file_extent_ref A root inode header item of None \<Rightarrow> b | Some r \<Rightarrow> f r b)"

definition search_extent_refs ::
  "('w, 'f) kernel \<Rightarrow> u64 \<Rightarrow> u64 \<Rightarrow> (extent_ref \<Rightarrow> 'b \<Rightarrow> 'b) \<Rightarrow> 'b \<Rightarrow> ('w, 'b) args_io"
where
  "search_extent_refs K root inode f b = search_all K (extent_ref_each K root inode f) b"

text \<open>A search set up on a buffer of the pool: a tree and a key range.\<close>

definition searching :: "u64 \<Rightarrow> tree_key \<Rightarrow> tree_key \<Rightarrow> ('w, 'a) args_io \<Rightarrow> ('w, 'a) io" where
  "searching tree_id lo hi m =
     with_searchargs (bindE (modifyS (apfst (set_range lo hi \<circ> set_tree tree_id))) (\<lambda>_. m))"

text \<open>The stretch of the file \<open>data_ref_extents\<close> searches.\<close>

fun ref_window :: "u64 \<Rightarrow> ref_offsets \<Rightarrow> u64 \<times> u64" where
  "ref_window disk_bytes (Base base) =
     (let uncompressed = max disk_bytes MAX_COMPRESSED_BYTES;
          lst = base + (uncompressed - 1)
      in (if base \<le> lst then base else 0, lst))"
| "ref_window disk_bytes (Between frm lst) = (frm, lst)"

fun belongs :: "ref_offsets \<Rightarrow> extent_ref \<Rightarrow> bool" where
  "belongs (Base base) r \<longleftrightarrow> r_file_offset r - r_extent_offset r = base"
| "belongs (Between _ _) r \<longleftrightarrow> True"

definition wanted :: "data_ref \<Rightarrow> u64 \<Rightarrow> u64 \<Rightarrow> extent_ref \<Rightarrow> bool" where
  "wanted d disk_address disk_bytes r \<longleftrightarrow>
     r_disk_address r = disk_address \<and> r_disk_bytes r = disk_bytes \<and> belongs (d_at d) r"

definition data_ref_extents ::
  "('w, 'f) kernel \<Rightarrow> data_ref \<Rightarrow> u64 \<Rightarrow> u64 \<Rightarrow> extent_ref list \<Rightarrow> ('w, extent_ref list) io"
where
  "data_ref_extents K d disk_address disk_bytes refs =
     (let (start, lst) = ref_window disk_bytes (d_at d)
      in searching (d_root d)
           (d_inode d, EXTENT_DATA_KEY K, start) (d_inode d, EXTENT_DATA_KEY K, lst)
           (search_extent_refs K (d_root d) (d_inode d)
              (\<lambda>r refs. if wanted d disk_address disk_bytes r then refs @ [r] else refs) refs))"

definition collect ::
  "('w, 'f) kernel \<Rightarrow> u64 \<Rightarrow> u64 \<Rightarrow> data_ref list \<Rightarrow> ('w, extent_ref list) io"
where
  "collect K disk_address disk_bytes data_refs =
     bindE (foldE (\<lambda>d refs.
              bindE (data_ref_extents K d disk_address disk_bytes refs) (\<lambda>refs'.
              if of_nat (length refs' - length refs) \<noteq> d_count d
              then raise (changed ''changed while it was being read'')
              else ret refs')) data_refs []) (\<lambda>refs.
     if refs = [] then raise (changed ''no longer referenced'') else ret refs)"

definition inode_holds_extent ::
  "('w, 'f) kernel \<Rightarrow> u64 \<Rightarrow> u64 \<Rightarrow> u64 \<Rightarrow> u64 \<Rightarrow> u64 \<Rightarrow> ('w, bool) io"
where
  "inode_holds_extent K root inode from to disk_address =
     searching root (inode, EXTENT_DATA_KEY K, from) (inode, EXTENT_DATA_KEY K, to)
       (search_extent_refs K root inode (\<lambda>r found. found \<or> r_disk_address r = disk_address) False)"

section \<open>Last snapshots\<close>

definition last_snapshot :: "('w, 'f) kernel \<Rightarrow> u64 \<Rightarrow> ('w, u64) io" where
  "last_snapshot K root =
     bindE getS (\<lambda>s.
     case last_snapshots s root of
       Some generation \<Rightarrow> ret generation
     | None \<Rightarrow>
         bindE (searching (ROOT_TREE_OBJECTID K)
                  (root, ROOT_ITEM_KEY K, 0) (root, ROOT_ITEM_KEY K, - 1)
                  (search_all K (\<lambda>_ item _. Inr (read_struct u64_layout item (root_item_last_snapshot K))) None))
               (\<lambda>found.
         case found of
           None \<Rightarrow> raise (other_error (''subvolume '' @ show_nat (unat root) @ '' has no root item''))
         | Some generation \<Rightarrow>
             bindE (modifyS (\<lambda>s. s\<lparr>last_snapshots := (last_snapshots s)(root \<mapsto> generation)\<rparr>)) (\<lambda>_.
             ret generation)))"

definition may_be_shared :: "('w, 'f) kernel \<Rightarrow> extent_ref list \<Rightarrow> ('w, bool) io" where
  "may_be_shared K refs =
     anyE (\<lambda>r. bindE (last_snapshot K (r_root r)) (\<lambda>generation. ret (r_leaf_generation r \<le> generation))) refs"

section \<open>The backreference walk\<close>

definition LOGICAL_INO_START_SIZE :: nat where
  "LOGICAL_INO_START_SIZE = 4096"

definition LOGICAL_INO_MAX_SIZE :: nat where
  "LOGICAL_INO_MAX_SIZE = 16 * 1024 * 1024"

text \<open>One call: the kernel writes its answer over the front of a zeroed buffer.\<close>

definition logical_ino_call :: "('w, 'f) kernel \<Rightarrow> u64 \<Rightarrow> nat \<Rightarrow> ('w, u64 list) io" where
  "logical_ino_call K disk_address bytes =
     (let buf = replicate ((bytes + 7) div 8) 0
      in matchE (sys_call (k_logical_ino K disk_address bytes buf))
           (\<lambda>filled. ret (take (length buf) filled @ drop (length filled) buf))
           (\<lambda>e. if kind_of e = NotFound then raise (changed ''no longer referenced'') else raise e))"

text \<open>\<open>chunks_exact(3).take(n)\<close>.\<close>

fun chunks3 :: "nat \<Rightarrow> 'a list \<Rightarrow> ('a \<times> 'a \<times> 'a) list" where
  "chunks3 (Suc n) (a # b # c # xs) = (a, b, c) # chunks3 n xs"
| "chunks3 _ _ = []"

text \<open>The \<open>(root, inode, offset)\<close> triples of an answer, sorted.\<close>

definition answer_triples :: "u64 list \<Rightarrow> (u64 \<times> u64 \<times> u64) list" where
  "answer_triples buf =
     (let elem_cnt = unat (ucast (buf ! 1) :: u32)
      in sort (map (\<lambda>(inode, offset, root). (root, inode, offset)) (chunks3 (elem_cnt div 3) (drop 2 buf))))"

definition triple_ref :: "u64 \<times> u64 \<times> u64 \<Rightarrow> data_ref" where
  "triple_ref t =
     (case t of (root, inode, offset) \<Rightarrow>
        \<lparr>d_root = root, d_inode = inode, d_at = Between offset offset, d_count = 1\<rparr>)"

text \<open>Every element of this vector has \<open>Between\<close> offsets, so the source's pattern on them always
  matches.\<close>

definition grow_ref :: "data_ref \<Rightarrow> u64 \<times> u64 \<times> u64 \<Rightarrow> data_ref" where
  "grow_ref d t =
     d\<lparr>d_at := (case d_at d of Between frm _ \<Rightarrow> Between frm (snd (snd t)) | at \<Rightarrow> at),
       d_count := d_count d + 1\<rparr>"

definition triples_to_refs :: "(u64 \<times> u64 \<times> u64) list \<Rightarrow> data_ref list" where
  "triples_to_refs triples =
     absorb (\<lambda>d t. (d_root d, d_inode d) = (fst t, fst (snd t))) grow_ref triple_ref triples"

function logical_ino_loop :: "('w, 'f) kernel \<Rightarrow> u64 \<Rightarrow> nat \<Rightarrow> ('w, data_ref list) io" where
  "logical_ino_loop K disk_address bytes =
     bindE (logical_ino_call K disk_address bytes) (\<lambda>buf.
     let bytes_missing = unat (drop_bit 32 (buf ! 0))
     in if 0 < bytes_missing then
          (if LOGICAL_INO_MAX_SIZE < bytes + bytes_missing
           then raise (other_error ''extent has more backreferences than fit in one lookup'')
           else logical_ino_loop K disk_address (bytes + bytes_missing))
        else ret (triples_to_refs (answer_triples buf)))"
  by pat_completeness auto
termination
  by (relation "measure (\<lambda>(K, a, n). LOGICAL_INO_MAX_SIZE - n)") auto

declare logical_ino_loop.simps [simp del]

definition logical_ino :: "('w, 'f) kernel \<Rightarrow> u64 \<Rightarrow> ('w, data_ref list) io" where
  "logical_ino K disk_address = logical_ino_loop K disk_address LOGICAL_INO_START_SIZE"

section \<open>Resolving an extent\<close>

definition resolve_by_walk :: "('w, 'f) kernel \<Rightarrow> u64 \<Rightarrow> u64 \<Rightarrow> ('w, extent_ref list) io" where
  "resolve_by_walk K disk_address disk_bytes =
     bindE (logical_ino K disk_address) (\<lambda>data_refs. collect K disk_address disk_bytes data_refs)"

definition resolve :: "('w, 'f) kernel \<Rightarrow> u64 \<Rightarrow> extent_item \<Rightarrow> backrefs \<Rightarrow> ('w, extent_ref list) io" where
  "resolve K disk_address item backrefs =
     (case backrefs of
        Files data_refs \<Rightarrow>
          matchE (collect K disk_address (x_disk_bytes item) data_refs)
            (\<lambda>refs. bindE (may_be_shared K refs) (\<lambda>shared.
               if \<not> shared then ret refs else resolve_by_walk K disk_address (x_disk_bytes item)))
            (\<lambda>_. resolve_by_walk K disk_address (x_disk_bytes item))
      | Opaque \<Rightarrow> resolve_by_walk K disk_address (x_disk_bytes item))"

definition resolve_again :: "('w, 'f) kernel \<Rightarrow> extent \<Rightarrow> ('w, extent) io" where
  "resolve_again K e =
     bindE (logical_ino K (e_disk_address e)) (\<lambda>data_refs.
     bindE (collect K (e_disk_address e) (e_disk_bytes e) data_refs) (\<lambda>refs.
     unwrap (from_refs refs)))"

section \<open>What a search through the handle gives\<close>

text \<open>A kernel that answers searches of these trees as documented, and is given rounds enough.\<close>

definition serving :: "('w, 'f) kernel \<Rightarrow> (u64 \<Rightarrow> item list) \<Rightarrow> 'w sys \<Rightarrow> bool" where
  "serving K tree s \<longleftrightarrow>
     pool_ok s \<and> serves K tree (world s) \<and> (\<forall>t. tree_ok (tree t) \<and> length (tree t) < rounds K)"

lemma serving_own [simp]:
  "serving K tree (s\<lparr>subvolumes := v\<rparr>) = serving K tree s"
  "serving K tree (s\<lparr>last_snapshots := l\<rparr>) = serving K tree s"
  by (simp_all add: serving_def pool_ok_def)

definition range_items :: "(u64 \<Rightarrow> item list) \<Rightarrow> u64 \<Rightarrow> tree_key \<Rightarrow> tree_key \<Rightarrow> item list" where
  "range_items tree t lo hi = filter (\<lambda>i. lo \<le> item_key i \<and> item_key i \<le> hi) (tree t)"

lemma preserves_searching:
  assumes "preserves loan_ok m"
  shows "preserves pool_ok (searching t lo hi m)"
  unfolding searching_def
  by (intro preserves_with_searchargs preserves_bindE preserves_modifyS assms) simp

lemma take_searchargs_pool: "\<exists>p. snd (take_searchargs s) = s\<lparr>searchargs_pool := p\<rparr>"
proof (cases "searchargs_pool s")
  case Nil
  then have "snd (take_searchargs s) = s\<lparr>searchargs_pool := []\<rparr>" by (simp add: take_searchargs_def)
  then show ?thesis by blast
qed (auto simp: take_searchargs_def)

text \<open>The contract of a property that searching keeps: it does not look at the pool, and the search
  call itself keeps it.\<close>

locale searched =
  fixes K :: "('w, 'f) kernel" and I :: "'w sys \<Rightarrow> bool"
  assumes pool_irrelevant: "I (s\<lparr>searchargs_pool := p\<rparr>) \<longleftrightarrow> I s"
    and call_keeps: "I s \<Longrightarrow> I (s\<lparr>world := snd (k_search K key n (world s))\<rparr>)"
begin

lemma preserves_call: "preserves (\<lambda>as. I (snd as)) (search K)"
proof -
  have "I (snd (snd (search K (args, s))))" if "I s" for args s
    using call_keeps [OF that, of "(sa_key args)\<lparr>sk_nr_items := - 1\<rparr>" "sa_buf_size args"]
    by (auto simp: search_def Let_def sys_call_def split: prod.splits sum.splits)
  then show ?thesis by (simp add: preserves_def)
qed

lemma preserves_loop: "preserves (\<lambda>as. I (snd as)) (search_all_loop K each n b)"
  by (induction n arbitrary: b) (auto intro!: preserve preserves_call preserves_modifyS)

lemma keeps_searching:
  assumes "preserves (\<lambda>as. I (snd as)) m"
  shows "preserves I (searching t lo hi m)"
proof -
  have m: "preserves (\<lambda>as. I (snd as)) (bindE (modifyS (apfst (set_range lo hi \<circ> set_tree t))) (\<lambda>_. m))"
    by (intro preserve preserves_modifyS assms) simp
  have "I (snd (searching t lo hi m s))" if "I s" for s
  proof -
    obtain p where "snd (take_searchargs s) = s\<lparr>searchargs_pool := p\<rparr>"
      using take_searchargs_pool by blast
    with that have "I (snd (take_searchargs s))" by (simp add: pool_irrelevant)
    with m have "I (snd (snd (bindE (modifyS (apfst (set_range lo hi \<circ> set_tree t))) (\<lambda>_. m) (take_searchargs s))))"
      by (rule preservesD)
    then show ?thesis
      by (auto simp: searching_def with_searchargs_def drop_searchargs_def pool_irrelevant split: prod.splits)
  qed
  then show ?thesis by (simp add: preserves_def)
qed

lemma keeps_search_all: "preserves I (searching t lo hi (search_all K each b))"
  by (rule keeps_searching) (simp add: search_all_def preserves_loop)

end

text \<open>Searching leaves what the handle has looked up alone.\<close>

interpretation snapshots: searched K "\<lambda>s. last_snapshots s = l" for K :: "('w, 'f) kernel" and l
  by unfold_locales simp_all

interpretation lookups: searched K "\<lambda>s. subvolumes s = v" for K :: "('w, 'f) kernel" and v
  by unfold_locales simp_all

lemma matching_range:
  "matching tree (sa_key (set_range lo hi (set_tree t args))) = range_items tree t lo hi"
  unfolding matching_def range_items_def
  by (rule filter_cong) (auto simp: in_range_def min_key_def max_key_def set_range_def set_tree_def)

lemma searching_exact:
  assumes "serving K tree s"
  obtains p where
    "searching t lo hi (search_all K each b) s =
       (lift_result (each_item each (range_items tree t lo hi) b), s\<lparr>searchargs_pool := p\<rparr>)"
    and "serving K tree (s\<lparr>searchargs_pool := p\<rparr>)"
proof -
  obtain args s1 where take: "take_searchargs s = (args, s1)" by fastforce
  have ok: "args_ok args" "pool_ok s1"
    using take_searchargs_ok [of s] assms take by (auto simp: serving_def)
  obtain p1 where s1: "s1 = s\<lparr>searchargs_pool := p1\<rparr>"
    using take_searchargs_pool [of s] take by auto
  let ?args = "set_range lo hi (set_tree t args)"
  have "length (matching tree (sa_key ?args)) \<le> length (tree t)"
    by (simp add: matching_range range_items_def)
  also have "\<dots> < rounds K" using assms by (simp add: serving_def)
  finally have few: "length (matching tree (sa_key ?args)) < rounds K" .
  obtain args' where run: "search_all K each b (?args, s1) =
      (lift_result (each_item each (range_items tree t lo hi) b), (args', s1))"
    using search_all_loop_exact [of K tree s1 ?args "rounds K" each b] assms ok few
    by (auto simp: serving_def s1 matching_range search_all_def)
  let ?s' = "s\<lparr>searchargs_pool := p1 @ [args']\<rparr>"
  have "searching t lo hi (search_all K each b) s =
      (lift_result (each_item each (range_items tree t lo hi) b), ?s')"
    using run by (simp add: searching_def with_searchargs_def take bindE_def modifyS_def drop_searchargs_def s1)
  moreover have "pool_ok ?s'"
    using preserves_end [OF preserves_searching [OF preserves_search_all] _ calculation] assms
    by (simp add: serving_def)
  ultimately show thesis
    using that assms by (simp add: serving_def)
qed

text \<open>A callback that never fails is a fold.\<close>

lemma each_item_fold:
  "each_item (\<lambda>h d b. Inr (f h d b)) its b = Inr (foldl (\<lambda>b i. f (fst i) (snd i) b) b its)"
  by (induction its arbitrary: b) auto

lemma searching_fold:
  assumes "serving K tree s"
  obtains p where
    "searching t lo hi (search_all K (\<lambda>h d b. Inr (f h d b)) b) s =
       (Inr (foldl (\<lambda>b i. f (fst i) (snd i) b) b (range_items tree t lo hi)), s\<lparr>searchargs_pool := p\<rparr>)"
    and "serving K tree (s\<lparr>searchargs_pool := p\<rparr>)"
  by (rule searching_exact [OF assms, of t lo hi "\<lambda>h d b. Inr (f h d b)" b])
     (rule that, simp_all add: each_item_fold lift_result_def)

definition extent_refs_in ::
  "'z abi_scheme \<Rightarrow> (u64 \<Rightarrow> item list) \<Rightarrow> u64 \<Rightarrow> u64 \<Rightarrow> u64 \<Rightarrow> u64 \<Rightarrow> extent_ref list"
where
  "extent_refs_in A tree root inode frm to =
     List.map_filter (\<lambda>i. file_extent_ref A root inode (fst i) (snd i))
       (range_items tree root (inode, EXTENT_DATA_KEY A, frm) (inode, EXTENT_DATA_KEY A, to))"

lemma each_extent_ref:
  "each_item (extent_ref_each A root inode f) its b =
     Inr (foldl (\<lambda>b r. f r b) b (List.map_filter (\<lambda>i. file_extent_ref A root inode (fst i) (snd i)) its))"
  by (induction its arbitrary: b) (auto simp: extent_ref_each_def split: option.splits)

lemma foldl_filter_append:
  "foldl (\<lambda>acc r. if P r then acc @ [r] else acc) acc rs = acc @ filter P rs"
  by (induction rs arbitrary: acc) auto

definition refs_of :: "'z abi_scheme \<Rightarrow> (u64 \<Rightarrow> item list) \<Rightarrow> u64 \<Rightarrow> u64 \<Rightarrow> data_ref \<Rightarrow> extent_ref list" where
  "refs_of A tree disk_address disk_bytes d =
     (let w = ref_window disk_bytes (d_at d)
      in filter (wanted d disk_address disk_bytes) (extent_refs_in A tree (d_root d) (d_inode d) (fst w) (snd w)))"

lemma data_ref_extents_exact:
  assumes "serving K tree s"
  obtains p where
    "data_ref_extents K d disk_address disk_bytes refs s =
       (Inr (refs @ refs_of K tree disk_address disk_bytes d), s\<lparr>searchargs_pool := p\<rparr>)"
    and "serving K tree (s\<lparr>searchargs_pool := p\<rparr>)"
proof -
  obtain frm to where w: "ref_window disk_bytes (d_at d) = (frm, to)" by fastforce
  show thesis
    by (rule searching_exact [OF assms, of "d_root d" "(d_inode d, EXTENT_DATA_KEY K, frm)"
          "(d_inode d, EXTENT_DATA_KEY K, to)"
          "extent_ref_each K (d_root d) (d_inode d)
             (\<lambda>r refs. if wanted d disk_address disk_bytes r then refs @ [r] else refs)" refs])
       (rule that, auto simp: data_ref_extents_def search_extent_refs_def each_extent_ref lift_result_def
         foldl_filter_append refs_of_def extent_refs_in_def w)
qed

section \<open>The stretch of file a reference is looked for in\<close>

text \<open>
  C37: The stretch of a file searched for the items of one extent data reference holds every such
  item: one at file offset \<open>fo\<close>, placed \<open>eo\<close> bytes into the extent, lies in the window computed
  from the base \<open>fo - eo\<close>, also where that base wraps below zero. The extent's uncompressed length
  is at most its length on disk or what btrfs compresses at once, and files end short of 2^64 by
  at least that much.
\<close>

theorem ref_window_covers:
  assumes "eo < max disk_bytes MAX_COMPRESSED_BYTES"
    and "fits fo (max disk_bytes MAX_COMPRESSED_BYTES)"
  shows "fst (ref_window disk_bytes (Base (fo - eo))) \<le> fo \<and> fo \<le> snd (ref_window disk_bytes (Base (fo - eo)))"
proof -
  define u where "u = max disk_bytes MAX_COMPRESSED_BYTES"
  define base where "base = fo - eo"
  define lst where "lst = base + (u - 1)"
  have window: "ref_window disk_bytes (Base base) = (if base \<le> lst then base else 0, lst)"
    by (simp add: u_def lst_def Let_def)
  have eo: "unat eo < unat u" and fo: "unat fo + unat u < 2 ^ 64"
    using assms by (simp_all add: u_def [symmetric] word_less_nat_alt fits_def)
  have lst: "lst = fo + (u - 1 - eo)" by (simp add: lst_def base_def)
  have "1 \<le> u" using eo by (simp add: word_le_nat_alt)
  then have pred: "unat (u - 1) = unat u - 1" by (simp add: unat_sub_le)
  then have "eo \<le> u - 1" using eo by (simp add: word_le_nat_alt)
  then have rest: "unat (u - 1 - eo) = unat u - 1 - unat eo" by (simp add: unat_sub_le pred)
  have fit: "fits fo (u - 1 - eo)" using fo rest by (simp add: fits_def)
  then have "fo \<le> lst" unfolding lst by (rule fits_le)
  moreover have "base \<le> fo" if "base \<le> lst"
  proof (cases "eo \<le> fo")
    case True
    then show ?thesis by (simp add: base_def word_le_nat_alt unat_sub_le)
  next
    case False
    then have "unat base = 2 ^ 64 + unat fo - unat eo"
      using unat_u64_bound [of eo] by (simp add: base_def unat_sub_if' word_le_nat_alt)
    moreover have "unat lst = unat fo + (unat u - 1 - unat eo)"
      using fit rest by (simp add: lst unat_add_fits)
    ultimately have "unat lst < unat base"
      using False eo fo unat_u64_bound [of u] unat_u64_bound [of eo] by (simp add: word_le_nat_alt)
    with that show ?thesis by (simp add: word_le_nat_alt)
  qed
  ultimately show ?thesis
    unfolding base_def [symmetric] window by simp
qed

lemma ref_window_covers_witness:
  "fst (ref_window 4096 (Base (4096 - 8192))) \<le> (4096 :: u64)
   \<and> (4096 :: u64) \<le> snd (ref_window 4096 (Base (4096 - 8192)))"
  by (rule ref_window_covers) (simp_all add: MAX_COMPRESSED_BYTES_def fits_def max_def)

section \<open>Collecting\<close>

text \<open>Whatever the kernel answers: a search for file extent items only ever adds references of the
  inode searched, kept by the filter.\<close>

lemma items_loop_inv:
  assumes "items_loop A buf each n pos lst b = Inr (lst', pos', b')" and "P b"
    and "\<And>h d b b'. P b \<Longrightarrow> each h d b = Inr b' \<Longrightarrow> P b'"
  shows "P b'"
  using assms(1,2)
  by (induction n arbitrary: pos lst b) (auto simp: Let_def assms(3) split: option.splits if_splits sum.splits)

lemma search_all_loop_inv:
  assumes "search_all_loop K each n b as = (Inr b', as')" and "P b"
    and "\<And>h d b b'. P b \<Longrightarrow> each h d b = Inr b' \<Longrightarrow> P b'"
  shows "P b'"
  using assms(1,2)
proof (induction n arbitrary: b as)
  case (Suc n)
  from Suc.prems(1) obtain as1 args s1 where "as1 = (args, s1)"
    and run: "(case items K args each b of
         Inl e \<Rightarrow> raise e
       | Inr (lst, complete, b) \<Rightarrow>
           (case lst of
              None \<Rightarrow> ret b
            | Some lst \<Rightarrow>
                if complete then ret b
                else (case next_key lst (sa_key args) of
                        None \<Rightarrow> ret b
                      | Some key \<Rightarrow>
                          bindE (modifyS (apfst (\<lambda>a. a\<lparr>sa_key := key\<rparr>))) (\<lambda>_.
                          search_all_loop K each n b)))) as1 = (Inr b', as')"
    by (auto simp: bindE_Inr)
  then obtain lst complete b1 where its: "items K args each b = Inr (lst, complete, b1)"
    by (auto split: sum.splits)
  have "P b1"
    using its items_loop_inv [where P = P and each = each, OF _ Suc.prems(2) assms(3)]
    by (auto simp: items_def split: sum.splits)
  with run its Suc.IH show ?case
    by (auto simp: bindE_Inr split: option.splits if_splits)
qed simp

lemma searching_inv:
  assumes "searching t lo hi (search_all K each b) s = (Inr b', s')" and "P b"
    and "\<And>h d b b'. P b \<Longrightarrow> each h d b = Inr b' \<Longrightarrow> P b'"
  shows "P b'"
proof -
  from assms(1) obtain as1 as2 where "search_all_loop K each (rounds K) b as1 = (Inr b', as2)"
    by (auto simp: searching_def with_searchargs_def search_all_def bindE_Inr split: prod.splits)
  then show ?thesis using assms(2,3) by (rule search_all_loop_inv)
qed

definition ref_matches :: "u64 \<Rightarrow> u64 \<Rightarrow> data_ref \<Rightarrow> extent_ref \<Rightarrow> bool" where
  "ref_matches disk_address disk_bytes d r \<longleftrightarrow>
     r_root r = d_root d \<and> r_inode r = d_inode d \<and> wanted d disk_address disk_bytes r"

lemma file_extent_ref_owner:
  "file_extent_ref A root inode h item = Some r \<Longrightarrow> r_root r = root \<and> r_inode r = inode"
  by (auto simp: file_extent_ref_def split: option.splits if_splits)

lemma data_ref_extents_sound:
  assumes "data_ref_extents K d disk_address disk_bytes refs s = (Inr refs', s')"
  shows "\<exists>rs. refs' = refs @ rs \<and> list_all (ref_matches disk_address disk_bytes d) rs"
proof -
  obtain frm to where w: "ref_window disk_bytes (d_at d) = (frm, to)" by fastforce
  let ?P = "\<lambda>refs'. \<exists>rs. refs' = refs @ rs \<and> list_all (ref_matches disk_address disk_bytes d) rs"
  show ?thesis
  proof (rule searching_inv [where P = ?P])
    show "searching (d_root d) (d_inode d, EXTENT_DATA_KEY K, frm) (d_inode d, EXTENT_DATA_KEY K, to)
      (search_all K (extent_ref_each K (d_root d) (d_inode d)
         (\<lambda>r refs. if wanted d disk_address disk_bytes r then refs @ [r] else refs)) refs) s = (Inr refs', s')"
      using assms by (simp add: data_ref_extents_def search_extent_refs_def w)
    show "?P b'" if "?P b" "extent_ref_each K (d_root d) (d_inode d)
         (\<lambda>r refs. if wanted d disk_address disk_bytes r then refs @ [r] else refs) h i b = Inr b'" for h i b b'
      using that by (auto simp: extent_ref_each_def ref_matches_def dest: file_extent_ref_owner split: option.splits if_splits)
  qed simp
qed

abbreviation collected :: "u64 \<Rightarrow> u64 \<Rightarrow> data_ref \<Rightarrow> extent_ref list \<Rightarrow> bool" where
  "collected disk_address disk_bytes d rs \<equiv>
     of_nat (length rs) = d_count d \<and> list_all (ref_matches disk_address disk_bytes d) rs"

lemma collect_loop_sound:
  assumes "foldE (\<lambda>d refs.
              bindE (data_ref_extents K d disk_address disk_bytes refs) (\<lambda>refs'.
              if of_nat (length refs' - length refs) \<noteq> d_count d
              then raise (changed ''changed while it was being read'')
              else ret refs')) data_refs refs s = (Inr refs', s')"
  shows "\<exists>rss. refs' = refs @ concat rss \<and> list_all2 (collected disk_address disk_bytes) data_refs rss"
  using assms
proof (induction data_refs arbitrary: refs s)
  case Nil
  then show ?case by (intro exI [of _ "[]"]) simp
next
  case (Cons d ds)
  from Cons.prems obtain refs1 s1 where one: "data_ref_extents K d disk_address disk_bytes refs s = (Inr refs1, s1)"
    and count: "of_nat (length refs1 - length refs) = d_count d"
    and rest: "foldE (\<lambda>d refs.
              bindE (data_ref_extents K d disk_address disk_bytes refs) (\<lambda>refs'.
              if of_nat (length refs' - length refs) \<noteq> d_count d
              then raise (changed ''changed while it was being read'')
              else ret refs')) ds refs1 s1 = (Inr refs', s')"
    by (auto simp: bindE_Inr split: if_splits)
  from data_ref_extents_sound [OF one] obtain rs where rs: "refs1 = refs @ rs"
    "list_all (ref_matches disk_address disk_bytes d) rs" by blast
  from Cons.IH [OF rest] obtain rss where "refs' = refs1 @ concat rss"
    "list_all2 (collected disk_address disk_bytes) ds rss" by blast
  with rs count show ?case by (intro exI [of _ "rs # rss"]) simp
qed

lemma collect_parts:
  assumes "collect K disk_address disk_bytes data_refs s = (Inr refs, s')"
  shows "refs \<noteq> []"
    and "\<exists>rss. refs = concat rss \<and> list_all2 (collected disk_address disk_bytes) data_refs rss"
  using assms collect_loop_sound [of K disk_address disk_bytes data_refs "[]"]
  by (auto simp: collect_def bindE_Inr split: if_splits)

text \<open>
  C24: Whatever the kernel answers, the references collected for an extent are never none, and are
  for each file in turn exactly as many as its data reference promised, every one of them an item
  of that file pointing at that very extent, of that address and size.
\<close>

theorem collect_sound:
  assumes "collect K disk_address disk_bytes data_refs s = (Inr refs, s')"
  shows "refs \<noteq> [] \<and> (\<exists>rss. refs = concat rss \<and>
           list_all2 (\<lambda>d rs. of_nat (length rs) = d_count d \<and>
             list_all (ref_matches disk_address disk_bytes d) rs) data_refs rss)"
  using collect_parts [OF assms] by blast

lemma collect_loop_exact:
  assumes "serving K tree s"
  shows "\<exists>p. serving K tree (s\<lparr>searchargs_pool := p\<rparr>) \<and>
    foldE (\<lambda>d refs.
              bindE (data_ref_extents K d disk_address disk_bytes refs) (\<lambda>refs'.
              if of_nat (length refs' - length refs) \<noteq> d_count d
              then raise (changed ''changed while it was being read'')
              else ret refs')) data_refs refs s =
      (if list_all (\<lambda>d. of_nat (length (refs_of K tree disk_address disk_bytes d)) = d_count d) data_refs
       then Inr (refs @ concat (map (refs_of K tree disk_address disk_bytes) data_refs))
       else Inl (Raise (changed ''changed while it was being read'')), s\<lparr>searchargs_pool := p\<rparr>)"
  using assms
proof (induction data_refs arbitrary: refs s)
  case Nil
  then show ?case by (intro exI [of _ "searchargs_pool s"]) simp
next
  case (Cons d ds)
  obtain p where one: "data_ref_extents K d disk_address disk_bytes refs s =
       (Inr (refs @ refs_of K tree disk_address disk_bytes d), s\<lparr>searchargs_pool := p\<rparr>)"
    and ok: "serving K tree (s\<lparr>searchargs_pool := p\<rparr>)"
    by (rule data_ref_extents_exact [OF Cons.prems])
  show ?case
  proof (cases "of_nat (length (refs_of K tree disk_address disk_bytes d)) = d_count d")
    case False
    then show ?thesis using ok by (intro exI [of _ p]) (simp add: bindE_def one stop_def)
  next
    case True
    from Cons.IH [OF ok, of "refs @ refs_of K tree disk_address disk_bytes d"] True show ?thesis
      by (auto simp: bindE_def one ret_def)
  qed
qed

lemma collect_run:
  assumes "serving K tree s"
  shows "\<exists>p. serving K tree (s\<lparr>searchargs_pool := p\<rparr>) \<and> collect K disk_address disk_bytes data_refs s =
    (let refs = concat (map (refs_of K tree disk_address disk_bytes) data_refs)
     in if \<not> list_all (\<lambda>d. of_nat (length (refs_of K tree disk_address disk_bytes d)) = d_count d) data_refs
        then Inl (Raise (changed ''changed while it was being read''))
        else if refs = [] then Inl (Raise (changed ''no longer referenced''))
        else Inr refs, s\<lparr>searchargs_pool := p\<rparr>)"
  using collect_loop_exact [OF assms, of disk_address disk_bytes data_refs "[]"]
  by (auto simp: collect_def bindE_def ret_def stop_def Let_def)

text \<open>
  C23: On a filesystem that does not change, collecting is exact: it gives, for each data reference
  in turn, all the items of its stretch that match it, and fails, as \<open>Changed\<close>, precisely if some
  count differs from what was promised or there is no item at all. Nothing of the handle's state but
  the pool of buffers changes.
\<close>

theorem collect_exact:
  assumes "serving K tree s"
  shows "\<exists>p. collect K disk_address disk_bytes data_refs s =
    (let refs = concat (map (refs_of K tree disk_address disk_bytes) data_refs)
     in if \<not> list_all (\<lambda>d. of_nat (length (refs_of K tree disk_address disk_bytes d)) = d_count d) data_refs
        then Inl (Raise (changed ''changed while it was being read''))
        else if refs = [] then Inl (Raise (changed ''no longer referenced''))
        else Inr refs, s\<lparr>searchargs_pool := p\<rparr>)"
  using collect_run [OF assms] by blast

text \<open>The small filesystem, for the witnesses.\<close>

lemma small_serving: "serving small_kernel small_tree (sample_sys ())"
proof -
  have "length (small_tree t) < 10" for t
    using length_small_tree [of t] by simp
  then show ?thesis
    by (simp add: serving_def pool_ok_def small_kernel_serves small_tree_ok)
qed

definition small_data_ref :: data_ref where
  "small_data_ref = \<lparr>d_root = 5, d_inode = 257, d_at = Base 0, d_count = 1\<rparr>"

definition small_ref :: extent_ref where
  "small_ref =
     \<lparr>r_root = 5, r_inode = 257, r_disk_address = 65536, r_disk_bytes = 8192, r_uncompressed_bytes = 8192,
      r_file_offset = 0, r_extent_offset = 0, r_num_bytes = 4096, r_leaf_generation = 9\<rparr>"

lemma small_file_extent_ref:
  "file_extent_ref small_kernel 5 257 (fst file_item_257) (snd file_item_257) = Some small_ref"
  by (simp add: file_extent_ref_def btrfs_abi_def file_item_257_def read_struct_def le_field_def small_ref_def)

lemma small_range_items: "range_items small_tree 5 (257, 108, 0) (257, 108, 131071) = [file_item_257]"
  by (simp add: range_items_def small_tree_def item_key_def file_item_257_def tree_key_le)

lemma small_refs_of: "refs_of small_kernel small_tree 65536 8192 small_data_ref = [small_ref]"
proof -
  have "EXTENT_DATA_KEY btrfs_abi = 108" by (simp add: btrfs_abi_def)
  then have "extent_refs_in small_kernel small_tree 5 257 0 131071 = [small_ref]"
    by (simp add: extent_refs_in_def small_range_items small_file_extent_ref)
  then show ?thesis
    by (simp add: refs_of_def small_data_ref_def MAX_COMPRESSED_BYTES_def wanted_def small_ref_def max_def)
qed

lemma small_count: "d_count small_data_ref = 1"
  by (simp add: small_data_ref_def)

lemma small_collect:
  "\<exists>p. collect small_kernel 65536 8192 [small_data_ref] (sample_sys ()) =
     (Inr [small_ref], (sample_sys ())\<lparr>searchargs_pool := p\<rparr>)"
  using collect_run [OF small_serving, where disk_address = 65536 and disk_bytes = 8192
      and data_refs = "[small_data_ref]"]
  by (auto simp: small_refs_of Let_def small_count)

lemma collect_exact_witness:
  "\<exists>p. collect small_kernel 65536 8192 [small_data_ref] (sample_sys ()) =
     (Inr [small_ref], (sample_sys ())\<lparr>searchargs_pool := p\<rparr>)"
  using collect_exact [OF small_serving, where disk_address = 65536 and disk_bytes = 8192
      and data_refs = "[small_data_ref]"]
  by (simp add: small_refs_of Let_def small_count)

lemma collect_sound_witness:
  "[small_ref] \<noteq> [] \<and> (\<exists>rss. [small_ref] = concat rss \<and>
     list_all2 (\<lambda>d rs. of_nat (length rs) = d_count d \<and> list_all (ref_matches 65536 8192 d) rs)
       [small_data_ref] rss)"
proof -
  obtain p where "collect small_kernel 65536 8192 [small_data_ref] (sample_sys ()) =
     (Inr [small_ref], (sample_sys ())\<lparr>searchargs_pool := p\<rparr>)"
    using small_collect by blast
  then show ?thesis by (rule collect_sound)
qed

section \<open>The backreference walk's answer\<close>

abbreviation file_of :: "u64 \<times> u64 \<times> u64 \<Rightarrow> u64 \<times> u64" where
  "file_of t \<equiv> (fst t, fst (snd t))"

interpretation triple_groups: sorted_grouping file_of "\<lambda>d. (d_root d, d_inode d)" triple_ref grow_ref
  by unfold_locales (auto simp: triple_ref_def grow_ref_def split: prod.splits)

text \<open>The reference standing for all the items of one file.\<close>

definition file_ref :: "u64 \<times> u64 \<Rightarrow> u64 list \<Rightarrow> data_ref" where
  "file_ref f offsets =
     \<lparr>d_root = fst f, d_inode = snd f, d_at = Between (hd offsets) (last offsets),
      d_count = of_nat (length offsets)\<rparr>"

lemma grow_refs:
  "foldl grow_ref (triple_ref t) ts =
     \<lparr>d_root = fst t, d_inode = fst (snd t),
      d_at = Between (snd (snd t)) (last (map (snd \<circ> snd) (t # ts))), d_count = of_nat (length (t # ts))\<rparr>"
  by (induction ts rule: rev_induct) (auto simp: triple_ref_def grow_ref_def split: prod.splits)

lemma sort_offsets:
  assumes "\<forall>t \<in> set ts. file_of t = f" and "sorted ts"
  shows "sorted (map (snd \<circ> snd) ts)"
  using assms
proof (induction ts)
  case (Cons t ts)
  then show ?case
    by (cases t) (force simp: less_eq_prod_def)
qed simp

lemma sorted_files: "sorted (map file_of (sort ts))"
proof -
  have "file_of t \<le> file_of t'" if "t \<le> t'" for t t' :: "u64 \<times> u64 \<times> u64"
    using that by (cases t; cases t') (auto simp: less_eq_prod_def)
  then show ?thesis
    unfolding sorted_map using sorted_sort [of ts] by (blast intro: sorted_wrt_mono_rel)
qed

lemma offsets_of_file:
  "map (snd \<circ> snd) (filter (\<lambda>t. file_of t = f) (sort ts)) = sort (map (snd \<circ> snd) (filter (\<lambda>t. file_of t = f) ts))"
proof -
  have "sorted (filter (\<lambda>t. file_of t = f) (sort ts))" by (rule sorted_wrt_filter) simp
  then have "sorted (map (snd \<circ> snd) (filter (\<lambda>t. file_of t = f) (sort ts)))"
    by (intro sort_offsets [of _ f]) simp
  moreover have "mset (filter (\<lambda>t. file_of t = f) (sort ts)) = mset (filter (\<lambda>t. file_of t = f) ts)"
    by (simp add: mset_filter)
  then have "mset (map (snd \<circ> snd) (filter (\<lambda>t. file_of t = f) (sort ts))) =
      mset (map (snd \<circ> snd) (filter (\<lambda>t. file_of t = f) ts))"
    by (simp only: mset_map)
  ultimately show ?thesis by (rule properties_for_sort [symmetric, rotated])
qed

text \<open>
  However the backreference walk orders its triples, they come out as one reference per file,
  in order of subvolume and inode, whose count is the number of the file's triples and whose stretch
  runs from the first to the last of their offsets.
\<close>

lemma triples_to_refs_per_file:
  "triples_to_refs (sort ts) =
     map (\<lambda>f. file_ref f (sort (map (snd \<circ> snd) (filter (\<lambda>t. file_of t = f) ts))))
       (sorted_list_of_set (set (map file_of ts)))"
proof -
  have "triple_groups.build (filter (\<lambda>t. file_of t = f) (sort ts)) =
      file_ref f (sort (map (snd \<circ> snd) (filter (\<lambda>t. file_of t = f) ts)))" if "f \<in> set (map file_of ts)" for f
  proof (cases "filter (\<lambda>t. file_of t = f) (sort ts)")
    case Nil
    with that show ?thesis by (auto simp: filter_empty_conv)
  next
    case (Cons t rest)
    then have "file_of t = f" by (metis (mono_tags, lifting) list.set_intros(1) mem_Collect_eq set_filter)
    then show ?thesis
      unfolding offsets_of_file [symmetric] Cons
      by (auto simp: triple_groups.build_def grow_refs file_ref_def)
  qed
  then show ?thesis
    unfolding triples_to_refs_def triple_groups.groups_by_key [OF sorted_files] by simp
qed

text \<open>What the ioctl documents: as many triples as fit behind the 16 bytes of header are written, and
  the bytes the others would take are reported as missing.\<close>

definition walks_to :: "('w, 'f) kernel \<Rightarrow> 'w \<Rightarrow> u64 \<Rightarrow> (u64 \<times> u64 \<times> u64) list \<Rightarrow> bool" where
  "walks_to K w disk_address found \<longleftrightarrow>
     (\<forall>bytes \<ge> 16. \<exists>filled.
        k_logical_ino K disk_address bytes (replicate ((bytes + 7) div 8) 0) w = (Inr filled, w) \<and>
        2 \<le> length filled \<and> length filled \<le> (bytes + 7) div 8 \<and>
        drop_bit 32 (filled ! 0) = of_nat (24 * (length found - (bytes - 16) div 24)) \<and>
        (length found \<le> (bytes - 16) div 24 \<longrightarrow>
           (ucast (filled ! 1) :: u32) = of_nat (3 * length found) \<and>
           take (3 * length found) (drop 2 filled) = concat (map (\<lambda>(i, off, r). [i, off, r]) found)))"

definition by_file :: "(u64 \<times> u64 \<times> u64) list \<Rightarrow> (u64 \<times> u64 \<times> u64) list" where
  "by_file found = sort (map (\<lambda>(inode, offset, root). (root, inode, offset)) found)"

lemma chunks3_concat: "chunks3 (length ts) (concat (map (\<lambda>(a, b, c). [a, b, c]) ts) @ rest) = ts"
  by (induction ts) auto

lemma logical_ino_call_walks:
  assumes "walks_to K (world s) disk_address found" and "16 \<le> bytes" and "length found < 2 ^ 27"
  obtains buf where "logical_ino_call K disk_address bytes s = (Inr buf, s)"
    and "unat (drop_bit 32 (buf ! 0)) = 24 * (length found - (bytes - 16) div 24)"
    and "length found \<le> (bytes - 16) div 24 \<longrightarrow> answer_triples buf = by_file found"
proof -
  let ?m = "(bytes + 7) div 8" and ?n = "length found"
  obtain filled where call: "k_logical_ino K disk_address bytes (replicate ?m 0) (world s) = (Inr filled, world s)"
    and len: "2 \<le> length filled" "length filled \<le> ?m"
    and missing: "drop_bit 32 (filled ! 0) = of_nat (24 * (?n - (bytes - 16) div 24))"
    and elems: "?n \<le> (bytes - 16) div 24 \<Longrightarrow> (ucast (filled ! 1) :: u32) = of_nat (3 * ?n) \<and>
           take (3 * ?n) (drop 2 filled) = concat (map (\<lambda>(i, off, r). [i, off, r]) found)"
    using assms(1,2) unfolding walks_to_def by blast
  define buf where "buf = filled @ replicate (?m - length filled) 0"
  have "logical_ino_call K disk_address bytes s = (Inr buf, s)"
    using call len by (simp add: logical_ino_call_def matchE_def sys_call_def ret_def buf_def)
  moreover have "unat (drop_bit 32 (buf ! 0)) = 24 * (?n - (bytes - 16) div 24)"
  proof -
    have "buf ! 0 = filled ! 0" using len by (cases filled) (simp_all add: buf_def)
    then show ?thesis
      using assms(3) unfolding missing by (simp add: missing unat_of_nat del: of_nat_mult)
  qed
  moreover have "answer_triples buf = by_file found" if "?n \<le> (bytes - 16) div 24"
  proof -
    from elems [OF that] have cnt: "(ucast (filled ! 1) :: u32) = of_nat (3 * ?n)"
      and val: "take (3 * ?n) (drop 2 filled) = concat (map (\<lambda>(i, off, r). [i, off, r]) found)" by auto
    have one: "buf ! 1 = filled ! 1" using len by (simp add: buf_def nth_append)
    have "unat (ucast (buf ! 1) :: u32) = 3 * ?n"
      using assms(3) unfolding one cnt by (simp add: unat_of_nat del: of_nat_mult)
    moreover have "drop 2 buf = concat (map (\<lambda>(i, off, r). [i, off, r]) found)
        @ (drop (3 * ?n) (drop 2 filled) @ replicate (?m - length filled) 0)"
      using len by (simp add: buf_def val [symmetric] del: drop_drop)
    ultimately show ?thesis
      by (simp add: answer_triples_def by_file_def chunks3_concat)
  qed
  ultimately show thesis using that by blast
qed

lemma logical_ino_run:
  assumes "walks_to K (world s) disk_address found" and "length found < 2 ^ 27"
  shows "logical_ino K disk_address s =
    (if 16 + 24 * length found \<le> LOGICAL_INO_MAX_SIZE then Inr (triples_to_refs (by_file found))
     else Inl (Raise (other_error ''extent has more backreferences than fit in one lookup'')), s)"
proof -
  let ?n = "length found"
  have fits: "logical_ino_loop K disk_address bytes s = (Inr (triples_to_refs (by_file found)), s)"
    if big: "16 \<le> bytes" "?n \<le> (bytes - 16) div 24" for bytes
  proof -
    obtain buf where "logical_ino_call K disk_address bytes s = (Inr buf, s)"
      "unat (drop_bit 32 (buf ! 0)) = 24 * (?n - (bytes - 16) div 24)"
      "?n \<le> (bytes - 16) div 24 \<longrightarrow> answer_triples buf = by_file found"
      by (rule logical_ino_call_walks [OF assms(1) big(1) assms(2)])
    with big show ?thesis
      by (simp add: logical_ino_loop.simps [of K disk_address bytes] bindE_def ret_def)
  qed
  show ?thesis
  proof (cases "?n \<le> 170")
    case True
    with fits [of 4096] show ?thesis
      by (simp add: logical_ino_def LOGICAL_INO_START_SIZE_def LOGICAL_INO_MAX_SIZE_def)
  next
    case False
    obtain buf where call: "logical_ino_call K disk_address 4096 s = (Inr buf, s)"
      and missing: "unat (drop_bit 32 (buf ! 0)) = 24 * (?n - (4096 - 16) div 24)"
      using logical_ino_call_walks [OF assms(1) _ assms(2), of 4096] by auto
    have more: "4096 + unat (drop_bit 32 (buf ! 0)) = 16 + 24 * ?n" "0 < unat (drop_bit 32 (buf ! 0))"
      using missing False by simp_all
    show ?thesis
      unfolding logical_ino_def LOGICAL_INO_START_SIZE_def logical_ino_loop.simps [of K disk_address 4096]
        bindE_def call Let_def more(1)
      using more(2) fits [of "16 + 24 * ?n"] by (simp add: stop_def not_le more(1))
  qed
qed


lemma small_walks_to: "walks_to small_kernel () 65536 [(257, 0, 5)]"
  unfolding walks_to_def
proof (intro allI impI)
  fix bytes :: nat assume bytes: "16 \<le> bytes"
  show "\<exists>filled.
        k_logical_ino small_kernel 65536 bytes (replicate ((bytes + 7) div 8) 0) () = (Inr filled, ()) \<and>
        2 \<le> length filled \<and> length filled \<le> (bytes + 7) div 8 \<and>
        drop_bit 32 (filled ! 0) = of_nat (24 * (length [(257, 0, 5)] - (bytes - 16) div 24)) \<and>
        (length [(257, 0, 5)] \<le> (bytes - 16) div 24 \<longrightarrow>
           (ucast (filled ! 1) :: u32) = of_nat (3 * length [(257, 0, 5)]) \<and>
           take (3 * length [(257, 0, 5)]) (drop 2 filled) = concat (map (\<lambda>(i, off, r). [i, off, r]) [(257, 0, 5)]))"
  proof (cases "40 \<le> bytes")
    case True
    then have "1 \<le> (bytes - 16) div 24" "5 \<le> (bytes + 7) div 8" by linarith+
    with True show ?thesis
      by (intro exI [of _ "[0, 3, 257, 0, 5]"]) (simp add: small_kernel_simps)
  next
    case False
    then have "(bytes - 16) div 24 = 0" "2 \<le> (bytes + 7) div 8" using bytes by auto
    with False show ?thesis
      by (intro exI [of _ "[push_bit 32 24, 0]"]) (simp add: small_kernel_simps)
  qed
qed

definition small_walk_ref :: data_ref where
  "small_walk_ref = \<lparr>d_root = 5, d_inode = 257, d_at = Between 0 0, d_count = 1\<rparr>"


section \<open>Which account is trusted\<close>

text \<open>Preservation through the functions above, for any property that searching keeps.\<close>

context searched begin

lemma keeps_data_ref_extents: "preserves I (data_ref_extents K d a n refs)"
  by (auto simp: data_ref_extents_def search_extent_refs_def Let_def intro!: preserve keeps_search_all)

lemma keeps_collect: "preserves I (collect K a n data_refs)"
  unfolding collect_def by (intro preserve keeps_data_ref_extents)

lemma keeps_inode_holds_extent: "preserves I (inode_holds_extent K root inode frm to a)"
  unfolding inode_holds_extent_def search_extent_refs_def by (rule keeps_search_all)

end

text \<open>The snapshots read for a batch are only added to.\<close>

lemma last_snapshot_reads:
  assumes "last_snapshot K root s = (Inr g, s')"
  shows "last_snapshots s' root = Some g \<and> last_snapshots s \<subseteq>\<^sub>m last_snapshots s'"
proof (cases "last_snapshots s root")
  case (Some g')
  then show ?thesis using assms by (auto simp: last_snapshot_def bindE_Inr)
next
  case None
  with assms obtain s1 where
    "searching (ROOT_TREE_OBJECTID K) (root, ROOT_ITEM_KEY K, 0) (root, ROOT_ITEM_KEY K, - 1)
       (search_all K (\<lambda>_ item _. Inr (read_struct u64_layout item (root_item_last_snapshot K))) None) s
     = (Inr (Some g), s1)" "s' = s1\<lparr>last_snapshots := (last_snapshots s1)(root \<mapsto> g)\<rparr>"
    by (auto simp: last_snapshot_def bindE_Inr split: option.splits)
  moreover from this have "last_snapshots s1 = last_snapshots s"
    using preserves_end [OF snapshots.keeps_search_all [where l = "last_snapshots s"]] by metis
  ultimately show ?thesis using None by (auto simp: map_le_def)
qed

definition unshared :: "'w sys \<Rightarrow> extent_ref \<Rightarrow> bool" where
  "unshared s r \<longleftrightarrow> (\<exists>g. last_snapshots s (r_root r) = Some g \<and> g < r_leaf_generation r)"

lemma unshared_mono: "unshared s r \<Longrightarrow> last_snapshots s \<subseteq>\<^sub>m last_snapshots s' \<Longrightarrow> unshared s' r"
  unfolding unshared_def map_le_def by (metis domI)

lemma may_be_shared_False:
  "may_be_shared K refs s = (Inr False, s') \<Longrightarrow>
     list_all (unshared s') refs \<and> last_snapshots s \<subseteq>\<^sub>m last_snapshots s'"
proof (induction refs arbitrary: s)
  case Nil
  then show ?case by (simp add: may_be_shared_def)
next
  case (Cons r refs)
  from Cons.prems obtain g s1 where one: "last_snapshot K (r_root r) s = (Inr g, s1)"
    and newer: "\<not> r_leaf_generation r \<le> g" and rest: "may_be_shared K refs s1 = (Inr False, s')"
    by (auto simp: may_be_shared_def bindE_Inr split: if_splits)
  from last_snapshot_reads [OF one] newer have "unshared s1 r" "last_snapshots s \<subseteq>\<^sub>m last_snapshots s1"
    by (auto simp: unshared_def not_le)
  with Cons.IH [OF rest] show ?case
    by (auto intro: unshared_mono map_le_trans)
qed

text \<open>
  C26: An extent's references come from one of two places. Either the extent tree named every file,
  the items found there added up, and each was read from a leaf newer than the last snapshot of its
  subvolume, so that no other tree can share it; or they come from the backreference walk.
\<close>

theorem resolve_trusts_unshared_leaves:
  assumes "resolve K disk_address item backrefs s = (Inr refs, s')"
  shows "(\<exists>data_refs t. backrefs = Files data_refs \<and>
            collect K disk_address (x_disk_bytes item) data_refs s = (Inr refs, t) \<and>
            list_all (unshared s') refs)
         \<or> (\<exists>t. resolve_by_walk K disk_address (x_disk_bytes item) t = (Inr refs, s'))"
proof (cases backrefs)
  case (Files data_refs)
  then show ?thesis
    using assms by (auto simp: resolve_def matchE_Inr bindE_Inr dest: may_be_shared_False split: if_splits)
next
  case Opaque
  then show ?thesis using assms by (auto simp: resolve_def)
qed

lemma collected_here:
  assumes "collect K disk_address disk_bytes data_refs s = (Inr refs, s')"
  shows "refs \<noteq> [] \<and> list_all (\<lambda>r. r_disk_address r = disk_address \<and> r_disk_bytes r = disk_bytes) refs"
proof -
  obtain rss where refs: "refs = concat rss" and rss: "list_all2 (collected disk_address disk_bytes) data_refs rss"
    using collect_parts(2) [OF assms] by blast
  have "r_disk_address r = disk_address \<and> r_disk_bytes r = disk_bytes" if "rs \<in> set rss" "r \<in> set rs" for rs r
  proof -
    from that(1) obtain i where i: "i < length rss" "rs = rss ! i" by (auto simp: in_set_conv_nth)
    with rss have "list_all (ref_matches disk_address disk_bytes (data_refs ! i)) rs"
      by (simp add: list_all2_conv_all_nth)
    with that(2) show ?thesis by (auto simp: list_all_iff ref_matches_def wanted_def)
  qed
  then show ?thesis using collect_parts(1) [OF assms] by (auto simp: refs list_all_iff)
qed

lemma resolve_by_walk_here:
  assumes "resolve_by_walk K disk_address disk_bytes s = (Inr refs, s')"
  shows "refs \<noteq> [] \<and> list_all (\<lambda>r. r_disk_address r = disk_address \<and> r_disk_bytes r = disk_bytes) refs"
  using assms collected_here by (fastforce simp: resolve_by_walk_def bindE_Inr)

lemma resolve_here:
  assumes "resolve K disk_address item backrefs s = (Inr refs, s')"
  shows "refs \<noteq> [] \<and> list_all (\<lambda>r. r_disk_address r = disk_address \<and> r_disk_bytes r = x_disk_bytes item) refs"
proof (cases backrefs)
  case (Files data_refs)
  with assms consider t where "collect K disk_address (x_disk_bytes item) data_refs s = (Inr refs, t)"
    | t where "resolve_by_walk K disk_address (x_disk_bytes item) t = (Inr refs, s')"
    by (auto simp: resolve_def matchE_Inr bindE_Inr split: if_splits)
  then show ?thesis by cases (blast dest: collected_here resolve_by_walk_here)+
next
  case Opaque
  with assms show ?thesis by (intro resolve_by_walk_here) (simp add: resolve_def)
qed

lemma calm_searching [calm_intros]: "calm m \<Longrightarrow> calm (searching t lo hi m)"
  unfolding searching_def by (intro calm_intros)

lemma calm_collect [calm_intros]: "calm (collect K a n data_refs)"
  unfolding collect_def data_ref_extents_def search_extent_refs_def Let_def
  by (intro calm_intros) simp_all

lemma calm_last_snapshot [calm_intros]: "calm (last_snapshot K root)"
  unfolding last_snapshot_def by (intro calm_intros) simp_all

lemma calm_logical_ino [calm_intros]: "calm (logical_ino K a)"
proof -
  have "calm (logical_ino_loop K a n)" for n
  proof (induction K a n rule: logical_ino_loop.induct)
    case (1 K a n)
    have call: "calm (logical_ino_call K a n)"
      unfolding logical_ino_call_def Let_def by (intro calm_intros) simp_all
    show ?case
      unfolding logical_ino_loop.simps [of K a n] Let_def
      by (rule calm_bindE [OF call]) (auto intro!: calm_intros 1)
  qed
  then show ?thesis by (simp add: logical_ino_def)
qed

lemma calm_resolve [calm_intros]: "calm (resolve K a item backrefs)"
proof -
  have "calm (resolve_by_walk K a n)" for n
    unfolding resolve_by_walk_def by (intro calm_intros)
  then show ?thesis
    unfolding resolve_def may_be_shared_def
    by (cases backrefs) (auto intro!: calm_intros)
qed

lemma from_refs_here:
  assumes "refs \<noteq> [] \<and> list_all (\<lambda>r. r_disk_address r = a \<and> r_disk_bytes r = n) refs"
  obtains e where "from_refs refs = Some e" "e_disk_address e = a" "e_disk_bytes e = n" "e_refs e = refs"
  using assms by (cases refs) (auto simp: from_refs_def Extent_new_def)

lemma calm_resolve_again [calm_intros]: "calm (resolve_again K e)"
  unfolding resolve_again_def
proof (rule calm_bind [OF calm_logical_ino], rule calm_bindE [OF calm_collect], rule calm_unwrap)
  fix data_refs refs t t' assume "collect K (e_disk_address e) (e_disk_bytes e) data_refs t = (Inr refs, t')"
  then show "from_refs refs \<noteq> None" using from_refs_here [OF collected_here] by blast
qed

lemma resolve_again_wp:
  "wp (resolve_again K e)
     (\<lambda>e' _. e_disk_address e' = e_disk_address e \<and> e_disk_bytes e' = e_disk_bytes e \<and> e_refs e' \<noteq> [] \<and>
       list_all (\<lambda>r. r_disk_address r = e_disk_address e \<and> r_disk_bytes r = e_disk_bytes e) (e_refs e'))
     (\<lambda>q _. q \<noteq> Panic) s"
proof (rule wpI)
  fix e' s' assume "resolve_again K e s = (Inr e', s')"
  then obtain data_refs t refs where
    "collect K (e_disk_address e) (e_disk_bytes e) data_refs t = (Inr refs, s')" "from_refs refs = Some e'"
    by (auto simp: resolve_again_def bindE_Inr)
  moreover note here = collected_here [OF this(1)]
  moreover obtain e'' where "from_refs refs = Some e''" "e_disk_address e'' = e_disk_address e"
    "e_disk_bytes e'' = e_disk_bytes e" "e_refs e'' = refs"
    by (rule from_refs_here [OF here])
  ultimately show "e_disk_address e' = e_disk_address e \<and> e_disk_bytes e' = e_disk_bytes e \<and> e_refs e' \<noteq> [] \<and>
       list_all (\<lambda>r. r_disk_address r = e_disk_address e \<and> r_disk_bytes r = e_disk_bytes e) (e_refs e')"
    by simp
next
  fix q s' assume "resolve_again K e s = (Inl q, s')"
  then show "q \<noteq> Panic" by (rule calmD [OF calm_resolve_again])
qed

text \<open>
  Resolving an extent again, as is done before it is rewritten and after, gives the same extent:
  of the same address and size, with at least one reference, every one of them into it. An extent
  with no reference left is an error, never a panic.
\<close>

lemma resolve_again_same_extent:
  "wp (resolve_again K e)
     (\<lambda>e' _. e_disk_address e' = e_disk_address e \<and> e_disk_bytes e' = e_disk_bytes e \<and> e_refs e' \<noteq> [] \<and>
       list_all (\<lambda>r. r_disk_address r = e_disk_address e \<and> r_disk_bytes r = e_disk_bytes e) (e_refs e'))
     (\<lambda>q _. q \<noteq> Panic) s"
  by (rule resolve_again_wp)

text \<open>The root item's field, where searches are served.\<close>

definition snapshot_of :: "'z abi_scheme \<Rightarrow> (u64 \<Rightarrow> item list) \<Rightarrow> u64 \<Rightarrow> u64 option" where
  "snapshot_of A tree root =
     foldl (\<lambda>_ i. read_struct u64_layout (snd i) (root_item_last_snapshot A)) None
       (range_items tree (ROOT_TREE_OBJECTID A) (root, ROOT_ITEM_KEY A, 0) (root, ROOT_ITEM_KEY A, - 1))"

lemma last_snapshot_run:
  assumes "serving K tree s" and "last_snapshots s root = None" and "snapshot_of K tree root = Some g"
  obtains s' where "last_snapshot K root s = (Inr g, s')" "serving K tree s'"
proof -
  obtain p where run: "searching (ROOT_TREE_OBJECTID K) (root, ROOT_ITEM_KEY K, 0) (root, ROOT_ITEM_KEY K, - 1)
       (search_all K (\<lambda>_ item _. Inr (read_struct u64_layout item (root_item_last_snapshot K))) None) s
     = (Inr (snapshot_of K tree root), s\<lparr>searchargs_pool := p\<rparr>)"
    and ok: "serving K tree (s\<lparr>searchargs_pool := p\<rparr>)"
    unfolding snapshot_of_def by (rule searching_fold [OF assms(1)])
  show thesis
    by (rule that [of "s\<lparr>searchargs_pool := p, last_snapshots := (last_snapshots s)(root \<mapsto> g)\<rparr>"])
       (use run ok in \<open>simp_all add: last_snapshot_def bindE_def getS_def modifyS_def ret_def assms\<close>)
qed

definition small_extent_item :: extent_item where
  "small_extent_item = \<lparr>x_disk_bytes = 8192, x_refs = 1, x_generation = 9\<rparr>"

lemma small_snapshot: "snapshot_of small_kernel small_tree 5 = Some 3"
proof -
  have "range_items small_tree 1 (5, 132, 0) (5, 132, - 1) = [root_item_5]"
    by (simp add: range_items_def small_tree_def item_key_def root_item_5_def tree_key_le)
  moreover have "ROOT_TREE_OBJECTID btrfs_abi = 1" "ROOT_ITEM_KEY btrfs_abi = 132"
    "root_item_last_snapshot btrfs_abi = 200"
    by (simp_all add: btrfs_abi_def)
  ultimately show ?thesis
    by (simp add: snapshot_of_def)
       (simp add: root_item_5_def read_struct_def u64_layout_def le_field_def)
qed

lemma small_resolve:
  "\<exists>s'. resolve small_kernel 65536 small_extent_item (Files [small_data_ref]) (sample_sys ()) = (Inr [small_ref], s')"
proof -
  obtain p where collect: "collect small_kernel 65536 8192 [small_data_ref] (sample_sys ()) =
     (Inr [small_ref], (sample_sys ())\<lparr>searchargs_pool := p\<rparr>)"
    and ok: "serving small_kernel small_tree ((sample_sys ())\<lparr>searchargs_pool := p\<rparr>)"
    using collect_run [OF small_serving, where disk_address = 65536 and disk_bytes = 8192
      and data_refs = "[small_data_ref]"]
    by (auto simp: small_refs_of Let_def small_count)
  obtain s' where "last_snapshot small_kernel 5 ((sample_sys ())\<lparr>searchargs_pool := p\<rparr>) = (Inr 3, s')"
    by (rule last_snapshot_run [OF ok _ small_snapshot]) simp
  then show ?thesis
    using collect
    by (simp add: resolve_def matchE_def may_be_shared_def bindE_def small_extent_item_def)
       (simp add: small_ref_def ret_def)
qed

lemma resolve_trusts_unshared_leaves_witness:
  "\<exists>s'. resolve small_kernel 65536 small_extent_item (Files [small_data_ref]) (sample_sys ()) = (Inr [small_ref], s')
     \<and> ((\<exists>data_refs t. Files [small_data_ref] = Files data_refs \<and>
            collect small_kernel 65536 (x_disk_bytes small_extent_item) data_refs (sample_sys ()) = (Inr [small_ref], t) \<and>
            list_all (unshared s') [small_ref])
         \<or> (\<exists>t. resolve_by_walk small_kernel 65536 (x_disk_bytes small_extent_item) t = (Inr [small_ref], s')))"
proof -
  obtain s' where run: "resolve small_kernel 65536 small_extent_item (Files [small_data_ref]) (sample_sys ())
      = (Inr [small_ref], s')"
    using small_resolve by blast
  from resolve_trusts_unshared_leaves [OF this] run show ?thesis by (intro exI [of _ s'] conjI)
qed

end
