(* ===== verification/Walk.thy ===== *)
theory Walk
  imports Resolve
begin

unbundle bit_operations_syntax

text \<open>
  The walk over the extent tree of src/kernel.rs: reading it batch by batch (\<open>extent_batch\<close>), and
  handing over the extents of a batch resolved (\<open>ExtentWalk\<close>).

  A batch is resolved on several threads at once in the program; the model resolves it in order
  (the theory Parallel shows that another order gives the same), which is also the order the results are collected in.
\<close>

section \<open>Walking the extent tree\<close>

record unresolved =
  u_disk_address :: u64
  u_item :: extent_item
  u_backrefs :: backrefs

datatype resolved = ResolvedExtent extent | ResolvedLeftAlone u64 io_error

record extent_walk =
  w_next :: "u64 option"
  w_generation :: u64
  w_batch :: "resolved list"

definition tally_at :: "('w, 'f) kernel \<Rightarrow> u64 \<Rightarrow> ('w, tally) io" where
  "tally_at K address =
     searching (EXTENT_TREE_OBJECTID K)
       (address, EXTENT_ITEM_KEY K, 0) (address, SHARED_DATA_REF_KEY K, - 1)
       (search_all K (\<lambda>header item t.
          Inr (if is_extent_key K (sh_type header) then add_item K (sh_type header) (sh_offset header) item t
               else t)) Tally_default)"

text \<open>The callback of \<open>extent_batch\<close>: the item goes to the tally of its extent.\<close>

definition new_tally :: "'z abi_scheme \<Rightarrow> search_header \<times> u8 list \<Rightarrow> u64 \<times> tally" where
  "new_tally A i =
     (sh_objectid (fst i), add_item A (sh_type (fst i)) (sh_offset (fst i)) (snd i) Tally_default)"

definition grow_tally :: "'z abi_scheme \<Rightarrow> u64 \<times> tally \<Rightarrow> search_header \<times> u8 list \<Rightarrow> u64 \<times> tally" where
  "grow_tally A at i =
     (fst at, add_item A (sh_type (fst i)) (sh_offset (fst i)) (snd i) (snd at))"

definition batch_each :: "'z abi_scheme \<Rightarrow> (u64 \<times> tally) list each" where
  "batch_each A header item tallies =
     Inr (if \<not> is_extent_key A (sh_type header) then tallies
          else absorb1 (\<lambda>at i. fst at = sh_objectid (fst i)) (grow_tally A) (new_tally A) tallies (header, item))"

definition unresolved_of :: "u64 \<Rightarrow> u64 \<times> tally \<Rightarrow> unresolved option" where
  "unresolved_of generation at =
     (case finish (snd at) of
        None \<Rightarrow> None
      | Some (item, backrefs) \<Rightarrow>
          if x_generation item \<le> generation
          then Some \<lparr>u_disk_address = fst at, u_item = item, u_backrefs = backrefs\<rparr>
          else None)"

text \<open>The search of one batch: a single call, read once.\<close>

definition batch_search ::
  "('w, 'f) kernel \<Rightarrow> u64 \<Rightarrow> ('w, search_header option \<times> bool \<times> (u64 \<times> tally) list) io"
where
  "batch_search K from =
     searching (EXTENT_TREE_OBJECTID K)
       (from, EXTENT_ITEM_KEY K, 0) (- 1, SHARED_DATA_REF_KEY K, - 1)
       (bindE (search K) (\<lambda>_.
        bindE getS (\<lambda>(args, _).
        case items K args (batch_each K) [] of Inl e \<Rightarrow> raise e | Inr x \<Rightarrow> ret x)))"

definition extent_batch ::
  "('w, 'f) kernel \<Rightarrow> u64 \<Rightarrow> u64 \<Rightarrow> ('w, unresolved list \<times> u64 option) io"
where
  "extent_batch K from generation =
     bindE (modifyS (\<lambda>s. s\<lparr>last_snapshots := Map.empty\<rparr>)) (\<lambda>_.
     bindE (batch_search K from) (\<lambda>(lst, complete, tallies).
     bindE (case lst of
              Some lst \<Rightarrow>
                if \<not> complete then
                  (let tallies = (if tallies \<noteq> [] \<and> fst (last tallies) = sh_objectid lst
                                  then butlast tallies else tallies)
                   in bindE (tally_at K (sh_objectid lst)) (\<lambda>t.
                      ret (tallies @ [(sh_objectid lst, t)],
                           if sh_objectid lst = - 1 then None else Some (sh_objectid lst + 1))))
                else ret (tallies, None)
            | None \<Rightarrow> ret (tallies, None)) (\<lambda>(tallies, next).
     ret (List.map_filter (unresolved_of generation) tallies, next))))"

definition resolve_unresolved :: "('w, 'f) kernel \<Rightarrow> unresolved \<Rightarrow> ('w, resolved) io" where
  "resolve_unresolved K u =
     matchE (resolve K (u_disk_address u) (u_item u) (u_backrefs u))
       (\<lambda>refs. bindE (unwrap (from_refs refs)) (\<lambda>e. ret (ResolvedExtent e)))
       (\<lambda>err. ret (ResolvedLeftAlone (u_disk_address u) err))"

text \<open>\<open><ExtentWalk as Iterator>::next\<close>.\<close>

fun walk_next_loop ::
  "('w, 'f) kernel \<Rightarrow> nat \<Rightarrow> extent_walk \<Rightarrow> ('w, (io_error + resolved) option \<times> extent_walk) io"
where
  "walk_next_loop K 0 w = stop NoReturn"
| "walk_next_loop K (Suc n) w =
     (case w_batch w of
        resolved # rest \<Rightarrow> ret (Some (Inr resolved), w\<lparr>w_batch := rest\<rparr>)
      | [] \<Rightarrow>
          (case w_next w of
             None \<Rightarrow> ret (None, w)
           | Some from \<Rightarrow>
               matchE (extent_batch K from (w_generation w))
                 (\<lambda>(batch, next).
                    bindE (mapE (resolve_unresolved K) batch) (\<lambda>resolved.
                    walk_next_loop K n (w\<lparr>w_batch := resolved, w_next := next\<rparr>)))
                 (\<lambda>e. ret (Some (Inl e), w\<lparr>w_next := None\<rparr>))))"

definition walk_next ::
  "('w, 'f) kernel \<Rightarrow> extent_walk \<Rightarrow> ('w, (io_error + resolved) option \<times> extent_walk) io"
where
  "walk_next K w = walk_next_loop K (rounds K) w"

section \<open>Starting the walk\<close>

definition sync :: "('w, 'f) kernel \<Rightarrow> 'f filesystem \<Rightarrow> ('w, unit) io" where
  "sync K fs = sys_call (k_syncfs K (fs_file fs))"

definition generation :: "('w, 'f) kernel \<Rightarrow> 'f filesystem \<Rightarrow> ('w, u64) io" where
  "generation K fs =
     bindE (sys_call (k_fs_info K (fs_file fs) (FS_INFO_FLAG_GENERATION K))) (\<lambda>(flags, gen).
     if flags AND FS_INFO_FLAG_GENERATION K = 0
     then raise (other_error ''this kernel is too old to report the filesystem's generation'')
     else ret gen)"

definition walk :: "('w, 'f) kernel \<Rightarrow> 'f filesystem \<Rightarrow> ('w, extent_walk) io" where
  "walk K fs =
     bindE (sync K fs) (\<lambda>_.
     bindE (generation K fs) (\<lambda>gen.
     ret \<lparr>w_next = Some 0, w_generation = gen, w_batch = []\<rparr>))"

section \<open>What the extent tree says of each extent\<close>

definition is_extent_item :: "'z abi_scheme \<Rightarrow> item \<Rightarrow> bool" where
  "is_extent_item A i \<longleftrightarrow> is_extent_key A (sh_type (fst i))"

definition tree_item :: "item \<Rightarrow> extent_tree_item" where
  "tree_item i = (sh_type (fst i), sh_offset (fst i), snd i)"

text \<open>The tally of all items at one address, and the extents from an address on that the walk is to
  hand over.\<close>

abbreviation address :: "item \<Rightarrow> u64" where
  "address i \<equiv> sh_objectid (fst i)"

definition account :: "'z abi_scheme \<Rightarrow> item list \<Rightarrow> u64 \<Rightarrow> u64 \<times> tally" where
  "account A its a = (a, tally_of A (map tree_item (filter (\<lambda>i. is_extent_item A i \<and> address i = a) its)))"

definition addresses :: "'z abi_scheme \<Rightarrow> item list \<Rightarrow> u64 set" where
  "addresses A its = address ` set (filter (is_extent_item A) its)"

definition extents_from :: "'z abi_scheme \<Rightarrow> u64 \<Rightarrow> item list \<Rightarrow> u64 \<Rightarrow> unresolved list" where
  "extents_from A gen its frm =
     List.map_filter (unresolved_of gen) (map (account A its) (sorted_list_of_set {a \<in> addresses A its. frm \<le> a}))"

interpretation tally_groups: sorted_grouping address fst "new_tally A" "grow_tally A" for A :: "'z abi_scheme"
  by unfold_locales (auto simp: new_tally_def grow_tally_def)

abbreviation build_tally :: "'z abi_scheme \<Rightarrow> item list \<Rightarrow> u64 \<times> tally" where
  "build_tally A \<equiv> run_grouping.build (new_tally A) (grow_tally A)"

lemma grow_tallies:
  "foldl (grow_tally A) (a, tally_of A (map tree_item pre)) its = (a, tally_of A (map tree_item (pre @ its)))"
proof (induction its arbitrary: pre)
  case (Cons i its)
  have "grow_tally A (a, tally_of A (map tree_item pre)) i = (a, tally_of A (map tree_item (pre @ [i])))"
    by (simp add: grow_tally_def tally_of_def tree_item_def)
  then show ?case using Cons.IH [of "pre @ [i]"] by simp
qed simp

lemma build_tally_of: "its \<noteq> [] \<Longrightarrow> build_tally A its = (address (hd its), tally_of A (map tree_item its))"
  using grow_tallies [of A "address (hd its)" "[hd its]" "tl its"]
  by (cases its) (simp_all add: tally_groups.build_def new_tally_def tally_of_def tree_item_def)

lemma tree_ok_addresses: "tree_ok its \<Longrightarrow> sorted (map address (filter P its))"
proof -
  assume "tree_ok its"
  then have "sorted_wrt (\<lambda>i j. item_key i < item_key j) (filter P its)"
    by (auto simp: tree_ok_def sorted_wrt_map intro: sorted_wrt_filter)
  then show ?thesis
    by (auto simp: sorted_wrt_map item_key_def tree_key_less elim!: sorted_wrt_mono_rel [rotated])
qed

text \<open>The tallies gathered from a sorted stretch of the tree are the accounts of its addresses.\<close>

lemma gathered:
  assumes "tree_ok its"
  shows "foldl (\<lambda>b i. if \<not> is_extent_key A (sh_type (fst i)) then b
            else absorb1 (\<lambda>at i. fst at = sh_objectid (fst i)) (grow_tally A) (new_tally A) b i) [] its
         = map (account A its) (sorted_list_of_set (addresses A its))"
proof -
  let ?ext = "filter (is_extent_item A) its"
  have "foldl (\<lambda>b i. if \<not> is_extent_key A (sh_type (fst i)) then b
            else absorb1 (\<lambda>at i. fst at = sh_objectid (fst i)) (grow_tally A) (new_tally A) b i) b its
        = foldl (absorb1 (\<lambda>at i. fst at = sh_objectid (fst i)) (grow_tally A) (new_tally A)) b ?ext" for b
    by (induction its arbitrary: b) (auto simp: is_extent_item_def)
  then have "foldl (\<lambda>b i. if \<not> is_extent_key A (sh_type (fst i)) then b
            else absorb1 (\<lambda>at i. fst at = sh_objectid (fst i)) (grow_tally A) (new_tally A) b i) [] its
        = absorb (\<lambda>at i. fst at = sh_objectid (fst i)) (grow_tally A) (new_tally A) ?ext"
    by (simp add: absorb_def)
  also have "\<dots> = map (\<lambda>a. build_tally A (filter (\<lambda>i. address i = a) ?ext))
      (sorted_list_of_set (set (map address ?ext)))"
    by (rule tally_groups.groups_by_key [OF tree_ok_addresses [OF assms]])
  also have "\<dots> = map (account A its) (sorted_list_of_set (set (map address ?ext)))"
  proof (rule map_cong [OF refl])
    fix a assume "a \<in> set (sorted_list_of_set (set (map address ?ext)))"
    then have ne: "filter (\<lambda>i. address i = a) ?ext \<noteq> []" by (auto simp: filter_empty_conv)
    then have "hd (filter (\<lambda>i. address i = a) ?ext) \<in> set (filter (\<lambda>i. address i = a) ?ext)" by (rule hd_in_set)
    then have "address (hd (filter (\<lambda>i. address i = a) ?ext)) = a" by simp
    with build_tally_of [OF ne, of A] show "build_tally A (filter (\<lambda>i. address i = a) ?ext) = account A its a"
      by (simp add: account_def conj_commute)
  qed
  finally show ?thesis by (simp add: addresses_def)
qed

text \<open>Items of one batch's range.\<close>

lemma extent_item_in_range:
  assumes "is_extent_item A i"
  shows "(frm, EXTENT_ITEM_KEY A, 0) \<le> item_key i \<and> item_key i \<le> (- 1, SHARED_DATA_REF_KEY A, - 1) \<longleftrightarrow>
     frm \<le> address i"
proof -
  have types: "EXTENT_ITEM_KEY A \<le> sh_type (fst i)" "sh_type (fst i) \<le> SHARED_DATA_REF_KEY A"
    using assms by (simp_all add: is_extent_item_def is_extent_key_def)
  have "item_key i \<le> (- 1, SHARED_DATA_REF_KEY A, - 1)"
    using types(2) word_order.not_eq_extremum [of "address i"] word_order.not_eq_extremum [of "sh_offset (fst i)"]
    by (auto simp: item_key_def tree_key_le order_le_less)
  moreover have "(frm, EXTENT_ITEM_KEY A, 0) \<le> item_key i \<longleftrightarrow> frm \<le> address i"
    using types(1) by (auto simp: item_key_def tree_key_le order_le_less word_gt_0)
  ultimately show ?thesis by simp
qed

lemma extent_items_range:
  "filter (is_extent_item A)
      (range_items tree t (frm, EXTENT_ITEM_KEY A, 0) (- 1, SHARED_DATA_REF_KEY A, - 1)) =
    filter (\<lambda>i. is_extent_item A i \<and> frm \<le> address i) (tree t)"
  unfolding range_items_def filter_filter
  by (rule filter_cong [OF refl]) (use extent_item_in_range in blast)

section \<open>One batch\<close>

lemma each_batch:
  "each_item (batch_each A) its b = Inr (foldl (\<lambda>b i. if \<not> is_extent_key A (sh_type (fst i)) then b
      else absorb1 (\<lambda>at i. fst at = sh_objectid (fst i)) (grow_tally A) (new_tally A) b i) b its)"
  by (induction its arbitrary: b) (auto simp: batch_each_def)

lemma tree_ok_append: "tree_ok (got @ rest) \<Longrightarrow> tree_ok got"
  by (auto simp: tree_ok_def sorted_wrt_append)

lemma tree_ok_range: "tree_ok (tree t) \<Longrightarrow> tree_ok (range_items tree t lo hi)"
  by (auto simp: range_items_def tree_ok_def sorted_wrt_map sorted_wrt_filter)

lemma batch_search_run:
  assumes "serving K tree s"
  obtains p got rest complete where
    "range_items tree (EXTENT_TREE_OBJECTID K) (frm, EXTENT_ITEM_KEY K, 0) (- 1, SHARED_DATA_REF_KEY K, - 1) = got @ rest"
    and "batch_search K frm s =
      (Inr (if got = [] then None else Some (fst (last got)), complete,
            map (account K got) (sorted_list_of_set (addresses K got))), s\<lparr>searchargs_pool := p\<rparr>)"
    and "serving K tree (s\<lparr>searchargs_pool := p\<rparr>)"
    and "complete \<or> got = [] \<longrightarrow> rest = []"
proof -
  let ?t = "EXTENT_TREE_OBJECTID K" and ?lo = "(frm, EXTENT_ITEM_KEY K, 0)"
    and ?hi = "(- 1, SHARED_DATA_REF_KEY K, - 1) :: tree_key"
  let ?its = "range_items tree ?t ?lo ?hi"
  obtain args s1 where take: "take_searchargs s = (args, s1)" by fastforce
  have ok: "args_ok args" using take_searchargs_ok [of s] assms take by (auto simp: serving_def)
  obtain p1 where s1: "s1 = s\<lparr>searchargs_pool := p1\<rparr>" using take_searchargs_pool [of s] take by auto
  let ?args = "set_range ?lo ?hi (set_tree ?t args)"
  obtain nr bytes stale where
    search: "search K (?args, s1) =
       (Inr (), (?args\<lparr>sa_key := (sa_key ?args)\<lparr>sk_nr_items := nr\<rparr>, sa_buf := bytes @ stale\<rparr>, s1))"
    and ans': "answers K (matching tree (sa_key ?args)) nr bytes" and len: "length (bytes @ stale) = BUF_SIZE"
    by (rule search_answers [of K tree s1 ?args]) (use assms ok in \<open>simp_all add: serving_def s1\<close>)
  note ans = ans' [unfolded matching_range]
  let ?args' = "?args\<lparr>sa_key := (sa_key ?args)\<lparr>sk_nr_items := nr\<rparr>, sa_buf := bytes @ stale\<rparr>"
  obtain got rest where split: "?its = got @ rest"
    and its: "items K ?args' (batch_each K) [] =
          (case each_item (batch_each K) got [] of
             Inl e \<Rightarrow> Inl e
           | Inr b' \<Rightarrow> Inr (if got = [] then None else Some (fst (last got)),
                           l_size (header_layout K) + MAX_ITEM_SIZE \<le> BUF_SIZE - length bytes, b'))"
    and some: "rest \<noteq> [] \<Longrightarrow> got \<noteq> []"
    and full: "rest \<noteq> [] \<Longrightarrow> BUF_SIZE < length bytes + l_size (header_layout K) + length (snd (hd rest))"
    using items_decodes [OF ans, of ?args' stale "batch_each K" "[]"] len by auto
  let ?complete = "l_size (header_layout K) + MAX_ITEM_SIZE \<le> BUF_SIZE - length bytes"
  have tree: "tree_ok ?its"
    using assms by (simp add: serving_def tree_ok_range)
  then have "tree_ok got" unfolding split by (rule tree_ok_append)
  with its have its': "items K ?args' (batch_each K) [] =
      Inr (if got = [] then None else Some (fst (last got)), ?complete,
           map (account K got) (sorted_list_of_set (addresses K got)))"
    by (simp add: each_batch gathered)
  have rest: "?complete \<or> got = [] \<longrightarrow> rest = []"
  proof (intro impI, rule ccontr)
    assume that: "?complete \<or> got = []" and ne: "rest \<noteq> []"
    then have "hd rest \<in> set ?its" by (simp add: split)
    with tree have "length (snd (hd rest)) \<le> MAX_ITEM_SIZE" by (simp add: tree_ok_def)
    with full [OF ne] some [OF ne] that show False by (simp add: MAX_ITEM_SIZE_def)
  qed
  let ?s' = "s\<lparr>searchargs_pool := p1 @ [?args']\<rparr>"
  have run: "batch_search K frm s = (Inr (if got = [] then None else Some (fst (last got)), ?complete,
           map (account K got) (sorted_list_of_set (addresses K got))), ?s')"
    using search its'
    by (simp add: batch_search_def searching_def with_searchargs_def take bindE_def modifyS_def getS_def
        ret_def drop_searchargs_def s1)
  have pres: "preserves pool_ok (batch_search K frm)"
    unfolding batch_search_def by (intro preserves_searching) (auto intro!: preserve split: prod.splits sum.splits)
  have "pool_ok ?s'"
    using preserves_end [OF pres _ run] assms by (simp add: serving_def)
  then have "serving K tree ?s'" using assms by (simp add: serving_def)
  with split run rest show thesis by (intro that)
qed

lemma tally_run:
  assumes "serving K tree s"
  obtains p where "tally_at K a s = (Inr (snd (account K (tree (EXTENT_TREE_OBJECTID K)) a)), s\<lparr>searchargs_pool := p\<rparr>)"
    and "serving K tree (s\<lparr>searchargs_pool := p\<rparr>)"
proof -
  let ?t = "EXTENT_TREE_OBJECTID K" and ?lo = "(a, EXTENT_ITEM_KEY K, 0)"
    and ?hi = "(a, SHARED_DATA_REF_KEY K, - 1) :: tree_key"
  have fold: "foldl (\<lambda>t i. if is_extent_key K (sh_type (fst i))
      then add_item K (sh_type (fst i)) (sh_offset (fst i)) (snd i) t else t) b its
    = foldl (\<lambda>t (key_type, key_offset, item). add_item K key_type key_offset item t) b
        (map tree_item (filter (is_extent_item K) its))" for b its
    by (induction its arbitrary: b) (auto simp: is_extent_item_def tree_item_def)
  have "filter (is_extent_item K) (range_items tree ?t ?lo ?hi) =
      filter (\<lambda>i. is_extent_item K i \<and> address i = a) (tree ?t)"
    unfolding range_items_def filter_filter
  proof (rule filter_cong [OF refl])
    fix i
    show "((?lo \<le> item_key i \<and> item_key i \<le> ?hi) \<and> is_extent_item K i) \<longleftrightarrow> is_extent_item K i \<and> address i = a"
      using word_order.not_eq_extremum [of "sh_offset (fst i)"]
      by (auto simp: is_extent_item_def is_extent_key_def item_key_def tree_key_le order_le_less word_gt_0)
  qed
  then show thesis
    using searching_fold [OF assms, of ?t ?lo ?hi "\<lambda>header item t. if is_extent_key K (sh_type header)
        then add_item K (sh_type header) (sh_offset header) item t else t" Tally_default] that
    by (auto simp: tally_at_def fold account_def tally_of_def)
qed

text \<open>Splitting the addresses at the last one reached.\<close>

lemma sorted_set_split:
  fixes S :: "u64 set"
  assumes "finite S"
  shows "sorted_list_of_set S =
    sorted_list_of_set {a \<in> S. a < l} @ (if l \<in> S then [l] else []) @ sorted_list_of_set {a \<in> S. l < a}"
    (is "_ = ?xs")
proof -
  have fin: "finite {a \<in> S. a < l}" "finite {a \<in> S. l < a}" using assms by auto
  have "sorted_wrt (<) ?xs"
    using fin by (auto simp: sorted_wrt_append strict_sorted_list_of_set)
  moreover have "set ?xs = S" using fin by auto
  ultimately show ?thesis
    using sorted_list_of_set.idem_if_sorted_distinct [of ?xs] by (auto simp only: strict_sorted_iff)
qed

lemma account_cong:
  "filter (\<lambda>i. is_extent_item A i \<and> address i = a) its = filter (\<lambda>i. is_extent_item A i \<and> address i = a) its'
     \<Longrightarrow> account A its a = account A its' a"
  by (simp add: account_def)

lemma unresolved_nothing:
  assumes "a \<notin> addresses A its"
  shows "unresolved_of gen (account A its a) = None"
proof -
  have "filter (\<lambda>i. is_extent_item A i \<and> address i = a) its = []"
    using assms by (auto simp: addresses_def filter_empty_conv)
  then show ?thesis
    by (simp add: account_def unresolved_of_def tally_of_def finish_def Tally_default_def)
qed

text \<open>The batch as the source puts it together from what the search gave.\<close>

lemma map_filter_append: "List.map_filter f (xs @ ys) = List.map_filter f xs @ List.map_filter f ys"
  by (simp add: List.map_filter_def)

lemma finite_addresses [simp]: "finite (addresses A its)"
  by (simp add: addresses_def)

lemma whole_batch:
  assumes "filter (is_extent_item A) got = filter (\<lambda>i. is_extent_item A i \<and> frm \<le> address i) its"
  shows "List.map_filter (unresolved_of gen) (map (account A got) (sorted_list_of_set (addresses A got))) =
    extents_from A gen its frm"
proof -
  have "addresses A got = {a \<in> addresses A its. frm \<le> a}"
    unfolding addresses_def assms by auto
  moreover have "account A got a = account A its a" if "a \<in> {a \<in> addresses A its. frm \<le> a}" for a
  proof (rule account_cong)
    have "filter (\<lambda>i. is_extent_item A i \<and> address i = a) got = filter (\<lambda>i. address i = a) (filter (is_extent_item A) got)"
      by (simp add: conj_commute)
    also have "\<dots> = filter (\<lambda>i. is_extent_item A i \<and> address i = a) its"
      unfolding assms filter_filter using that by (intro filter_cong) auto
    finally show "filter (\<lambda>i. is_extent_item A i \<and> address i = a) got = filter (\<lambda>i. is_extent_item A i \<and> address i = a) its" .
  qed
  then have "map (account A got) (sorted_list_of_set {a \<in> addresses A its. frm \<le> a}) =
      map (account A its) (sorted_list_of_set {a \<in> addresses A its. frm \<le> a})"
    by (intro map_cong) simp_all
  ultimately show ?thesis
    by (simp only: extents_from_def)
qed

lemma partial_batch:
  assumes ext: "filter (is_extent_item A) got @ filter (is_extent_item A) rest =
      filter (\<lambda>i. is_extent_item A i \<and> frm \<le> address i) its"
    and before: "\<forall>i \<in> set got. address i \<le> l" and after: "\<forall>i \<in> set rest. l \<le> address i" and "frm \<le> l"
    and tallies: "tallies = map (account A got) (sorted_list_of_set (addresses A got))"
  shows "List.map_filter (unresolved_of gen)
      ((if tallies \<noteq> [] \<and> fst (last tallies) = l then butlast tallies else tallies) @ [account A its l]) =
      List.map_filter (unresolved_of gen) (map (account A its)
        (sorted_list_of_set {a \<in> addresses A its. frm \<le> a \<and> a < l} @ (if l \<in> addresses A its then [l] else [])))"
proof -
  let ?low = "sorted_list_of_set {a \<in> addresses A its. frm \<le> a \<and> a < l}"
  have mem: "is_extent_item A i \<and> (i \<in> set got \<or> i \<in> set rest) \<longleftrightarrow>
      is_extent_item A i \<and> frm \<le> address i \<and> i \<in> set its" for i
  proof -
    have "i \<in> set (filter (is_extent_item A) got @ filter (is_extent_item A) rest) \<longleftrightarrow>
        i \<in> set (filter (\<lambda>i. is_extent_item A i \<and> frm \<le> address i) its)"
      by (simp only: ext)
    then show ?thesis by (auto simp del: split_paired_All)
  qed
  have addr: "a \<in> addresses A xs \<longleftrightarrow> (\<exists>i. is_extent_item A i \<and> i \<in> set xs \<and> address i = a)" for a xs
    by (auto simp: addresses_def simp del: split_paired_Ex)
  have low: "{a \<in> addresses A got. a < l} = {a \<in> addresses A its. frm \<le> a \<and> a < l}"
  proof (intro set_eqI iffI)
    fix a assume "a \<in> {a \<in> addresses A got. a < l}"
    then obtain i where "is_extent_item A i" "i \<in> set got" "address i = a" "a < l"
      unfolding addr mem_Collect_eq by blast
    then show "a \<in> {a \<in> addresses A its. frm \<le> a \<and> a < l}"
      using mem [of i] unfolding addr mem_Collect_eq by blast
  next
    fix a assume "a \<in> {a \<in> addresses A its. frm \<le> a \<and> a < l}"
    then obtain i where i: "is_extent_item A i" "i \<in> set its" "address i = a" "frm \<le> a" "a < l"
      unfolding addr mem_Collect_eq by blast
    then have "i \<in> set got \<or> i \<in> set rest" using mem [of i] by blast
    moreover have "i \<notin> set rest" using after i by (metis not_le)
    ultimately show "a \<in> {a \<in> addresses A got. a < l}"
      using i unfolding addr mem_Collect_eq by blast
  qed
  have none: "{a \<in> addresses A got. l < a} = {}"
  proof -
    have "\<not> l < a" if "a \<in> addresses A got" for a
    proof -
      from that obtain i where "i \<in> set got" "address i = a" unfolding addr by blast
      with before show ?thesis by (metis not_le)
    qed
    then show ?thesis by blast
  qed
  have got: "sorted_list_of_set (addresses A got) = ?low @ (if l \<in> addresses A got then [l] else [])"
    using sorted_set_split [of "addresses A got" l] by (simp add: low none)
  have same: "account A got a = account A its a" if a: "a \<in> set ?low" for a
  proof (rule account_cong)
    have less: "frm \<le> a" "a < l" using a by auto
    have "filter (\<lambda>i. address i = a) (filter (is_extent_item A) got @ filter (is_extent_item A) rest) =
        filter (\<lambda>i. is_extent_item A i \<and> address i = a) its"
      unfolding ext filter_filter using less by (intro filter_cong) auto
    moreover have "filter (\<lambda>i. address i = a) (filter (is_extent_item A) rest) = []"
      using after less by (auto simp: filter_empty_conv)
    ultimately show "filter (\<lambda>i. is_extent_item A i \<and> address i = a) got = filter (\<lambda>i. is_extent_item A i \<and> address i = a) its"
      by (simp add: conj_commute)
  qed
  have "(if tallies \<noteq> [] \<and> fst (last tallies) = l then butlast tallies else tallies) = map (account A its) ?low"
  proof (cases "l \<in> addresses A got")
    case True
    then show ?thesis
      using same by (simp add: tallies got account_def [of A got l] cong: map_cong)
  next
    case False
    have "tallies = [] \<or> fst (last tallies) \<noteq> l"
    proof (cases "?low = []")
      case False
      then have "last ?low \<in> set ?low" by (rule last_in_set)
      then have "last ?low < l" using finite_addresses by simp
      then have "last ?low \<noteq> l" by (rule less_imp_neq)
      with False \<open>l \<notin> addresses A got\<close> show ?thesis by (simp add: tallies got last_map account_def)
    qed (simp add: tallies got False)
    with False show ?thesis using same by (auto simp: tallies got cong: map_cong)
  qed
  then show ?thesis
    using unresolved_nothing [of l A its gen]
    by (simp add: map_filter_append)
qed

lemma extents_from_split:
  assumes "frm \<le> l"
  shows "extents_from A gen its frm =
    List.map_filter (unresolved_of gen) (map (account A its)
        (sorted_list_of_set {a \<in> addresses A its. frm \<le> a \<and> a < l} @ (if l \<in> addresses A its then [l] else [])))
    @ (if l = - 1 then [] else extents_from A gen its (l + 1))"
proof -
  let ?S = "{a \<in> addresses A its. frm \<le> a}"
  have "{a \<in> ?S. a < l} = {a \<in> addresses A its. frm \<le> a \<and> a < l}" by auto
  moreover have "l \<in> ?S \<longleftrightarrow> l \<in> addresses A its" using assms by simp
  moreover have "{a \<in> ?S. l < a} = (if l = - 1 then {} else {a \<in> addresses A its. l + 1 \<le> a})"
  proof (cases "l = - 1")
    case False
    then have "l < - 1" by (simp add: word_order.not_eq_extremum)
    then have "l + 1 \<le> a \<longleftrightarrow> l < a" for a by (rule word_succ_le_iff)
    moreover have "frm \<le> a" if "l < a" for a using assms that by (rule order.trans [OF _ less_imp_le])
    ultimately have "{a \<in> ?S. l < a} = {a \<in> addresses A its. l + 1 \<le> a}" by blast
    with False show ?thesis by simp
  next
    case True
    have "\<not> l < a" for a unfolding True by simp
    with True show ?thesis by simp
  qed
  ultimately have "sorted_list_of_set ?S =
      (sorted_list_of_set {a \<in> addresses A its. frm \<le> a \<and> a < l} @ (if l \<in> addresses A its then [l] else []))
      @ sorted_list_of_set (if l = - 1 then {} else {a \<in> addresses A its. l + 1 \<le> a})"
    using sorted_set_split [of ?S l] by simp
  then show ?thesis
    unfolding extents_from_def map_filter_append [symmetric] map_append [symmetric]
    by (cases "l = - 1") (simp_all add: map_filter_append)
qed

lemma extent_batch_run:
  assumes "serving K tree s"
  shows "\<exists>batch next s'. extent_batch K frm gen s = (Inr (batch, next), s') \<and> serving K tree s' \<and>
    (case next of
       None \<Rightarrow> extents_from K gen (tree (EXTENT_TREE_OBJECTID K)) frm = batch
     | Some a \<Rightarrow> (\<exists>i \<in> set (tree (EXTENT_TREE_OBJECTID K)). frm \<le> address i \<and> address i < a) \<and>
         extents_from K gen (tree (EXTENT_TREE_OBJECTID K)) frm =
           batch @ extents_from K gen (tree (EXTENT_TREE_OBJECTID K)) a)"
proof -
  let ?t = "EXTENT_TREE_OBJECTID K"
  let ?lo = "(frm, EXTENT_ITEM_KEY K, 0)" and ?hi = "(- 1, SHARED_DATA_REF_KEY K, - 1) :: tree_key"
  let ?s0 = "s\<lparr>last_snapshots := Map.empty\<rparr>"
  have ok0: "serving K tree ?s0" using assms by simp
  obtain p got rest complete where split: "range_items tree ?t ?lo ?hi = got @ rest"
    and search: "batch_search K frm ?s0 =
      (Inr (if got = [] then None else Some (fst (last got)), complete,
            map (account K got) (sorted_list_of_set (addresses K got))), ?s0\<lparr>searchargs_pool := p\<rparr>)"
    and ok1: "serving K tree (?s0\<lparr>searchargs_pool := p\<rparr>)"
    and rest: "complete \<or> got = [] \<longrightarrow> rest = []"
    by (rule batch_search_run [OF ok0, of frm])
  have ext: "filter (is_extent_item K) got @ filter (is_extent_item K) rest =
      filter (\<lambda>i. is_extent_item K i \<and> frm \<le> address i) (tree ?t)"
    using extent_items_range [of K tree ?t frm] unfolding split by simp
  let ?tallies = "map (account K got) (sorted_list_of_set (addresses K got))"
  show ?thesis
  proof (cases "complete \<or> got = []")
    case True
    with rest ext have "filter (is_extent_item K) got = filter (\<lambda>i. is_extent_item K i \<and> frm \<le> address i) (tree ?t)"
      by simp
    note whole_batch [OF this, of gen]
    moreover have "extent_batch K frm gen s =
        (Inr (List.map_filter (unresolved_of gen) ?tallies, None), ?s0\<lparr>searchargs_pool := p\<rparr>)"
      using True search by (auto simp: extent_batch_def bindE_def modifyS_def ret_def)
    ultimately show ?thesis using ok1 by auto
  next
    case False
    define l where "l = address (last got)"
    have sorted: "sorted (map address (got @ rest))"
    proof -
      have "tree_ok (got @ rest)"
        using assms unfolding split [symmetric] by (simp add: serving_def tree_ok_range)
      from tree_ok_addresses [OF this, of "\<lambda>_. True"] show ?thesis by simp
    qed
    have "last got \<in> set got" using False by simp
    obtain init where got: "got = init @ [last got]"
      using False by (metis append_butlast_last_id)
    have before: "\<forall>i \<in> set got. address i \<le> l" and after: "\<forall>i \<in> set rest. l \<le> address i"
      using sorted unfolding l_def by (subst (asm) got; subst got; auto simp: sorted_append)+
    have "last got \<in> set (range_items tree ?t ?lo ?hi)" using False by (simp add: split)
    then have "?lo \<le> item_key (last got)" by (auto simp: range_items_def)
    then have "frm \<le> l" by (auto simp: l_def item_key_def tree_key_le)
    obtain p2 where tally: "tally_at K l (?s0\<lparr>searchargs_pool := p\<rparr>) =
        (Inr (snd (account K (tree ?t) l)), ?s0\<lparr>searchargs_pool := p2\<rparr>)"
      and ok2: "serving K tree (?s0\<lparr>searchargs_pool := p2\<rparr>)"
      using tally_run [OF ok1, of l] by auto
    let ?batch = "List.map_filter (unresolved_of gen)
      ((if ?tallies \<noteq> [] \<and> fst (last ?tallies) = l then butlast ?tallies else ?tallies) @ [account K (tree ?t) l])"
    have "extent_batch K frm gen s = (Inr (?batch, if l = - 1 then None else Some (l + 1)), ?s0\<lparr>searchargs_pool := p2\<rparr>)"
      using False search tally
      by (simp add: extent_batch_def bindE_def modifyS_def ret_def l_def account_def Let_def)
    moreover have next_above: "\<exists>i \<in> set (tree ?t). frm \<le> address i \<and> address i < l + 1" if "l \<noteq> - 1"
    proof (rule bexI [of _ "last got"])
      have "l < l + 1" using that word_succ_le_iff [of l "l + 1"] by (simp add: word_order.not_eq_extremum)
      then show "frm \<le> address (last got) \<and> address (last got) < l + 1"
        using \<open>frm \<le> l\<close> by (simp add: l_def)
      show "last got \<in> set (tree ?t)"
        using \<open>last got \<in> set (range_items tree ?t ?lo ?hi)\<close> by (auto simp: range_items_def)
    qed
    moreover note partial_batch [OF ext before after \<open>frm \<le> l\<close> refl, of gen, folded l_def]
    ultimately show ?thesis
      using ok2 extents_from_split [OF \<open>frm \<le> l\<close>, of K gen "tree ?t"] next_above
      by (cases "l = - 1") auto
  qed
qed

text \<open>
  C25: A batch is exact: it holds the data extents from the given address on, in address order, each
  with the tally of all its items even where the search stopped in the middle of them, less those
  newer than the generation; and the address the next batch starts from lies beyond what was read
  and leaves exactly the other extents. Without such an address, the extent tree is read to its end.
\<close>

theorem extent_batch_exact:
  assumes "serving K tree s"
  shows "\<exists>batch next s'. extent_batch K frm gen s = (Inr (batch, next), s') \<and> serving K tree s' \<and>
    (case next of
       None \<Rightarrow> extents_from K gen (tree (EXTENT_TREE_OBJECTID K)) frm = batch
     | Some a \<Rightarrow> (\<exists>i \<in> set (tree (EXTENT_TREE_OBJECTID K)). frm \<le> address i \<and> address i < a) \<and>
         extents_from K gen (tree (EXTENT_TREE_OBJECTID K)) frm =
           batch @ extents_from K gen (tree (EXTENT_TREE_OBJECTID K)) a)"
  by (rule extent_batch_run [OF assms])

lemma small_extents:
  "extents_from small_kernel 10 (small_tree 2) 0 =
     [\<lparr>u_disk_address = 65536, u_item = small_extent_item, u_backrefs = Files [small_data_ref]\<rparr>]"
proof -
  have keys: "EXTENT_ITEM_KEY btrfs_abi = 168" "SHARED_DATA_REF_KEY btrfs_abi = 184" by (simp_all add: btrfs_abi_def)
  have "is_extent_item small_kernel extent_item_257"
    by (simp add: is_extent_item_def is_extent_key_def keys) (simp add: extent_item_257_def)
  moreover have a: "address extent_item_257 = 65536" by (simp add: extent_item_257_def)
  ultimately have "addresses small_kernel (small_tree 2) = {65536}"
    and acc: "account small_kernel (small_tree 2) 65536 = (65536, tally_of small_kernel [tree_item extent_item_257])"
    by (simp_all add: addresses_def account_def small_tree_def)
  moreover have "finish (tally_of small_kernel [tree_item extent_item_257]) =
      Some (small_extent_item, Files [small_data_ref])"
    by (simp add: finish_def tally_of_def tree_item_def extent_item_257_def add_item_def)
       (simp add: read_struct_def btrfs_abi_def le_field_def Tally_default_def add_data_ref_def data_ref_of_def
         small_extent_item_def small_data_ref_def)
  moreover have "{a. a = 65536 \<and> (0 :: u64) \<le> a} = {65536}" by auto
  ultimately show ?thesis
    by (simp add: extents_from_def unresolved_of_def) (simp add: small_extent_item_def)
qed

lemma extent_batch_exact_witness:
  "\<exists>batch next s'. extent_batch small_kernel 0 10 (sample_sys ()) = (Inr (batch, next), s') \<and>
     serving small_kernel small_tree s' \<and>
    (case next of
       None \<Rightarrow> [\<lparr>u_disk_address = 65536, u_item = small_extent_item, u_backrefs = Files [small_data_ref]\<rparr>] = batch
     | Some a \<Rightarrow> (\<exists>i \<in> set (small_tree 2). 0 \<le> address i \<and> address i < a) \<and>
         [\<lparr>u_disk_address = 65536, u_item = small_extent_item, u_backrefs = Files [small_data_ref]\<rparr>] =
           batch @ extents_from small_kernel 10 (small_tree 2) a)"
proof -
  have "EXTENT_TREE_OBJECTID small_kernel = 2" by (simp add: btrfs_abi_def)
  then show ?thesis
    using extent_batch_exact [OF small_serving, of 0 10] by (simp only: small_extents)
qed

section \<open>Handing the extents over\<close>

text \<open>A kernel whose other ioctl on the walk's way, the backreference walk, leaves the trees as they
  are.\<close>

definition steady :: "('w, 'f) kernel \<Rightarrow> (u64 \<Rightarrow> item list) \<Rightarrow> bool" where
  "steady K tree \<longleftrightarrow> (\<forall>a n buf w. serves K tree w \<longrightarrow> serves K tree (snd (k_logical_ino K a n buf w)))"

lemma safe_searching [safe_intros]: "returns (serving K tree) (searching t lo hi (search_all K each b))"
proof -
  have "wp (searching t lo hi (search_all K each b)) (\<lambda>x s. serving K tree s \<and> True)
      (\<lambda>q s. serving K tree s \<and> (\<exists>e. q = Raise e)) s" if "serving K tree s" for s
    by (rule searching_exact [OF that, of t lo hi each b])
       (auto simp: wp_def lift_result_def split: sum.splits)
  then show ?thesis by (simp add: safe_def)
qed

lemma safe_collect [safe_intros]:
  "safe (serving K tree) (\<lambda>refs. refs \<noteq> [] \<and> list_all (\<lambda>r. r_disk_address r = a \<and> r_disk_bytes r = n) refs)
     (collect K a n data_refs)"
proof -
  have "wp (collect K a n data_refs) (\<lambda>refs s. serving K tree s \<and>
        (refs \<noteq> [] \<and> list_all (\<lambda>r. r_disk_address r = a \<and> r_disk_bytes r = n) refs))
      (\<lambda>q s. serving K tree s \<and> (\<exists>e. q = Raise e)) s" if "serving K tree s" for s
    using collect_run [OF that, of a n data_refs] collected_here [of K a n data_refs s]
    by (auto simp: wp_def Let_def split: if_splits)
  then show ?thesis by (simp add: safe_def)
qed

lemma safe_last_snapshot [safe_intros]: "returns (serving K tree) (last_snapshot K root)"
  unfolding last_snapshot_def
  by (intro safe_intros safe_bindE [OF safe_getS] safe_bindE [OF safe_searching] safe_bindE [OF safe_modifyS]) auto

lemma safe_may_be_shared [safe_intros]: "returns (serving K tree) (may_be_shared K refs)"
  unfolding may_be_shared_def
  by (intro safe_anyE safe_bindE [OF safe_last_snapshot] safe_ret) simp

lemma safe_logical_ino:
  assumes "steady K tree"
  shows "returns (serving K tree) (logical_ino K a)"
proof -
  have call: "returns (serving K tree) (logical_ino_call K a n)" for n
  proof -
    have "returns (serving K tree) (sys_call (k_logical_ino K a n buf))" for buf
      using assms
      by (auto simp: safe_def wp_sys_call serving_def steady_def pool_ok_def split: prod.splits sum.splits)
        (metis snd_conv)+
    then show ?thesis
      unfolding logical_ino_call_def Let_def by (intro safe_intros) auto
  qed
  have "returns (serving K tree) (logical_ino_loop K a n)" for n
  proof (induction n rule: measure_induct_rule [of "\<lambda>n. LOGICAL_INO_MAX_SIZE - n"])
    case (less n)
    show ?case
      unfolding logical_ino_loop.simps [of K a n] Let_def
      by (intro safe_bindE [OF call] safe_if less safe_raise safe_ret) auto
  qed
  then show ?thesis by (simp add: logical_ino_def)
qed

abbreviation "into_extent" :: "u64 \<Rightarrow> u64 \<Rightarrow> extent_ref list \<Rightarrow> bool" where
  "into_extent a n refs \<equiv> refs \<noteq> [] \<and> list_all (\<lambda>r. r_disk_address r = a \<and> r_disk_bytes r = n) refs"

lemma safe_resolve:
  assumes "steady K tree"
  shows "safe (serving K tree) (into_extent a (x_disk_bytes item)) (resolve K a item backrefs)"
proof -
  have walk: "safe (serving K tree) (into_extent a n) (resolve_by_walk K a n)" for n
    unfolding resolve_by_walk_def by (intro safe_bindE [OF safe_logical_ino [OF assms]] safe_collect)
  show ?thesis
  proof (cases backrefs)
    case (Files data_refs)
    have ok: "safe (serving K tree) (into_extent a (x_disk_bytes item))
        (bindE (may_be_shared K refs) (\<lambda>shared. if \<not> shared then ret refs else resolve_by_walk K a (x_disk_bytes item)))"
      if "into_extent a (x_disk_bytes item) refs" for refs
      by (intro safe_bindE [OF safe_may_be_shared] safe_if safe_ret walk that)
    show ?thesis
      unfolding Files resolve_def backrefs.case
      by (rule safe_matchE [OF safe_collect ok walk])
  qed (simp add: resolve_def walk)
qed

fun res_address :: "resolved \<Rightarrow> u64" where
  "res_address (ResolvedExtent e) = e_disk_address e"
| "res_address (ResolvedLeftAlone a _) = a"

lemma resolve_unresolved_address: "resolve_unresolved K u s = (Inr r, s') \<Longrightarrow> res_address r = u_disk_address u"
proof -
  assume run: "resolve_unresolved K u s = (Inr r, s')"
  then consider refs e where "resolve K (u_disk_address u) (u_item u) (u_backrefs u) s = (Inr refs, s')"
      "from_refs refs = Some e" "r = ResolvedExtent e"
    | err where "r = ResolvedLeftAlone (u_disk_address u) err"
    by (auto simp: resolve_unresolved_def matchE_Inr bindE_Inr)
  then show ?thesis
  proof cases
    case 1
    from from_refs_here [OF resolve_here [OF 1(1)]] 1(2,3) show ?thesis by auto
  qed simp
qed

lemma resolve_unresolved_run:
  assumes "steady K tree" and "serving K tree s"
  shows "\<exists>r s'. resolve_unresolved K u s = (Inr r, s') \<and> serving K tree s' \<and> res_address r = u_disk_address u"
proof (rule safe_end [OF safe_resolve [OF assms(1)] assms(2), of "u_disk_address u" "u_item u" "u_backrefs u"])
  fix refs s' assume run: "resolve K (u_disk_address u) (u_item u) (u_backrefs u) s = (Inr refs, s')" "serving K tree s'"
    and "into_extent (u_disk_address u) (x_disk_bytes (u_item u)) refs"
  obtain e where "from_refs refs = Some e" "e_disk_address e = u_disk_address u"
    by (rule from_refs_here [OF \<open>into_extent _ _ refs\<close>])
  with run show ?thesis
    by (simp add: resolve_unresolved_def matchE_def bindE_def unwrap_def ret_def)
next
  fix e s' assume "resolve K (u_disk_address u) (u_item u) (u_backrefs u) s = (Inl (Raise e), s')" "serving K tree s'"
  then show ?thesis by (simp add: resolve_unresolved_def matchE_def ret_def)
qed

text \<open>What a walk has still to hand over: the addresses of the extents left.\<close>

definition remaining :: "'z abi_scheme \<Rightarrow> (u64 \<Rightarrow> item list) \<Rightarrow> extent_walk \<Rightarrow> u64 list" where
  "remaining A tree w =
     map res_address (w_batch w) @
     (case w_next w of
        None \<Rightarrow> []
      | Some a \<Rightarrow> map u_disk_address (extents_from A (w_generation w) (tree (EXTENT_TREE_OBJECTID A)) a))"

definition items_left :: "'z abi_scheme \<Rightarrow> (u64 \<Rightarrow> item list) \<Rightarrow> extent_walk \<Rightarrow> nat" where
  "items_left A tree w =
     (case w_next w of
        None \<Rightarrow> 0
      | Some a \<Rightarrow> Suc (length (filter (\<lambda>i. a \<le> address i) (tree (EXTENT_TREE_OBJECTID A)))))"

lemma filter_shorter:
  assumes "\<exists>i \<in> set its. frm \<le> address i \<and> address i < a"
  shows "length (filter (\<lambda>i. a \<le> address i) its) < length (filter (\<lambda>i. frm \<le> address i) its)"
proof -
  from assms obtain i where i: "i \<in> set its" "frm \<le> address i" "address i < a" by blast
  then have "frm \<le> a" by (meson less_imp_le order.trans)
  then have "filter (\<lambda>i. a \<le> address i) its = filter (\<lambda>i. a \<le> address i) (filter (\<lambda>i. frm \<le> address i) its)"
    unfolding filter_filter by (intro filter_cong) (auto intro: order.trans)
  also have "length \<dots> < length (filter (\<lambda>i. frm \<le> address i) its)"
    by (rule length_filter_less [of i]) (use i in auto)
  finally show ?thesis .
qed

text \<open>The table of last snapshots starts empty with each batch.\<close>

lemma extent_batch_forgets:
  assumes "extent_batch K frm gen s = (r, s')"
  shows "last_snapshots s' = Map.empty"
proof -
  let ?I = "\<lambda>s :: 'a sys. last_snapshots s = Map.empty"
  have "preserves ?I (batch_search K frm)"
    unfolding batch_search_def by (intro snapshots.keeps_searching preserve snapshots.preserves_call)
  then have "preserves ?I (bindE (batch_search K frm) (\<lambda>(lst, complete, tallies).
     bindE (case lst of
              Some lst \<Rightarrow>
                if \<not> complete then
                  (let tallies = (if tallies \<noteq> [] \<and> fst (last tallies) = sh_objectid lst
                                  then butlast tallies else tallies)
                   in bindE (tally_at K (sh_objectid lst)) (\<lambda>t.
                      ret (tallies @ [(sh_objectid lst, t)],
                           if sh_objectid lst = - 1 then None else Some (sh_objectid lst + 1))))
                else ret (tallies, None)
            | None \<Rightarrow> ret (tallies, None)) (\<lambda>(tallies, next).
     ret (List.map_filter (unresolved_of gen) tallies, next))))"
    unfolding tally_at_def Let_def by (intro preserve snapshots.keeps_search_all)
  from preservesD [OF this, of "s\<lparr>last_snapshots := Map.empty\<rparr>"] assms show ?thesis
    by (simp add: extent_batch_def bindE_def modifyS_def)
qed

text \<open>The walk, for any way to look at the extents it hands over (\<open>view\<close>) that is known of each extent
  before it is resolved (\<open>known\<close>): between batches in states that serve the trees (\<open>J\<close>), while a batch
  is resolved in states with what that takes (\<open>I\<close>).\<close>

definition left_to_hand ::
  "(unresolved \<Rightarrow> 'v) \<Rightarrow> (resolved \<Rightarrow> 'v) \<Rightarrow> 'z abi_scheme \<Rightarrow> (u64 \<Rightarrow> item list) \<Rightarrow> extent_walk \<Rightarrow> 'v list"
where
  "left_to_hand known view A tree w =
     map view (w_batch w) @
     (case w_next w of
        None \<Rightarrow> []
      | Some a \<Rightarrow> map known (extents_from A (w_generation w) (tree (EXTENT_TREE_OBJECTID A)) a))"

lemma remaining_is_left: "remaining A tree w = left_to_hand u_disk_address res_address A tree w"
  by (simp add: remaining_def left_to_hand_def)

locale resolving =
  fixes K :: "('w, 'f) kernel" and tree :: "u64 \<Rightarrow> item list" and J I :: "'w sys \<Rightarrow> bool"
    and known :: "unresolved \<Rightarrow> 'v" and view :: "resolved \<Rightarrow> 'v"
  assumes served: "J s \<Longrightarrow> serving K tree s"
    and only_trees: "J s \<Longrightarrow> serving K tree t \<Longrightarrow> J t"
    and batch_starts: "J s \<Longrightarrow> extent_batch K frm gen s = (r, t) \<Longrightarrow> serving K tree t \<Longrightarrow> I t"
    and batch_ends: "I s \<Longrightarrow> J s"
    and resolves: "I s \<Longrightarrow> \<exists>x s'. resolve_unresolved K u s = (Inr x, s') \<and> I s' \<and> view x = known u"
begin

lemma resolve_batch:
  "I s \<Longrightarrow> \<exists>rs s'. mapE (resolve_unresolved K) us s = (Inr rs, s') \<and> I s' \<and> map view rs = map known us"
proof (induction us arbitrary: s)
  case (Cons u us)
  obtain r s1 where one: "resolve_unresolved K u s = (Inr r, s1)" "I s1" "view r = known u"
    using resolves [OF Cons.prems] by blast
  with Cons.IH [OF one(2)] show ?case by (auto simp: bindE_def ret_def)
qed (simp add: ret_def)

lemma hands_over:
  assumes "J s" and "items_left K tree w < n"
  shows "\<exists>r w' s'. walk_next_loop K n w s = (Inr (r, w'), s') \<and> J s' \<and>
    (case r of
       None \<Rightarrow> left_to_hand known view K tree w = [] \<and> w_batch w' = [] \<and> w_next w' = None
     | Some (Inr x) \<Rightarrow> left_to_hand known view K tree w = view x # left_to_hand known view K tree w' \<and> w_generation w' = w_generation w
         \<and> items_left K tree w' \<le> items_left K tree w
     | Some (Inl e) \<Rightarrow> False)"
  using assms
proof (induction n arbitrary: w s)
  case (Suc n)
  let ?T = "tree (EXTENT_TREE_OBJECTID K)"
  show ?case
  proof (cases "w_batch w")
    case (Cons x rest)
    with Suc.prems(1) show ?thesis
      by (simp add: ret_def) (auto simp: left_to_hand_def items_left_def split: option.splits)
  next
    case empty: Nil
    show ?thesis
    proof (cases "w_next w")
      case None
      with empty Suc.prems(1) show ?thesis by (simp add: ret_def left_to_hand_def)
    next
      case (Some frm)
      obtain batch nxt s1 where batch: "extent_batch K frm (w_generation w) s = (Inr (batch, nxt), s1)"
        and ok: "I s1" and rest: "case nxt of
           None \<Rightarrow> extents_from K (w_generation w) ?T frm = batch
         | Some a \<Rightarrow> (\<exists>i \<in> set ?T. frm \<le> address i \<and> address i < a) \<and>
             extents_from K (w_generation w) ?T frm = batch @ extents_from K (w_generation w) ?T a"
        using extent_batch_run [OF served [OF Suc.prems(1)]] batch_starts [OF Suc.prems(1)] by blast
      obtain rs s2 where rs: "mapE (resolve_unresolved K) batch s1 = (Inr rs, s2)" "I s2"
        "map view rs = map known batch"
        using resolve_batch [OF ok] by blast
      let ?w = "w\<lparr>w_batch := rs, w_next := nxt\<rparr>"
      have same: "left_to_hand known view K tree w = left_to_hand known view K tree ?w"
        using rest empty Some rs(3) by (auto simp: left_to_hand_def split: option.splits)
      have less: "items_left K tree ?w < items_left K tree w"
        using rest Some filter_shorter by (auto simp: items_left_def split: option.splits)
      then have "items_left K tree ?w < n" using Suc.prems(2) by simp
      with Suc.IH [OF batch_ends [OF rs(2)]] obtain r w' s' where run: "walk_next_loop K n ?w s2 = (Inr (r, w'), s')"
        and fin: "J s'" "case r of
           None \<Rightarrow> left_to_hand known view K tree ?w = [] \<and> w_batch w' = [] \<and> w_next w' = None
         | Some (Inr x) \<Rightarrow> left_to_hand known view K tree ?w = view x # left_to_hand known view K tree w' \<and>
             w_generation w' = w_generation ?w \<and> items_left K tree w' \<le> items_left K tree ?w
         | Some (Inl e) \<Rightarrow> False"
        by blast
      have "walk_next_loop K (Suc n) w s = walk_next_loop K n ?w s2"
        using empty Some batch rs(1) by (simp add: matchE_def bindE_def)
      with run fin less show ?thesis
        unfolding same
        by (intro exI [of _ r] exI [of _ w'] exI [of _ s']) (simp split: option.splits sum.splits)
    qed
  qed
qed simp

end

interpretation addressed: resolving K tree "\<lambda>s. steady K tree \<and> serving K tree s"
    "\<lambda>s. steady K tree \<and> serving K tree s" u_disk_address res_address
  for K :: "('w, 'f) kernel" and tree
  by unfold_locales (use resolve_unresolved_run in auto)

lemma walk_next_loop_run:
  assumes "steady K tree" and "serving K tree s" and "items_left K tree w < n"
  shows "\<exists>r w' s'. walk_next_loop K n w s = (Inr (r, w'), s') \<and> serving K tree s' \<and>
    (case r of
       None \<Rightarrow> remaining K tree w = [] \<and> w_batch w' = [] \<and> w_next w' = None
     | Some (Inr x) \<Rightarrow> remaining K tree w = res_address x # remaining K tree w' \<and> w_generation w' = w_generation w
         \<and> items_left K tree w' \<le> items_left K tree w
     | Some (Inl e) \<Rightarrow> False)"
  using addressed.hands_over [of K tree s w n] assms unfolding remaining_is_left by blast

text \<open>
  C13: The walk hands over every data extent the extent tree holds, no newer than the generation it
  started at, in address order and each exactly once, resolved or left alone, and then ends, for
  good. An extent that cannot be resolved never ends the walk, and the walk never fails on a tree
  that can be read.
\<close>

theorem walk_hands_over_all:
  assumes "steady K tree" and "serving K tree s" and "items_left K tree w < rounds K"
  shows "\<exists>r w' s'. walk_next K w s = (Inr (r, w'), s') \<and> serving K tree s' \<and>
    (case r of
       None \<Rightarrow> remaining K tree w = [] \<and> w_batch w' = [] \<and> w_next w' = None
     | Some (Inr x) \<Rightarrow> remaining K tree w = res_address x # remaining K tree w' \<and> w_generation w' = w_generation w
         \<and> items_left K tree w' \<le> items_left K tree w
     | Some (Inl e) \<Rightarrow> False)"
  unfolding walk_next_def by (rule walk_next_loop_run [OF assms])

definition small_walk :: extent_walk where
  "small_walk = \<lparr>w_next = Some 0, w_generation = 10, w_batch = []\<rparr>"

lemma small_steady: "steady small_kernel small_tree"
  by (simp add: steady_def small_kernel_simps)

lemma small_tree_object [simp]: "EXTENT_TREE_OBJECTID btrfs_abi = 2"
  by (simp add: btrfs_abi_def)

lemma small_remaining: "remaining small_kernel small_tree small_walk = [65536]"
  by (simp add: remaining_def small_walk_def small_extents)

lemma walk_hands_over_all_witness:
  "\<exists>r w' s'. walk_next small_kernel small_walk (sample_sys ()) = (Inr (r, w'), s') \<and>
    serving small_kernel small_tree s' \<and>
    (case r of
       None \<Rightarrow> [65536 :: u64] = [] \<and> w_batch w' = [] \<and> w_next w' = None
     | Some (Inr x) \<Rightarrow> [65536] = res_address x # remaining small_kernel small_tree w' \<and>
         w_generation w' = w_generation small_walk \<and>
         items_left small_kernel small_tree w' \<le> items_left small_kernel small_tree small_walk
     | Some (Inl e) \<Rightarrow> False)"
proof -
  have "items_left small_kernel small_tree small_walk < rounds small_kernel"
    by (simp add: items_left_def small_walk_def small_tree_def)
  from walk_hands_over_all [OF small_steady small_serving this] show ?thesis
    by (simp only: small_remaining)
qed

text \<open>A walk that has ended, by itself or with an error, stays ended.\<close>

definition walk_ended :: "extent_walk \<Rightarrow> bool" where
  "walk_ended w \<longleftrightarrow> w_batch w = [] \<and> w_next w = None"

lemma walk_next_ended: "walk_ended w \<Longrightarrow> 0 < rounds K \<Longrightarrow> walk_next K w s = (Inr (None, w), s)"
  by (cases "rounds K") (simp_all add: walk_next_def walk_ended_def ret_def)

lemma walk_next_loop_ends:
  "walk_next_loop K n w s = (Inr (r, w'), s') \<Longrightarrow> r = None \<or> (\<exists>e. r = Some (Inl e)) \<Longrightarrow> walk_ended w'"
proof (induction n arbitrary: w s)
  case (Suc n)
  then show ?case
    by (auto simp: walk_ended_def matchE_Inr bindE_Inr split: list.splits option.splits)
qed simp

text \<open>
  The iterator is fused: once the walk has said it is over, or has failed, every further call
  says it is over, and makes no call into the kernel.
\<close>

lemma walk_fused:
  assumes "walk_next K w s = (Inr (r, w'), s')" and "r = None \<or> (\<exists>e. r = Some (Inl e))"
  shows "walk_next K w' t = (Inr (None, w'), t)"
proof (rule walk_next_ended)
  show "walk_ended w'" using assms walk_next_loop_ends by (simp add: walk_next_def)
  show "0 < rounds K" using assms(1) by (cases "rounds K") (simp_all add: walk_next_def)
qed

lemma sample_batch_fails:
  "\<exists>s'. extent_batch (sample_kernel :: (unit, unit) kernel) 0 0 (sample_sys ()) = (Inl (Raise (OsError 38)), s')"
proof -
  have "k_search (sample_kernel :: (unit, unit) kernel) key n w = (Inl (OsError 38), w)" for key n w
    by (simp add: sample_kernel_simps)
  then show ?thesis
    by (simp add: extent_batch_def batch_search_def searching_def with_searchargs_def take_searchargs_def
        search_def sys_call_def bindE_def modifyS_def Let_def)
qed

lemma walk_fused_witness:
  "\<exists>w' s'. walk_next (sample_kernel :: (unit, unit) kernel) \<lparr>w_next = Some 0, w_generation = 0, w_batch = []\<rparr> (sample_sys ()) =
       (Inr (Some (Inl (OsError 38)), w'), s')
     \<and> walk_next (sample_kernel :: (unit, unit) kernel) w' (sample_sys ()) = (Inr (None, w'), sample_sys ())"
proof -
  let ?w = "\<lparr>w_next = Some 0, w_generation = 0, w_batch = []\<rparr> :: extent_walk"
  obtain s' where "extent_batch (sample_kernel :: (unit, unit) kernel) 0 0 (sample_sys ()) = (Inl (Raise (OsError 38)), s')"
    using sample_batch_fails by blast
  moreover have ten: "rounds (sample_kernel :: (unit, unit) kernel) = Suc 9" by (simp add: sample_kernel_simps)
  ultimately have first: "walk_next (sample_kernel :: (unit, unit) kernel) ?w (sample_sys ()) =
      (Inr (Some (Inl (OsError 38)), ?w\<lparr>w_next := None\<rparr>), s')"
    unfolding walk_next_def ten walk_next_loop.simps by (simp add: matchE_def ret_def)
  with walk_fused [OF first, of "sample_sys ()"] show ?thesis by blast
qed

end
