(* ===== verification/Files.thy ===== *)
theory Files
  imports Walk
begin

unbundle bit_operations_syntax

text \<open>
  Reaching files, of src/kernel.rs: opening the filesystem (\<open>Filesystem::open\<close>), finding the path of
  a subvolume and of an inode in it, opening the inode a path is supposed to lead to, the temporary
  file, the inode flags, dedupe, and which errors end a run.

  A path is its bytes, as characters; \<open>path_join\<close> is \<open>Path::join\<close> on them. Descriptors are values of
  the kernel's type \<open>'f\<close>; closing them has no effect the program relies on and is not modelled.
\<close>

section \<open>Paths\<close>

definition bytes_path :: "u8 list \<Rightarrow> path" where
  "bytes_path bs = map (\<lambda>b. char_of (unat b)) bs"

definition path_join :: "path \<Rightarrow> path \<Rightarrow> path" where
  "path_join a b =
     (if b \<noteq> [] \<and> hd b = CHR ''/'' then b
      else if a \<noteq> [] \<and> last a \<noteq> CHR ''/'' then a @ ''/'' @ b
      else a @ b)"

text \<open>\<open>cstr_bytes\<close>: up to the first NUL, or all of it.\<close>

definition cstr_bytes :: "u8 list \<Rightarrow> u8 list" where
  "cstr_bytes bytes = takeWhile (\<lambda>b. b \<noteq> 0) bytes"

section \<open>Opening below a directory\<close>

definition open_beneath :: "('w, 'f) kernel \<Rightarrow> 'f \<Rightarrow> path \<Rightarrow> open_flag set \<Rightarrow> ('w, 'f) io" where
  "open_beneath K dir p flags =
     (let p = (if p = [] then ''.'' else p)
      in if CHR 0x00 \<in> set p then raise (other_error ''path holds a NUL byte'')
         else sys_call (k_openat2 K dir p (insert O_CLOEXEC flags)
                {RESOLVE_BENEATH, RESOLVE_NO_SYMLINKS, RESOLVE_NO_XDEV}))"

definition ino_lookup_args :: "('w, 'f) kernel \<Rightarrow> 'f \<Rightarrow> u64 \<Rightarrow> u64 \<Rightarrow> ('w, u64 \<times> u8 list) io" where
  "ino_lookup_args K fd treeid objectid = sys_call (k_ino_lookup K fd treeid objectid)"

definition ino_lookup :: "('w, 'f) kernel \<Rightarrow> 'f \<Rightarrow> u64 \<Rightarrow> u64 \<Rightarrow> ('w, path) io" where
  "ino_lookup K fd treeid objectid =
     bindE (ino_lookup_args K fd treeid objectid) (\<lambda>(_, name). ret (bytes_path (cstr_bytes name)))"

definition own_root_id :: "('w, 'f) kernel \<Rightarrow> 'f \<Rightarrow> ('w, u64) io" where
  "own_root_id K fd = bindE (ino_lookup_args K fd 0 (FIRST_FREE_OBJECTID K)) (\<lambda>(treeid, _). ret treeid)"

section \<open>Opening the filesystem\<close>

definition is_power_of_two :: "u64 \<Rightarrow> bool" where
  "is_power_of_two x \<longleftrightarrow> list_ex (\<lambda>k. x = push_bit k 1) [0..<64]"

definition ST_RDONLY :: u64 where
  "ST_RDONLY = 1"

text \<open>The new handle's pool and caches are empty.\<close>

definition Filesystem_open :: "('w, 'f) kernel \<Rightarrow> path \<Rightarrow> ('w, 'f filesystem) io" where
  "Filesystem_open K p =
     bindE (sys_call (k_open K p)) (\<lambda>file.
     bindE (sys_call (k_fstatfs K file)) (\<lambda>buf.
     if sf_type buf \<noteq> SUPER_MAGIC K then raise (other_error ''not on a btrfs filesystem'')
     else (let sectorsize = sf_bsize buf in
     if \<not> is_power_of_two sectorsize
     then raise (other_error (''sector size '' @ show_nat (unat sectorsize) @ '' is not a power of two''))
     else
     bindE (sys_call (k_metadata K file)) (\<lambda>meta.
     if \<not> md_is_dir meta
     then raise (other_error (''not a directory: pass the mount point of the filesystem's top-level ''
                              @ ''subvolume, mounted with -o subvolid=5''))
     else
     bindE (own_root_id K file) (\<lambda>root.
     if root \<noteq> FS_TREE_OBJECTID K
     then raise (other_error (''in subvolume '' @ show_nat (unat root)
                  @ '', not the top-level subvolume: mount the filesystem ''
                  @ ''with -o subvolid=5 and pass that mount point''))
     else if md_ino meta \<noteq> FIRST_FREE_OBJECTID K
     then raise (other_error (''a directory inside the top-level subvolume, not its root: pass the ''
                  @ ''mount point itself''))
     else
     bindE (map_err (\<lambda>e. CustomError (kind_of e) (''making a private mount to work through: '' @ show_error K e))
              (sys_call (k_clone_mount K file))) (\<lambda>private.
     bindE (open_beneath K private [] {O_RDONLY, O_DIRECTORY}) (\<lambda>top.
     bindE (modifyS (\<lambda>s. s\<lparr>searchargs_pool := [], subvolumes := Map.empty, last_snapshots := Map.empty\<rparr>)) (\<lambda>_.
     ret \<lparr>fs_file = top, fs_private = private, fs_mount = p, fs_sectorsize = sectorsize,
          fs_read_only = (sf_flags buf AND ST_RDONLY \<noteq> 0)\<rparr>))))))))"

section \<open>Subvolumes\<close>

definition open_subvolume :: "('w, 'f) kernel \<Rightarrow> 'f \<Rightarrow> path \<Rightarrow> u64 \<Rightarrow> ('w, 'f option) io" where
  "open_subvolume K topdir p root =
     matchE (open_beneath K topdir p {O_RDONLY, O_DIRECTORY})
       (\<lambda>file.
          bindE (own_root_id K file) (\<lambda>own.
          if own \<noteq> root then ret None
          else bindE (sys_call (k_metadata K file)) (\<lambda>meta.
               if md_ino meta \<noteq> FIRST_FREE_OBJECTID K then ret None else ret (Some file))))
       (\<lambda>e. if kind_of e = NotFound then ret None else raise e)"

text \<open>The callback of \<open>root_backref\<close>: only the first item that reads as a backreference counts.\<close>

definition backref_of :: "'z abi_scheme \<Rightarrow> search_header \<Rightarrow> u8 list \<Rightarrow> (u64 \<times> u64 \<times> path) option" where
  "backref_of A header item =
     (case read_struct (root_ref_layout A) item 0 of
        None \<Rightarrow> None
      | Some r \<Rightarrow>
          (let rest = drop (l_size (root_ref_layout A)) item
           in if length rest < unat (rr_name_len r) then None
              else Some (sh_offset header, rr_dirid r, bytes_path (take (unat (rr_name_len r)) rest))))"

definition root_backref :: "('w, 'f) kernel \<Rightarrow> u64 \<Rightarrow> ('w, (u64 \<times> u64 \<times> path) option) io" where
  "root_backref K root =
     searching (ROOT_TREE_OBJECTID K) (root, ROOT_BACKREF_KEY K, 0) (root, ROOT_BACKREF_KEY K, - 1)
       (search_all K (\<lambda>header item found.
          Inr (case found of None \<Rightarrow> backref_of K header item | Some b \<Rightarrow> Some b)) None)"

text \<open>\<open>subvolume\<close> and \<open>find_subvolume\<close> call each other up the chain of parents.\<close>

fun subvolume_at :: "('w, 'f) kernel \<Rightarrow> 'f filesystem \<Rightarrow> nat \<Rightarrow> u64 \<Rightarrow> ('w, subvolume option) io"
  and find_subvolume :: "('w, 'f) kernel \<Rightarrow> 'f filesystem \<Rightarrow> nat \<Rightarrow> u64 \<Rightarrow> ('w, subvolume option) io"
where
  "subvolume_at K fs 0 root = stop NoReturn"
| "subvolume_at K fs (Suc n) root =
     bindE getS (\<lambda>s.
     case subvolumes s root of
       Some known \<Rightarrow> ret known
     | None \<Rightarrow>
         bindE (find_subvolume K fs n root) (\<lambda>found.
         bindE (modifyS (\<lambda>s. s\<lparr>subvolumes := (subvolumes s)(root \<mapsto> found)\<rparr>)) (\<lambda>_.
         ret found)))"
| "find_subvolume K fs n root =
     bindE (if root = FS_TREE_OBJECTID K then ret (Some [])
            else bindE (root_backref K root) (\<lambda>backref.
                 case backref of
                   None \<Rightarrow> ret None
                 | Some (parent, dirid, name) \<Rightarrow>
                     bindE (subvolume_at K fs n parent) (\<lambda>parent_subvolume.
                     case parent_subvolume of
                       None \<Rightarrow> ret None
                     | Some sv \<Rightarrow>
                         bindE (ino_lookup K (fs_file fs) parent dirid) (\<lambda>dir.
                         ret (Some (path_join (path_join (sv_path sv) dir) name)))))) (\<lambda>p.
     case p of
       None \<Rightarrow> ret None
     | Some p \<Rightarrow>
         bindE (open_subvolume K (fs_file fs) p root) (\<lambda>opened.
         case opened of
           None \<Rightarrow> ret None
         | Some _ \<Rightarrow> ret (Some \<lparr>sv_path = p\<rparr>)))"

definition subvolume_of :: "('w, 'f) kernel \<Rightarrow> 'f filesystem \<Rightarrow> u64 \<Rightarrow> ('w, subvolume option) io" where
  "subvolume_of K fs root = subvolume_at K fs (rounds K) root"

section \<open>Inodes\<close>

definition INO_PATH_DATA_SIZE :: nat where
  "INO_PATH_DATA_SIZE = 4096 - 16"

text \<open>The kernel writes over the front of a zeroed \<open>data\<close>.\<close>

definition inode_path :: "('w, 'f) kernel \<Rightarrow> 'f filesystem \<Rightarrow> u64 \<Rightarrow> u64 \<Rightarrow> ('w, path option) io" where
  "inode_path K fs root inode =
     bindE (subvolume_of K fs root) (\<lambda>found.
     case found of
       None \<Rightarrow> ret None
     | Some sv \<Rightarrow>
         bindE (open_subvolume K (fs_file fs) (sv_path sv) root) (\<lambda>opened.
         case opened of
           None \<Rightarrow> ret None
         | Some subvolume_root \<Rightarrow>
             bindE (sys_call (k_ino_paths K subvolume_root inode (16 + INO_PATH_DATA_SIZE))) (\<lambda>(elem_cnt, filled).
             let data = take INO_PATH_DATA_SIZE filled @ replicate (INO_PATH_DATA_SIZE - length filled) 0
             in if elem_cnt = 0 then ret None
                else (let offset = le_nat (take 8 data)
                      in if length data < offset then raise (other_error ''path offset runs past its buffer'')
                         else ret (Some (path_join (sv_path sv) (bytes_path (cstr_bytes (drop offset data)))))))))"

definition display_path :: "'f filesystem \<Rightarrow> path \<Rightarrow> path" where
  "display_path fs p = path_join (fs_mount fs) p"

definition open_inode :: "('w, 'f) kernel \<Rightarrow> 'f filesystem \<Rightarrow> path \<Rightarrow> u64 \<Rightarrow> u64 \<Rightarrow> ('w, 'f) io" where
  "open_inode K fs p root inode =
     bindE (open_beneath K (fs_file fs) p {O_RDONLY, O_NOATIME}) (\<lambda>file.
     bindE (sys_call (k_metadata K file)) (\<lambda>meta.
     if md_ino meta \<noteq> inode then raise (other_error ''no longer the file the extent tree names'')
     else bindE (own_root_id K file) (\<lambda>own.
          if own \<noteq> root then raise (other_error ''no longer the file the extent tree names'')
          else ret file)))"

section \<open>Flags, temporary files, dedupe\<close>

definition get_flags :: "('w, 'f) kernel \<Rightarrow> 'f \<Rightarrow> ('w, u32) io" where
  "get_flags K file = sys_call (k_get_flags K file)"

definition set_flags :: "('w, 'f) kernel \<Rightarrow> 'f \<Rightarrow> u32 \<Rightarrow> ('w, unit) io" where
  "set_flags K file flags = sys_call (k_set_flags K file flags)"

definition is_nocow :: "('w, 'f) kernel \<Rightarrow> 'f \<Rightarrow> ('w, bool) io" where
  "is_nocow K file = bindE (get_flags K file) (\<lambda>flags. ret (flags AND FS_NOCOW_FL K \<noteq> 0))"

definition temp_file :: "('w, 'f) kernel \<Rightarrow> 'f filesystem \<Rightarrow> ('w, 'f) io" where
  "temp_file K fs =
     bindE (open_beneath K (fs_file fs) [] {O_RDWR, O_TMPFILE}) (\<lambda>file.
     bindE (get_flags K file) (\<lambda>flags.
     if flags AND FS_NOCOW_FL K \<noteq> 0 then
       bindE (set_flags K file (flags AND NOT (FS_NOCOW_FL K))) (\<lambda>_.
       bindE (is_nocow K file) (\<lambda>nocow.
       if nocow then raise (other_error ''the temporary file keeps nodatacow from its directory'')
       else ret file))
     else ret file))"

text \<open>The status is the kernel's \<open>i32\<close>.\<close>

definition dedupe :: "('w, 'f) kernel \<Rightarrow> 'f \<Rightarrow> u64 \<Rightarrow> u64 \<Rightarrow> 'f \<Rightarrow> u64 \<Rightarrow> ('w, u64) io" where
  "dedupe K src src_offset len dest dest_offset =
     bindE (sys_call (k_dedupe K src src_offset len dest dest_offset)) (\<lambda>(status, bytes_deduped).
     if sint status < 0 then raise (OsError (- status))
     else if status \<noteq> DEDUPE_RANGE_SAME K
     then raise (other_error (''dedupe reported status '' @ show_nat (unat status) @ '' at offset ''
                              @ show_nat (unat dest_offset)))
     else ret bytes_deduped)"

section \<open>Errors that end a run\<close>

definition fatal :: "'z abi_scheme \<Rightarrow> io_error \<Rightarrow> string option" where
  "fatal A e =
     (case raw_os_error e of
        None \<Rightarrow> None
      | Some errno \<Rightarrow>
          if errno = ENOSPC A then Some ''the filesystem is out of space for the copies''
          else if errno = EDQUOT A then Some ''a quota leaves no room for the copies''
          else if errno = EROFS A then Some ''the filesystem went read-only, see the kernel log''
          else if errno = EIO A \<or> errno = EUCLEAN A
          then Some ''the filesystem is failing, see the kernel log and run a scrub''
          else None)"

section \<open>What only reads\<close>

text \<open>A property of the kernel's state that every operation keeps which changes no file: all but
  setting flags, writing, deduping, and opening a temporary file.\<close>

definition reads_keep :: "('w, 'f) kernel \<Rightarrow> ('w \<Rightarrow> bool) \<Rightarrow> bool" where
  "reads_keep K J \<longleftrightarrow> (\<forall>w. J w \<longrightarrow>
     (\<forall>key n. J (snd (k_search K key n w))) \<and> (\<forall>a n buf. J (snd (k_logical_ino K a n buf w))) \<and>
     (\<forall>f t i. J (snd (k_ino_lookup K f t i w))) \<and> (\<forall>f i n. J (snd (k_ino_paths K f i n w))) \<and>
     (\<forall>f p fl r. O_TMPFILE \<notin> fl \<longrightarrow> J (snd (k_openat2 K f p fl r w))) \<and>
     (\<forall>p. J (snd (k_open K p w))) \<and> (\<forall>f. J (snd (k_clone_mount K f w))) \<and>
     (\<forall>f. J (snd (k_fstatfs K f w))) \<and> (\<forall>f n. J (snd (k_fs_info K f n w))) \<and>
     (\<forall>f. J (snd (k_syncfs K f w))) \<and> (\<forall>f. J (snd (k_metadata K f w))) \<and>
     (\<forall>f. J (snd (k_get_flags K f w))) \<and> (\<forall>f at n. J (snd (k_read_exact_at K f at n w))))"

lemma reads_keep_searched: "reads_keep K J \<Longrightarrow> searched K (\<lambda>s. J (world s))"
  by unfold_locales (auto simp: reads_keep_def)

lemma reads_sys_call:
  assumes "reads_keep K J"
  shows "preserves (\<lambda>s. J (world s)) (sys_call (k_logical_ino K a n buf))"
    and "preserves (\<lambda>s. J (world s)) (sys_call (k_ino_lookup K f t i))"
    and "preserves (\<lambda>s. J (world s)) (sys_call (k_ino_paths K f i n))"
    and "O_TMPFILE \<notin> fl \<Longrightarrow> preserves (\<lambda>s. J (world s)) (sys_call (k_openat2 K f p fl r))"
    and "preserves (\<lambda>s. J (world s)) (sys_call (k_open K p))"
    and "preserves (\<lambda>s. J (world s)) (sys_call (k_clone_mount K f))"
    and "preserves (\<lambda>s. J (world s)) (sys_call (k_fstatfs K f))"
    and "preserves (\<lambda>s. J (world s)) (sys_call (k_fs_info K f g))"
    and "preserves (\<lambda>s. J (world s)) (sys_call (k_syncfs K f))"
    and "preserves (\<lambda>s. J (world s)) (sys_call (k_metadata K f))"
    and "preserves (\<lambda>s. J (world s)) (sys_call (k_get_flags K f))"
    and "preserves (\<lambda>s. J (world s)) (sys_call (k_read_exact_at K f at n))"
  by (rule on_world.preserves_sys_call; use assms in \<open>simp add: reads_keep_def\<close>)+

text \<open>Through the walk.\<close>

lemma reads_own:
  fixes f :: "'w sys \<Rightarrow> 'w sys"
  assumes "\<And>s. world (f s) = world s"
  shows "preserves (\<lambda>s. J (world s)) (modifyS f)"
  using assms by (rule on_world.preserves_own)

lemma reads_last_snapshot: "reads_keep K J \<Longrightarrow> preserves (\<lambda>s. J (world s)) (last_snapshot K root)"
  unfolding last_snapshot_def
  by (intro preserve searched.keeps_search_all reads_keep_searched reads_own) simp_all

lemma reads_logical_ino:
  assumes "reads_keep K J"
  shows "preserves (\<lambda>s. J (world s)) (logical_ino K a)"
proof -
  have call: "preserves (\<lambda>s. J (world s)) (logical_ino_call K a n)" for n
    unfolding logical_ino_call_def Let_def by (intro preserve reads_sys_call assms)
  have "preserves (\<lambda>s. J (world s)) (logical_ino_loop K a n)" for n
  proof (induction n rule: measure_induct_rule [of "\<lambda>n. LOGICAL_INO_MAX_SIZE - n"])
    case (less n)
    show ?case
      unfolding logical_ino_loop.simps [of K a n] Let_def
      by (intro preserves_bindE [OF call] preserves_if less preserves_stop preserves_ret) auto
  qed
  then show ?thesis by (simp add: logical_ino_def)
qed

lemmas reads_walk = reads_last_snapshot reads_logical_ino reads_keep_searched
  searched.keeps_search_all searched.keeps_collect searched.keeps_inode_holds_extent searched.keeps_searching

lemma reads_resolve:
  assumes "reads_keep K J"
  shows "preserves (\<lambda>s. J (world s)) (resolve K a item backrefs)"
  using assms
  by (cases backrefs) (auto simp: resolve_def resolve_by_walk_def may_be_shared_def intro!: preserve reads_walk)

lemma reads_resolve_again:
  "reads_keep K J \<Longrightarrow> preserves (\<lambda>s. J (world s)) (resolve_again K e)"
  unfolding resolve_again_def by (intro preserve reads_walk)

lemma reads_extent_batch:
  assumes "reads_keep K J"
  shows "preserves (\<lambda>s. J (world s)) (extent_batch K frm gen)"
proof -
  have "preserves (\<lambda>as. J (world (snd as))) (search K)"
    by (rule searched.preserves_call [OF reads_keep_searched [OF assms]])
  then have "preserves (\<lambda>s. J (world s)) (batch_search K frm)"
    unfolding batch_search_def by (intro searched.keeps_searching [OF reads_keep_searched [OF assms]] preserve) auto
  then show ?thesis
    unfolding extent_batch_def tally_at_def Let_def
    by (intro preserve reads_walk reads_own assms) auto
qed

lemma reads_walk_next:
  assumes "reads_keep K J"
  shows "preserves (\<lambda>s. J (world s)) (walk_next K w)"
proof -
  have one: "preserves (\<lambda>s. J (world s)) (resolve_unresolved K u)" for u
    unfolding resolve_unresolved_def by (intro preserve reads_resolve assms)
  have "preserves (\<lambda>s. J (world s)) (walk_next_loop K n w)" for n
  proof (induction n arbitrary: w)
    case (Suc n)
    then show ?case
      by (auto split: list.splits option.splits
          intro!: preserves_ret preserves_matchE preserves_prod preserves_bindE preserves_mapE
            reads_extent_batch [OF assms] one)
  qed (simp add: preserve)
  then show ?thesis by (simp add: walk_next_def)
qed

text \<open>Through reaching files.\<close>

lemma reads_open_beneath:
  "reads_keep K J \<Longrightarrow> O_TMPFILE \<notin> flags \<Longrightarrow> preserves (\<lambda>s. J (world s)) (open_beneath K dir p flags)"
  unfolding open_beneath_def Let_def by (intro preserve reads_sys_call) auto

lemma reads_own_root_id: "reads_keep K J \<Longrightarrow> preserves (\<lambda>s. J (world s)) (own_root_id K f)"
  unfolding own_root_id_def ino_lookup_args_def by (intro preserve reads_sys_call)

lemma reads_open_subvolume: "reads_keep K J \<Longrightarrow> preserves (\<lambda>s. J (world s)) (open_subvolume K topdir p root)"
  unfolding open_subvolume_def by (intro preserve reads_open_beneath reads_own_root_id reads_sys_call) auto

lemma reads_subvolume:
  assumes "reads_keep K J"
  shows "preserves (\<lambda>s. J (world s)) (subvolume_of K fs root)"
proof -
  have "preserves (\<lambda>s. J (world s)) (subvolume_at K fs n root) \<and> preserves (\<lambda>s. J (world s)) (find_subvolume K fs n root)"
    for n
  proof (induction n arbitrary: root)
    case 0
    show ?case
      by (auto simp: root_backref_def ino_lookup_def ino_lookup_args_def split: option.splits
          intro!: preserve reads_walk reads_open_subvolume reads_sys_call assms)
  next
    case (Suc n)
    have up: "preserves (\<lambda>s. J (world s)) (subvolume_at K fs (Suc n) root)" for root
      unfolding subvolume_at.simps
      by (intro preserve Suc [THEN conjunct2] reads_own) simp
    moreover have "preserves (\<lambda>s. J (world s)) (find_subvolume K fs (Suc n) root)" for root
      unfolding find_subvolume.simps root_backref_def ino_lookup_def ino_lookup_args_def
      by (intro preserve up reads_walk reads_open_subvolume reads_sys_call assms)
    ultimately show ?case by blast
  qed
  then show ?thesis by (simp add: subvolume_of_def)
qed

lemma reads_inode_path: "reads_keep K J \<Longrightarrow> preserves (\<lambda>s. J (world s)) (inode_path K fs root inode)"
  unfolding inode_path_def Let_def
  by (intro preserve reads_subvolume reads_open_subvolume reads_sys_call)

lemma reads_open_inode: "reads_keep K J \<Longrightarrow> preserves (\<lambda>s. J (world s)) (open_inode K fs p root inode)"
  unfolding open_inode_def by (intro preserve reads_open_beneath reads_own_root_id reads_sys_call) auto

lemma reads_is_nocow: "reads_keep K J \<Longrightarrow> preserves (\<lambda>s. J (world s)) (is_nocow K f)"
  unfolding is_nocow_def get_flags_def by (intro preserve reads_sys_call)

lemma reads_Filesystem_open: "reads_keep K J \<Longrightarrow> preserves (\<lambda>s. J (world s)) (Filesystem_open K p)"
  unfolding Filesystem_open_def Let_def
  by (intro preserve reads_open_beneath reads_own_root_id reads_sys_call reads_own) auto

lemma reads_walk_start: "reads_keep K J \<Longrightarrow> preserves (\<lambda>s. J (world s)) (walk K fs)"
  unfolding walk_def sync_def generation_def by (intro preserve reads_sys_call)

lemmas reads_files = reads_inode_path reads_open_inode reads_is_nocow reads_Filesystem_open
  reads_walk_start reads_walk_next reads_resolve_again reads_walk reads_sys_call

section \<open>What is opened has been checked\<close>

text \<open>Which inode a descriptor is on never changes: \<open>ident\<close> gives its subvolume and inode number, and
  the kernel answers accordingly when asked for either.\<close>

definition identifies :: "('w, 'f) kernel \<Rightarrow> ('f \<Rightarrow> u64 \<times> u64) \<Rightarrow> bool" where
  "identifies K ident \<longleftrightarrow>
     (\<forall>f w meta w'. k_metadata K f w = (Inr meta, w') \<longrightarrow> md_ino meta = snd (ident f)) \<and>
     (\<forall>f w t name w'. k_ino_lookup K f 0 (FIRST_FREE_OBJECTID K) w = (Inr (t, name), w') \<longrightarrow> t = fst (ident f))"

lemma sys_call_Inr:
  "sys_call f s = (Inr x, s') \<longleftrightarrow> (\<exists>w. f (world s) = (Inr x, w) \<and> s' = s\<lparr>world := w\<rparr>)"
  by (auto simp: sys_call_def split: prod.splits sum.splits)

lemma metadata_identifies:
  "identifies K ident \<Longrightarrow> sys_call (k_metadata K f) s = (Inr meta, s') \<Longrightarrow> snd (ident f) = md_ino meta"
  unfolding identifies_def sys_call_Inr by metis

lemma root_id_identifies:
  "identifies K ident \<Longrightarrow> own_root_id K f s = (Inr root, s') \<Longrightarrow> fst (ident f) = root"
  unfolding identifies_def own_root_id_def ino_lookup_args_def bindE_Inr sys_call_Inr
  by (auto split: prod.splits) (metis fst_conv)

lemma identified:
  assumes "identifies K ident" and "own_root_id K f s = (Inr root, s')" and "sys_call (k_metadata K f) t = (Inr meta, t')"
  shows "ident f = (root, md_ino meta)"
  using root_id_identifies [OF assms(1,2)] metadata_identifies [OF assms(1,3)] by (cases "ident f") simp

lemma calm_open_beneath [calm_intros]: "calm (open_beneath K d p fl)"
  unfolding open_beneath_def Let_def by (intro calm_intros) simp

lemma calm_own_root_id [calm_intros]: "calm (own_root_id K f)"
  unfolding own_root_id_def ino_lookup_args_def by (intro calm_intros)

lemma calm_Filesystem_open [calm_intros]: "calm (Filesystem_open K p)"
  unfolding Filesystem_open_def Let_def by (intro calm_intros) simp_all

lemma calm_open_inode [calm_intros]: "calm (open_inode K fs p root inode)"
  unfolding open_inode_def by (intro calm_intros) simp_all

text \<open>
  C38: The filesystem is only ever opened through the root of its top-level subvolume, which is on
  btrfs, with a sector size that is a power of two, which every rounding to sectors relies on. The
  handle starts with no search buffer and nothing looked up.
\<close>

theorem Filesystem_open_checks:
  assumes "identifies K ident"
  shows "wp (Filesystem_open K p)
     (\<lambda>fs s'. (\<exists>fd buf s1 s2. sys_call (k_open K p) s = (Inr fd, s1)
          \<and> ident fd = (FS_TREE_OBJECTID K, FIRST_FREE_OBJECTID K)
          \<and> sys_call (k_fstatfs K fd) s1 = (Inr buf, s2) \<and> sf_type buf = SUPER_MAGIC K
          \<and> sf_bsize buf = fs_sectorsize fs \<and> (fs_read_only fs \<longleftrightarrow> sf_flags buf AND ST_RDONLY \<noteq> 0))
      \<and> is_power_of_two (fs_sectorsize fs) \<and> fs_mount fs = p
      \<and> searchargs_pool s' = [] \<and> subvolumes s' = Map.empty \<and> last_snapshots s' = Map.empty)
     (\<lambda>q _. q \<noteq> Panic) s"
proof (rule wpI)
  fix q s' assume "Filesystem_open K p s = (Inl q, s')"
  then show "q \<noteq> Panic" by (rule calmD [OF calm_Filesystem_open])
next
  fix fs s' assume "Filesystem_open K p s = (Inr fs, s')"
  then obtain fd t1 buf t2 meta t3 t4 priv topdir t6 where
    opened: "sys_call (k_open K p) s = (Inr fd, t1)"
    and statfs: "sys_call (k_fstatfs K fd) t1 = (Inr buf, t2)" "sf_type buf = SUPER_MAGIC K"
    "is_power_of_two (sf_bsize buf)"
    and meta: "sys_call (k_metadata K fd) t2 = (Inr meta, t3)" "md_is_dir meta"
    "own_root_id K fd t3 = (Inr (FS_TREE_OBJECTID K), t4)" "md_ino meta = FIRST_FREE_OBJECTID K"
    and fin: "s' = t6\<lparr>searchargs_pool := [], subvolumes := Map.empty, last_snapshots := Map.empty\<rparr>"
    "fs = \<lparr>fs_file = topdir, fs_private = priv, fs_mount = p, fs_sectorsize = sf_bsize buf,
          fs_read_only = (sf_flags buf AND ST_RDONLY \<noteq> 0)\<rparr>"
    by (auto simp: Filesystem_open_def Let_def bindE_Inr split: if_splits)
  have "ident fd = (FS_TREE_OBJECTID K, FIRST_FREE_OBJECTID K)"
    using identified [OF assms meta(3,1)] meta(4) by simp
  with opened statfs fin show "(\<exists>fd buf s1 s2. sys_call (k_open K p) s = (Inr fd, s1)
          \<and> ident fd = (FS_TREE_OBJECTID K, FIRST_FREE_OBJECTID K)
          \<and> sys_call (k_fstatfs K fd) s1 = (Inr buf, s2) \<and> sf_type buf = SUPER_MAGIC K
          \<and> sf_bsize buf = fs_sectorsize fs \<and> (fs_read_only fs \<longleftrightarrow> sf_flags buf AND ST_RDONLY \<noteq> 0))
      \<and> is_power_of_two (fs_sectorsize fs) \<and> fs_mount fs = p
      \<and> searchargs_pool s' = [] \<and> subvolumes s' = Map.empty \<and> last_snapshots s' = Map.empty"
    by simp
qed

lemma open_inode_wp:
  assumes "identifies K ident"
  shows "wp (open_inode K fs p root inode) (\<lambda>f _. ident f = (root, inode)) (\<lambda>q _. q \<noteq> Panic) s"
proof (rule wpI)
  fix q s' assume "open_inode K fs p root inode s = (Inl q, s')"
  then show "q \<noteq> Panic" by (rule calmD [OF calm_open_inode])
next
  fix f s' assume "open_inode K fs p root inode s = (Inr f, s')"
  then obtain meta t t' where "sys_call (k_metadata K f) t = (Inr meta, t')" "md_ino meta = inode"
    "own_root_id K f t' = (Inr root, s')"
    by (auto simp: open_inode_def bindE_Inr split: if_splits)
  with identified [OF assms] show "ident f = (root, inode)" by blast
qed

text \<open>
  C30: A path is only ever a way to reach an inode: whatever it leads to by now, a file that
  \<open>open_inode\<close> hands out is the inode, of the subvolume, that the extent tree named. The rest is
  an error.
\<close>

theorem open_inode_is_that_inode:
  assumes "identifies K ident"
  shows "wp (open_inode K fs p root inode) (\<lambda>f _. ident f = (root, inode)) (\<lambda>q _. q \<noteq> Panic) s"
  by (rule open_inode_wp [OF assms])

lemma open_subvolume_identified:
  assumes "identifies K ident" and "open_subvolume K topdir p root s = (Inr (Some f), s')"
  shows "ident f = (root, FIRST_FREE_OBJECTID K)
    \<and> (\<exists>t. open_beneath K topdir p {O_RDONLY, O_DIRECTORY} s = (Inr f, t))"
proof -
  from assms(2) obtain meta t t' where "open_beneath K topdir p {O_RDONLY, O_DIRECTORY} s = (Inr f, t)"
    "own_root_id K f t = (Inr root, t')" "sys_call (k_metadata K f) t' = (Inr meta, s')"
    "md_ino meta = FIRST_FREE_OBJECTID K"
    by (auto simp: open_subvolume_def matchE_Inr bindE_Inr split: if_splits)
  with identified [OF assms(1)] show ?thesis by auto
qed

text \<open>
  A subvolume is only known by a path that was opened, beneath the top-level subvolume and
  through no symlink or other mount, and found to be the root directory of that very subvolume.
\<close>

lemma subvolume_path_checked:
  assumes "identifies K ident" and "find_subvolume K fs n root s = (Inr (Some sv), s')"
  shows "\<exists>t t' f. open_beneath K (fs_file fs) (sv_path sv) {O_RDONLY, O_DIRECTORY} t = (Inr f, t')
           \<and> ident f = (root, FIRST_FREE_OBJECTID K)"
proof -
  from assms(2) obtain f t where "open_subvolume K (fs_file fs) (sv_path sv) root t = (Inr (Some f), s')"
    by (auto simp: bindE_Inr simp del: subvolume_at.simps split: option.splits)
  from open_subvolume_identified [OF assms(1) this] show ?thesis by blast
qed

text \<open>
  The temporary file copies are made in is never nodatacow: its flags, as read last, do not
  have the flag, though it may have got it from its directory.
\<close>

lemma temp_file_is_cow:
  assumes "temp_file K fs s = (Inr f, s')"
  shows "\<exists>t flags. sys_call (k_get_flags K f) t = (Inr flags, s') \<and> flags AND FS_NOCOW_FL K = 0"
  using assms
  by (auto simp: temp_file_def bindE_Inr get_flags_def is_nocow_def split: if_splits)

section \<open>Finding a subvolume ends\<close>

definition parent_of :: "'z abi_scheme \<Rightarrow> (u64 \<Rightarrow> item list) \<Rightarrow> u64 \<Rightarrow> (u64 \<times> u64 \<times> path) option" where
  "parent_of A tree root =
     foldl (\<lambda>found i. case found of None \<Rightarrow> backref_of A (fst i) (snd i) | Some b \<Rightarrow> Some b) None
       (range_items tree (ROOT_TREE_OBJECTID A) (root, ROOT_BACKREF_KEY A, 0) (root, ROOT_BACKREF_KEY A, - 1))"

lemma safe_root_backref: "safe (serving K tree) (\<lambda>b. b = parent_of K tree root) (root_backref K root)"
proof -
  have "wp (root_backref K root) (\<lambda>b s. serving K tree s \<and> b = parent_of K tree root)
      (\<lambda>q s. serving K tree s \<and> (\<exists>e. q = Raise e)) s" if serving: "serving K tree s" for s
  proof -
    obtain p where "root_backref K root s = (Inr (parent_of K tree root), s\<lparr>searchargs_pool := p\<rparr>)"
      and "serving K tree (s\<lparr>searchargs_pool := p\<rparr>)"
      unfolding root_backref_def parent_of_def by (rule searching_fold [OF serving])
    then show ?thesis by (simp add: wp_def)
  qed
  then show ?thesis by (simp add: safe_def)
qed

lemma safe_reads:
  assumes "preserves (\<lambda>s. serves K tree (world s)) (sys_call f)"
  shows "returns (serving K tree) (sys_call f)"
proof -
  have kept: "serving K tree (snd (sys_call f s))" if "serving K tree s" for s
  proof -
    have "serves K tree (world (snd (sys_call f s)))"
      by (rule preservesD [OF assms]) (use that in \<open>simp add: serving_def\<close>)
    moreover have "pool_ok (snd (sys_call f s))"
      by (rule preservesD [OF pool.preserves_sys_call]) (use that in \<open>simp add: serving_def\<close>)
    ultimately show ?thesis using that by (simp add: serving_def)
  qed
  show ?thesis
    unfolding safe_def
  proof (intro allI impI)
    fix s assume "serving K tree s"
    from kept [OF this] show "wp (sys_call f) (\<lambda>x s. serving K tree s \<and> True)
        (\<lambda>q s. serving K tree s \<and> (\<exists>e. q = Raise e)) s"
      by (simp add: wp_sys_call sys_call_def split: prod.splits sum.splits)
  qed
qed

lemma safe_open_subvolume:
  assumes "reads_keep K (serves K tree)"
  shows "returns (serving K tree) (open_subvolume K topdir p root)"
proof -
  have "returns (serving K tree) (open_beneath K topdir p {O_RDONLY, O_DIRECTORY})"
    unfolding open_beneath_def Let_def
    by (intro safe_if safe_raise safe_reads reads_sys_call assms) simp
  moreover have "returns (serving K tree) (own_root_id K f)" for f
    unfolding own_root_id_def ino_lookup_args_def
    by (rule safe_bindE [OF safe_reads [OF reads_sys_call(2) [OF assms]]], intro safe_prod safe_ret) simp
  moreover have "returns (serving K tree) (sys_call (k_metadata K f))" for f
    by (rule safe_reads [OF reads_sys_call(10) [OF assms]])
  ultimately show ?thesis
    unfolding open_subvolume_def
    by (intro safe_matchE [where P = "\<lambda>_. True"] safe_bindE [where P = "\<lambda>_. True"] safe_if safe_ret safe_raise)
       simp_all
qed

lemma safe_ino_lookup:
  assumes "reads_keep K (serves K tree)"
  shows "returns (serving K tree) (ino_lookup K f t i)"
  unfolding ino_lookup_def ino_lookup_args_def
  by (rule safe_bindE [OF safe_reads [OF reads_sys_call(2) [OF assms]]], intro safe_prod safe_ret) simp

lemma serving_modify_subvolumes: "returns (serving K tree) (modifyS (\<lambda>s. s\<lparr>subvolumes := f s\<rparr>))"
  by (rule safe_modifyS) simp

lemma find_subvolume_returns:
  assumes "reads_keep K (serves K tree)"
    and up: "\<And>p d name. root \<noteq> FS_TREE_OBJECTID K \<Longrightarrow> parent_of K tree root = Some (p, d, name) \<Longrightarrow>
        returns (serving K tree) (subvolume_at K fs n p)"
  shows "returns (serving K tree) (find_subvolume K fs n root)"
proof -
  have opened: "returns (serving K tree)
      (case p of None \<Rightarrow> ret None
       | Some p \<Rightarrow> bindE (open_subvolume K (fs_file fs) p root) (\<lambda>opened.
           case opened of None \<Rightarrow> ret None | Some _ \<Rightarrow> ret (Some \<lparr>sv_path = p\<rparr>)))" for p
    by (intro safe_option safe_bindE [OF safe_open_subvolume [OF assms(1)]] safe_ret) simp_all
  show ?thesis
  proof (cases "root = FS_TREE_OBJECTID K")
    case True
    then show ?thesis
      unfolding find_subvolume.simps
      by (intro safe_bindE [where P = "\<lambda>_. True", OF _ opened]) (simp add: safe_ret)
  next
    case False
    have "returns (serving K tree) (case backref of
                 None \<Rightarrow> ret None
               | Some (parent, dirid, name) \<Rightarrow>
                   bindE (subvolume_at K fs n parent) (\<lambda>parent_subvolume.
                   case parent_subvolume of
                     None \<Rightarrow> ret None
                   | Some sv \<Rightarrow>
                       bindE (ino_lookup K (fs_file fs) parent dirid) (\<lambda>dir.
                       ret (Some (path_join (path_join (sv_path sv) dir) name)))))"
      if "backref = parent_of K tree root" for backref
      by (intro safe_option safe_prod safe_bindE [OF up [OF False]] safe_bindE [OF safe_ino_lookup [OF assms(1)]] safe_ret)
         (simp_all add: that)
    then have "returns (serving K tree) (bindE (root_backref K root) (\<lambda>backref.
               case backref of
                 None \<Rightarrow> ret None
               | Some (parent, dirid, name) \<Rightarrow>
                   bindE (subvolume_at K fs n parent) (\<lambda>parent_subvolume.
                   case parent_subvolume of
                     None \<Rightarrow> ret None
                   | Some sv \<Rightarrow>
                       bindE (ino_lookup K (fs_file fs) parent dirid) (\<lambda>dir.
                       ret (Some (path_join (path_join (sv_path sv) dir) name))))))"
      by (rule safe_bindE [OF safe_root_backref])
    with False show ?thesis
      unfolding find_subvolume.simps
      by (intro safe_bindE [where P = "\<lambda>_. True", OF _ opened]) simp
  qed
qed

text \<open>No subvolume is its own ancestor: there is a rank that goes down from each to its parent.\<close>

definition nested :: "'z abi_scheme \<Rightarrow> (u64 \<Rightarrow> item list) \<Rightarrow> (u64 \<Rightarrow> nat) \<Rightarrow> bool" where
  "nested A tree rank \<longleftrightarrow>
     (\<forall>root p d name. root \<noteq> FS_TREE_OBJECTID A \<and> parent_of A tree root = Some (p, d, name) \<longrightarrow> rank p < rank root)"

lemma subvolume_at_returns:
  assumes "reads_keep K (serves K tree)"
    and parents: "nested K tree rank"
  shows "rank root < n \<Longrightarrow> returns (serving K tree) (subvolume_at K fs n root)"
proof (induction n arbitrary: root)
  case (Suc n)
  have "returns (serving K tree) (find_subvolume K fs n root)"
    by (rule find_subvolume_returns [OF assms(1)]) (use Suc parents in \<open>fastforce simp: nested_def\<close>)
  then show ?case
    unfolding subvolume_at.simps
    by (intro safe_bindE [OF safe_getS] safe_option safe_ret safe_bindE [of _ "\<lambda>_. True" "find_subvolume K fs n root"]
        safe_bindE [OF serving_modify_subvolumes]) simp_all
qed simp

text \<open>
  Looking a subvolume up ends: following root backreferences up from subvolume to parent, where
  no subvolume is its own ancestor, it returns a path, or that there is none, or an error, however
  deep subvolumes are nested within each other, and whatever is looked up already. No nesting goes
  deeper than the number of rounds given.
\<close>

lemma subvolume_returns:
  assumes "reads_keep K (serves K tree)"
    and "nested K tree rank"
    and "rank root < rounds K" and "serving K tree s"
  shows "\<exists>r s'. subvolume_of K fs root s = (r, s') \<and> r \<noteq> Inl NoReturn \<and> r \<noteq> Inl Panic \<and> serving K tree s'"
proof -
  have "returns (serving K tree) (subvolume_of K fs root)"
    unfolding subvolume_of_def by (rule subvolume_at_returns [OF assms(1,2,3)])
  from safe_end [OF this assms(4)] show ?thesis by cases (metis Inl_Inr_False, metis stop.distinct(1,3) sum.inject(1))
qed

section \<open>A kernel with one file\<close>

text \<open>For the witnesses: every descriptor is on the root of the top-level subvolume.\<close>

definition file_kernel :: "(unit, unit) kernel" where
  "file_kernel = (tree_kernel (\<lambda>_. []))
     \<lparr>k_open := (\<lambda>_ w. (Inr (), w)), k_openat2 := (\<lambda>_ _ _ _ w. (Inr (), w)),
      k_clone_mount := (\<lambda>_ w. (Inr (), w)),
      k_fstatfs := (\<lambda>_ w. (Inr \<lparr>sf_type = 0x9123683E, sf_bsize = 4096, sf_flags = 0\<rparr>, w)),
      k_metadata := (\<lambda>_ w. (Inr \<lparr>md_ino = 256, md_len = 0, md_is_dir = True, md_modified = Inr 0\<rparr>, w)),
      k_ino_lookup := (\<lambda>_ _ _ w. (Inr (5, []), w)),
      k_get_flags := (\<lambda>_ w. (Inr 0, w))\<rparr>"

lemmas file_kernel_simps = file_kernel_def tree_kernel_def sample_kernel_simps

lemma file_kernel_identifies: "identifies file_kernel (\<lambda>_. (5, 256))"
  by (simp add: identifies_def file_kernel_simps)

definition file_fs :: "unit filesystem" where
  "file_fs = \<lparr>fs_file = (), fs_private = (), fs_mount = ''/mnt'', fs_sectorsize = 4096, fs_read_only = False\<rparr>"

lemma file_kernel_opens:
  "Filesystem_open file_kernel ''/mnt'' (sample_sys ()) = (Inr file_fs, sample_sys ())"
  by (simp add: Filesystem_open_def bindE_def sys_call_def file_kernel_simps Let_def is_power_of_two_def
      own_root_id_def ino_lookup_args_def ret_def map_err_def matchE_def open_beneath_def modifyS_def
      file_fs_def ST_RDONLY_def upt_rec sample_sys_def)

lemma Filesystem_open_checks_witness:
  "\<exists>fd buf s1 s2. sys_call (k_open file_kernel ''/mnt'') (sample_sys ()) = (Inr fd, s1)
      \<and> (5, 256) = (FS_TREE_OBJECTID file_kernel, FIRST_FREE_OBJECTID file_kernel)
      \<and> sys_call (k_fstatfs file_kernel fd) s1 = (Inr buf, s2) \<and> sf_type buf = SUPER_MAGIC file_kernel
      \<and> sf_bsize buf = 4096"
  using wp_ok [OF Filesystem_open_checks [OF file_kernel_identifies, of "''/mnt''" "sample_sys ()"] file_kernel_opens]
  by (auto simp: file_fs_def)

lemma open_inode_is_that_inode_witness:
  "wp (open_inode file_kernel file_fs ''a'' 5 256) (\<lambda>f _. (5, 256) = (5 :: u64, 256 :: u64)) (\<lambda>q _. q \<noteq> Panic) (sample_sys ())
   \<and> open_inode file_kernel file_fs ''a'' 5 256 (sample_sys ()) = (Inr (), sample_sys ())"
proof
  show "wp (open_inode file_kernel file_fs ''a'' 5 256) (\<lambda>f _. (5, 256) = (5 :: u64, 256 :: u64)) (\<lambda>q _. q \<noteq> Panic) (sample_sys ())"
    by (rule open_inode_is_that_inode [OF file_kernel_identifies])
qed (simp add: open_inode_def bindE_def sys_call_def file_kernel_simps own_root_id_def ino_lookup_args_def
      ret_def open_beneath_def sample_sys_def)

lemma file_kernel_top: "find_subvolume file_kernel file_fs 0 5 (sample_sys ()) = (Inr (Some \<lparr>sv_path = []\<rparr>), sample_sys ())"
  by (simp add: bindE_def sys_call_def file_kernel_simps own_root_id_def ino_lookup_args_def open_subvolume_def
      matchE_def ret_def open_beneath_def sample_sys_def Let_def)

lemma subvolume_path_checked_witness:
  "\<exists>t t' f. open_beneath file_kernel (fs_file file_fs) [] {O_RDONLY, O_DIRECTORY} t = (Inr f, t')
           \<and> (5 :: u64, 256 :: u64) = (5, FIRST_FREE_OBJECTID file_kernel)"
  using subvolume_path_checked [OF file_kernel_identifies file_kernel_top] by simp

lemma temp_file_is_cow_witness:
  "\<exists>t flags. sys_call (k_get_flags file_kernel ()) t = (Inr flags, sample_sys ()) \<and> flags AND FS_NOCOW_FL file_kernel = 0"
proof (rule temp_file_is_cow)
  show "temp_file file_kernel file_fs (sample_sys ()) = (Inr (), sample_sys ())"
    by (simp add: temp_file_def bindE_def sys_call_def file_kernel_simps open_beneath_def get_flags_def ret_def
        sample_sys_def Let_def)
qed

lemma subvolume_returns_witness:
  "\<exists>r s'. subvolume_of file_kernel file_fs 300 (sample_sys ()) = (r, s') \<and> r \<noteq> Inl NoReturn \<and> r \<noteq> Inl Panic
     \<and> serving file_kernel (\<lambda>_. []) s'"
proof (rule subvolume_returns)
  have "serves file_kernel (\<lambda>_. []) ()"
    by (rule serves_trees) (simp_all add: file_kernel_simps tree_fits_def)
  then show "serving file_kernel (\<lambda>_. []) (sample_sys ())"
    by (simp add: serving_def pool_ok_def tree_ok_def) (simp add: file_kernel_simps)
  from \<open>serves file_kernel (\<lambda>_. []) ()\<close> show "reads_keep file_kernel (serves file_kernel (\<lambda>_. []))"
    by (simp add: reads_keep_def)
  show "nested file_kernel (\<lambda>_. []) (\<lambda>_. 0)"
    by (simp add: nested_def parent_of_def range_items_def)
  show "(0 :: nat) < rounds file_kernel" by (simp add: file_kernel_simps)
qed

end
