(* ===== verification/Scan.thy ===== *)
theory Scan
  imports Files
begin

text \<open>
  The scan of src/scan.rs: counting extents (\<open>Bucket\<close>, \<open>Totals\<close>, \<open>LeftAloneStats\<close>, \<open>ScanStats\<close>), the
  report made of the counts, and the \<open>Scanner\<close> that hands each extent of the walk over once.

  Sums of bytes are words and wrap; that a total equals the sum of its parts holds all the same, in
  the ring of 64-bit words. What is printed is a list of lines. Diagnostics (the \<open>log\<close> crate) are
  not modelled.
\<close>

section \<open>Buckets\<close>

record bucket =
  b_count :: u64
  b_allocated_bytes :: u64
  b_used_bytes :: u64
  b_unreachable_bytes :: u64

definition Bucket_ZERO :: bucket where
  "Bucket_ZERO = \<lparr>b_count = 0, b_allocated_bytes = 0, b_used_bytes = 0, b_unreachable_bytes = 0\<rparr>"

text \<open>Buckets add up field by field, as the loop of \<open>LeftAloneStats::total\<close> does.\<close>

instantiation unit :: comm_monoid_add
begin

definition zero_unit :: unit where
  "zero_unit = ()"

definition plus_unit :: "unit \<Rightarrow> unit \<Rightarrow> unit" where
  "plus_unit a b = ()"

instance
  by standard (simp_all add: plus_unit_def)

end

instantiation bucket_ext :: (comm_monoid_add) comm_monoid_add
begin

definition zero_bucket_ext :: "'a bucket_scheme" where
  "zero_bucket_ext =
     \<lparr>b_count = 0, b_allocated_bytes = 0, b_used_bytes = 0, b_unreachable_bytes = 0, \<dots> = 0\<rparr>"

definition plus_bucket_ext :: "'a bucket_scheme \<Rightarrow> 'a bucket_scheme \<Rightarrow> 'a bucket_scheme" where
  "plus_bucket_ext a b =
     \<lparr>b_count = b_count a + b_count b, b_allocated_bytes = b_allocated_bytes a + b_allocated_bytes b,
      b_used_bytes = b_used_bytes a + b_used_bytes b,
      b_unreachable_bytes = b_unreachable_bytes a + b_unreachable_bytes b,
      \<dots> = bucket.more a + bucket.more b\<rparr>"

instance
  by standard (simp_all add: plus_bucket_ext_def zero_bucket_ext_def ac_simps)

end

lemma bucket_plus [simp]:
  "b_count (a + b) = b_count a + b_count b"
  "b_allocated_bytes (a + b) = b_allocated_bytes a + b_allocated_bytes b"
  "b_used_bytes (a + b) = b_used_bytes a + b_used_bytes b"
  "b_unreachable_bytes (a + b) = b_unreachable_bytes a + b_unreachable_bytes b"
  for a b :: bucket
  by (simp_all add: plus_bucket_ext_def)

lemma Bucket_ZERO_zero: "Bucket_ZERO = 0"
  by (simp add: Bucket_ZERO_def zero_bucket_ext_def zero_unit_def)

lemma bucket_zero [simp]:
  "b_count (0 :: bucket) = 0" "b_allocated_bytes (0 :: bucket) = 0" "b_used_bytes (0 :: bucket) = 0"
  "b_unreachable_bytes (0 :: bucket) = 0"
  by (simp_all add: zero_bucket_ext_def)

section \<open>Totals\<close>

record totals =
  tt_allocated_bytes :: u64
  tt_used_bytes :: u64
  tt_unreachable_bytes :: u64
  tt_buckets :: "bucket list"

definition Totals_ZERO :: totals where
  "Totals_ZERO =
     \<lparr>tt_allocated_bytes = 0, tt_used_bytes = 0, tt_unreachable_bytes = 0,
      tt_buckets = replicate 64 Bucket_ZERO\<rparr>"

definition size_class :: "extent \<Rightarrow> nat" where
  "size_class e = ilog2 (unat (max (e_disk_bytes e) 1))"

definition Totals_add :: "extent \<Rightarrow> totals \<Rightarrow> totals" where
  "Totals_add e t =
     (let used_bytes = disk_used_bytes e; free_bytes = disk_free_bytes e; i = size_class e;
          bucket = tt_buckets t ! i
      in t\<lparr>tt_allocated_bytes := tt_allocated_bytes t + e_disk_bytes e,
           tt_used_bytes := tt_used_bytes t + used_bytes,
           tt_unreachable_bytes := tt_unreachable_bytes t + free_bytes,
           tt_buckets := (tt_buckets t)[i := bucket
             \<lparr>b_count := b_count bucket + 1,
              b_allocated_bytes := b_allocated_bytes bucket + e_disk_bytes e,
              b_used_bytes := b_used_bytes bucket + used_bytes,
              b_unreachable_bytes := b_unreachable_bytes bucket + free_bytes\<rparr>]\<rparr>)"

section \<open>Extents left alone\<close>

text \<open>\<open>reason as usize\<close>.\<close>

fun discriminant :: "left_alone \<Rightarrow> nat" where
  "discriminant TooLittleToFree = 0"
| "discriminant TooMuchToCopy = 1"
| "discriminant NoDataCow = 2"
| "discriminant PastEnd = 3"
| "discriminant Changed = 4"
| "discriminant Unresolved = 5"
| "discriminant Failed = 6"
| "discriminant Deleted = 7"

text \<open>\<open>LeftAlone::ALL\<close> is all of them.\<close>

instantiation left_alone :: enum
begin

definition enum_left_alone :: "left_alone list" where
  "enum_left_alone = LeftAlone_ALL"

definition enum_all_left_alone :: "(left_alone \<Rightarrow> bool) \<Rightarrow> bool" where
  "enum_all_left_alone P \<longleftrightarrow> list_all P LeftAlone_ALL"

definition enum_ex_left_alone :: "(left_alone \<Rightarrow> bool) \<Rightarrow> bool" where
  "enum_ex_left_alone P \<longleftrightarrow> list_ex P LeftAlone_ALL"

instance
proof
  have "r \<in> set LeftAlone_ALL" for r by (cases r) (simp_all add: LeftAlone_ALL_def)
  then show all: "UNIV = set (enum_class.enum :: left_alone list)" by (auto simp: enum_left_alone_def)
  show "distinct (enum_class.enum :: left_alone list)" by (simp add: enum_left_alone_def LeftAlone_ALL_def)
  show "enum_class.enum_all P \<longleftrightarrow> Ball UNIV P" for P :: "left_alone \<Rightarrow> bool"
    using all by (simp add: enum_all_left_alone_def enum_left_alone_def list_all_iff)
  show "enum_class.enum_ex P \<longleftrightarrow> Bex UNIV P" for P :: "left_alone \<Rightarrow> bool"
    using all by (simp add: enum_ex_left_alone_def enum_left_alone_def list_ex_iff)
qed

end

record left_alone_stats =
  la_reasons :: "bucket list"

definition LeftAloneStats_ZERO :: left_alone_stats where
  "LeftAloneStats_ZERO = \<lparr>la_reasons = replicate (length LeftAlone_ALL) Bucket_ZERO\<rparr>"

definition LeftAloneStats_add :: "left_alone \<Rightarrow> extent option \<Rightarrow> left_alone_stats \<Rightarrow> left_alone_stats" where
  "LeftAloneStats_add reason e stats =
     (let bucket = la_reasons stats ! discriminant reason;
          bucket = bucket\<lparr>b_count := b_count bucket + 1\<rparr>;
          bucket = (case e of
             None \<Rightarrow> bucket
           | Some e \<Rightarrow> bucket
               \<lparr>b_allocated_bytes := b_allocated_bytes bucket + e_disk_bytes e,
                b_used_bytes := b_used_bytes bucket + disk_used_bytes e,
                b_unreachable_bytes := b_unreachable_bytes bucket + disk_free_bytes e\<rparr>)
      in stats\<lparr>la_reasons := (la_reasons stats)[discriminant reason := bucket]\<rparr>)"

definition LeftAloneStats_is_empty :: "left_alone_stats \<Rightarrow> bool" where
  "LeftAloneStats_is_empty stats \<longleftrightarrow> list_all (\<lambda>bucket. b_count bucket = 0) (la_reasons stats)"

definition LeftAloneStats_get :: "left_alone_stats \<Rightarrow> left_alone \<Rightarrow> bucket" where
  "LeftAloneStats_get stats reason = la_reasons stats ! discriminant reason"

definition LeftAloneStats_total :: "left_alone_stats \<Rightarrow> bucket" where
  "LeftAloneStats_total stats =
     foldl (\<lambda>total bucket. total
       \<lparr>b_count := b_count total + b_count bucket,
        b_allocated_bytes := b_allocated_bytes total + b_allocated_bytes bucket,
        b_used_bytes := b_used_bytes total + b_used_bytes bucket,
        b_unreachable_bytes := b_unreachable_bytes total + b_unreachable_bytes bucket\<rparr>)
       Bucket_ZERO (la_reasons stats)"

record scan_stats =
  ss_extents :: u64
  ss_totals :: totals
  ss_left_alone :: left_alone_stats

definition ScanStats_ZERO :: scan_stats where
  "ScanStats_ZERO = \<lparr>ss_extents = 0, ss_totals = Totals_ZERO, ss_left_alone = LeftAloneStats_ZERO\<rparr>"

section \<open>The report\<close>

text \<open>\<open>Report\<close> of src/run.rs.\<close>

record report =
  rp_rewritten :: "u64 list"
  rp_copied_bytes :: u64
  rp_freed_bytes :: u64
  rp_skipped :: "(path \<times> string) list"
  rp_modified :: "(path \<times> string) list"

definition Report_default :: report where
  "Report_default = \<lparr>rp_rewritten = [], rp_copied_bytes = 0, rp_freed_bytes = 0, rp_skipped = [], rp_modified = []\<rparr>"

text \<open>\<open>{:>n}\<close>.\<close>

definition right_align :: "nat \<Rightarrow> string \<Rightarrow> string" where
  "right_align n s = replicate (n - length s) (CHR '' '') @ s"

definition row :: "nat \<Rightarrow> string \<Rightarrow> string \<Rightarrow> string \<Rightarrow> string \<Rightarrow> string \<Rightarrow> string" where
  "row n a b c d e =
     right_align n a @ ''  '' @ right_align 10 b @ ''  '' @ right_align 12 c @ ''  ''
     @ right_align 12 d @ ''  '' @ right_align 12 e"

definition bucket_row :: "nat \<Rightarrow> string \<Rightarrow> bucket \<Rightarrow> string" where
  "bucket_row n name bucket =
     row n name (show_nat (unat (b_count bucket))) (human (b_allocated_bytes bucket))
       (human (b_used_bytes bucket)) (human (b_unreachable_bytes bucket))"

definition report_left_alone :: "scan_stats \<Rightarrow> string list" where
  "report_left_alone stats =
     (let left_alone = ss_left_alone stats
      in if LeftAloneStats_is_empty left_alone then []
         else [[], ''Extents with unreachable space left alone:'',
               row 32 ''reason'' ''count'' ''allocated'' ''used'' ''unreachable'']
           @ map (\<lambda>reason. bucket_row 32 (label reason) (LeftAloneStats_get left_alone reason))
               (filter (\<lambda>reason. b_count (LeftAloneStats_get left_alone reason) \<noteq> 0) LeftAlone_ALL)
           @ [bucket_row 32 ''total'' (LeftAloneStats_total left_alone)])"

definition report_lines :: "scan_stats \<Rightarrow> report \<Rightarrow> string list" where
  "report_lines stats run =
     (let totals = ss_totals stats
      in [''extents:            '' @ show_nat (unat (ss_extents stats)),
          ''allocated:          '' @ human (tt_allocated_bytes totals),
          ''used:               '' @ human (tt_used_bytes totals),
          ''unreachable:        '' @ human (tt_unreachable_bytes totals),
          ''  reclaimable:      '' @ human (rp_freed_bytes run),
          ''  left alone:       '' @ human (b_unreachable_bytes (LeftAloneStats_total (ss_left_alone stats))),
          ''  bytes to copy:    '' @ human (rp_copied_bytes run),
          [],
          ''Extent size rounded down to a power of two:'',
          row 12 ''size'' ''count'' ''allocated'' ''used'' ''unreachable'']
         @ map (\<lambda>(log2, bucket). bucket_row 12 (human (push_bit log2 1)) bucket)
             (filter (\<lambda>(log2, bucket). b_count bucket \<noteq> 0) (enumerate 0 (tt_buckets totals)))
         @ report_left_alone stats)"

section \<open>The scanner\<close>

record scanner =
  sc_walk :: extent_walk
  sc_stats :: scan_stats
  sc_error :: "io_error option"

definition Scanner_new :: "('w, 'f) kernel \<Rightarrow> 'f filesystem \<Rightarrow> ('w, scanner) io" where
  "Scanner_new K fs =
     bindE (walk K fs) (\<lambda>w. ret \<lparr>sc_walk = w, sc_stats = ScanStats_ZERO, sc_error = None\<rparr>)"

definition count_left_alone :: "left_alone \<Rightarrow> extent option \<Rightarrow> scanner \<Rightarrow> scanner" where
  "count_left_alone reason e sc =
     sc\<lparr>sc_stats := (sc_stats sc)\<lparr>ss_left_alone := LeftAloneStats_add reason e (ss_left_alone (sc_stats sc))\<rparr>\<rparr>"

definition leave_unresolved :: "('w, 'f) kernel \<Rightarrow> u64 \<Rightarrow> io_error \<Rightarrow> extent option \<Rightarrow> scanner \<Rightarrow> scanner" where
  "leave_unresolved K disk_address error e sc =
     (case fatal K error of
        Some hint \<Rightarrow>
          sc\<lparr>sc_error := Some (CustomError (kind_of error)
            (''stopped at extent '' @ show_hex (unat disk_address) @ '': '' @ show_error K error @ '': '' @ hint))\<rparr>
      | None \<Rightarrow> count_left_alone (if is_changed error then Changed else Unresolved) e sc)"

definition Scanner_resolve_again :: "('w, 'f) kernel \<Rightarrow> extent \<Rightarrow> scanner \<Rightarrow> ('w, extent option \<times> scanner) io" where
  "Scanner_resolve_again K e sc =
     matchE (resolve_again K e)
       (\<lambda>e'. ret (Some e', sc))
       (\<lambda>error. ret (None, leave_unresolved K (e_disk_address e) error (Some e) sc))"

text \<open>\<open><Scanner as Iterator>::next\<close>.\<close>

fun Scanner_next_loop :: "('w, 'f) kernel \<Rightarrow> nat \<Rightarrow> scanner \<Rightarrow> ('w, extent option \<times> scanner) io" where
  "Scanner_next_loop K 0 sc = stop NoReturn"
| "Scanner_next_loop K (Suc n) sc =
     (if sc_error sc \<noteq> None then ret (None, sc)
      else bindE (walk_next K (sc_walk sc)) (\<lambda>(item, w).
        let sc = sc\<lparr>sc_walk := w\<rparr>
        in case item of
             None \<Rightarrow> ret (None, sc)
           | Some (Inr (ResolvedExtent e)) \<Rightarrow>
               ret (Some e, sc\<lparr>sc_stats := (sc_stats sc)
                 \<lparr>ss_extents := ss_extents (sc_stats sc) + 1, ss_totals := Totals_add e (ss_totals (sc_stats sc))\<rparr>\<rparr>)
           | Some (Inr (ResolvedLeftAlone disk_address error)) \<Rightarrow>
               Scanner_next_loop K n (leave_unresolved K disk_address error None sc)
           | Some (Inl e) \<Rightarrow> ret (None, sc\<lparr>sc_error := Some e\<rparr>)))"

definition Scanner_next :: "('w, 'f) kernel \<Rightarrow> scanner \<Rightarrow> ('w, extent option \<times> scanner) io" where
  "Scanner_next K sc = Scanner_next_loop K (rounds K) sc"

section \<open>Accounts\<close>

lemma sum_list_add_at:
  fixes xs :: "'a::comm_monoid_add list"
  shows "i < length xs \<Longrightarrow> sum_list (xs[i := xs ! i + a]) = sum_list xs + a"
proof (induction xs arbitrary: i)
  case (Cons x xs)
  then show ?case by (cases i) (simp_all add: ac_simps)
qed simp

text \<open>The contract of a table of buckets: each thing counted goes to one row, as one entry.\<close>

locale ledger =
  fixes add :: "'x \<Rightarrow> 't \<Rightarrow> 't" and rows :: "'t \<Rightarrow> bucket list" and slots :: nat
    and slot :: "'x \<Rightarrow> nat" and entry :: "'x \<Rightarrow> bucket"
  assumes slot_bound: "slot x < slots"
    and rows_add: "length (rows t) = slots \<Longrightarrow> rows (add x t) = (rows t)[slot x := rows t ! slot x + entry x]"
begin

lemma length_rows: "length (rows t) = slots \<Longrightarrow> length (rows (fold add xs t)) = slots"
  by (induction xs arbitrary: t) (simp_all add: rows_add)

lemma row_entries:
  "length (rows t) = slots \<Longrightarrow> i < slots \<Longrightarrow>
     rows (fold add xs t) ! i = rows t ! i + sum_list (map entry (filter (\<lambda>x. slot x = i) xs))"
  by (induction xs arbitrary: t) (auto simp: rows_add nth_list_update ac_simps)

lemma rows_sum:
  "length (rows t) = slots \<Longrightarrow> sum_list (rows (fold add xs t)) = sum_list (rows t) + sum_list (map entry xs)"
  by (induction xs arbitrary: t) (simp_all add: rows_add sum_list_add_at slot_bound add.assoc)

lemma rows_from_zero:
  assumes "rows t = replicate slots 0"
  shows "rows (fold add xs t) = map (\<lambda>i. sum_list (map entry (filter (\<lambda>x. slot x = i) xs))) [0..<slots]"
    and "sum_list (rows (fold add xs t)) = sum_list (map entry xs)"
proof -
  have len: "length (rows t) = slots" using assms by simp
  show "rows (fold add xs t) = map (\<lambda>i. sum_list (map entry (filter (\<lambda>x. slot x = i) xs))) [0..<slots]"
    by (rule nth_equalityI) (simp_all add: length_rows [OF len] row_entries [OF len] assms)
  show "sum_list (rows (fold add xs t)) = sum_list (map entry xs)"
    by (simp add: rows_sum [OF len] assms sum_list_replicate) (induction slots, simp_all)
qed

end

definition extent_entry :: "extent \<Rightarrow> bucket" where
  "extent_entry e =
     \<lparr>b_count = 1, b_allocated_bytes = e_disk_bytes e, b_used_bytes = disk_used_bytes e,
      b_unreachable_bytes = disk_free_bytes e\<rparr>"

definition left_entry :: "left_alone \<times> extent option \<Rightarrow> bucket" where
  "left_entry x = (case snd x of None \<Rightarrow> Bucket_ZERO\<lparr>b_count := 1\<rparr> | Some e \<Rightarrow> extent_entry e)"

lemma size_class_less: "size_class e < 64"
  unfolding size_class_def by (rule ilog2_less [OF unat_u64_bound]) simp

lemma bucket_eqI:
  fixes a b :: bucket
  assumes "b_count a = b_count b" "b_allocated_bytes a = b_allocated_bytes b" "b_used_bytes a = b_used_bytes b"
    "b_unreachable_bytes a = b_unreachable_bytes b"
  shows "a = b"
  using assms by (cases a; cases b) simp

interpretation by_size: ledger Totals_add tt_buckets 64 size_class extent_entry
proof
  show "tt_buckets (Totals_add e t) = (tt_buckets t)[size_class e := tt_buckets t ! size_class e + extent_entry e]" for e t
    unfolding Totals_add_def Let_def
    by (simp, rule arg_cong [where f = "\<lambda>b. (tt_buckets t)[size_class e := b]"], rule bucket_eqI)
       (simp_all add: extent_entry_def)
qed (rule size_class_less)

interpretation by_reason: ledger "\<lambda>x. LeftAloneStats_add (fst x) (snd x)" la_reasons "length LeftAlone_ALL"
  "\<lambda>x. discriminant (fst x)" left_entry
proof
  fix x :: "left_alone \<times> extent option" and t
  show "discriminant (fst x) < length LeftAlone_ALL"
    by (cases "fst x") (simp_all add: LeftAlone_ALL_def)
  show "la_reasons (LeftAloneStats_add (fst x) (snd x) t) =
      (la_reasons t)[discriminant (fst x) := la_reasons t ! discriminant (fst x) + left_entry x]"
    unfolding LeftAloneStats_add_def Let_def
    by (simp, rule arg_cong [where f = "\<lambda>b. (la_reasons t)[discriminant (fst x) := b]"], rule bucket_eqI)
       (simp_all add: left_entry_def extent_entry_def Bucket_ZERO_def split: option.split)
qed

text \<open>
  An extent counted by size goes to the class of the largest power of two not above its size on
  disk, and the class is always one of the 64 there are: the index never panics, not even for an
  extent of no bytes.
\<close>

lemma size_class_of_power_of_two:
  "size_class e < 64 \<and> 2 ^ size_class e \<le> max (unat (e_disk_bytes e)) 1
     \<and> max (unat (e_disk_bytes e)) 1 < 2 ^ Suc (size_class e)"
proof -
  have "unat (max (e_disk_bytes e) 1) = max (unat (e_disk_bytes e)) 1" by (simp add: unat_max)
  then show ?thesis
    using ilog2_bounds [of "max (unat (e_disk_bytes e)) 1"] size_class_less [of e]
    by (simp add: size_class_def)
qed

lemma used_plus_free: "disk_used_bytes e + disk_free_bytes e = e_disk_bytes e"
  by (simp add: disk_free_bytes_def)

lemma totals_sums:
  "tt_allocated_bytes (fold Totals_add es t) = tt_allocated_bytes t + sum_list (map e_disk_bytes es)"
  "tt_unreachable_bytes (fold Totals_add es t) = tt_unreachable_bytes t + sum_list (map disk_free_bytes es)"
  "tt_used_bytes (fold Totals_add es t) = tt_used_bytes t + sum_list (map disk_used_bytes es)"
  by (induction es arbitrary: t) (simp_all add: Totals_add_def Let_def)

text \<open>
  The totals of a scan add up: each row of the size table holds exactly the extents of its
  class, the totals are the sums over all extents, and what is used and what is unreachable make up
  what is allocated.
\<close>

lemma totals_add_up:
  "tt_buckets (fold Totals_add es Totals_ZERO) =
     map (\<lambda>i. sum_list (map extent_entry (filter (\<lambda>e. size_class e = i) es))) [0..<64]
   \<and> sum_list (tt_buckets (fold Totals_add es Totals_ZERO)) = sum_list (map extent_entry es)
   \<and> tt_allocated_bytes (fold Totals_add es Totals_ZERO) = sum_list (map e_disk_bytes es)
   \<and> tt_unreachable_bytes (fold Totals_add es Totals_ZERO) = sum_list (map disk_free_bytes es)
   \<and> tt_used_bytes (fold Totals_add es Totals_ZERO) + tt_unreachable_bytes (fold Totals_add es Totals_ZERO)
       = tt_allocated_bytes (fold Totals_add es Totals_ZERO)"
proof -
  have zero: "tt_buckets Totals_ZERO = replicate 64 0" by (simp add: Totals_ZERO_def Bucket_ZERO_zero)
  have "sum_list (map disk_used_bytes es) + sum_list (map disk_free_bytes es) = sum_list (map e_disk_bytes es)"
    by (simp add: used_plus_free flip: sum_list_addf)
  then show ?thesis
    using by_size.rows_from_zero [OF zero, of es] by (simp add: totals_sums) (simp add: Totals_ZERO_def)
qed

lemma total_sum: "LeftAloneStats_total stats = sum_list (la_reasons stats)"
proof -
  have "foldl (\<lambda>total bucket. total
       \<lparr>b_count := b_count total + b_count bucket,
        b_allocated_bytes := b_allocated_bytes total + b_allocated_bytes bucket,
        b_used_bytes := b_used_bytes total + b_used_bytes bucket,
        b_unreachable_bytes := b_unreachable_bytes total + b_unreachable_bytes bucket\<rparr>) b bs = b + sum_list bs"
    for b :: bucket and bs
  proof (induction bs arbitrary: b)
    case (Cons c bs)
    have "b\<lparr>b_count := b_count b + b_count c,
        b_allocated_bytes := b_allocated_bytes b + b_allocated_bytes c,
        b_used_bytes := b_used_bytes b + b_used_bytes c,
        b_unreachable_bytes := b_unreachable_bytes b + b_unreachable_bytes c\<rparr> = b + c"
      by (rule bucket_eqI) simp_all
    with Cons show ?case by (simp add: add.assoc)
  qed simp
  then show ?thesis by (simp add: LeftAloneStats_total_def Bucket_ZERO_zero)
qed

text \<open>
  The table of extents left alone adds up: the row of each reason holds exactly the extents
  counted for it, those that could not be resolved with no bytes, and the total row is the sum of
  all of them.
\<close>

lemma left_alone_adds_up:
  "map (LeftAloneStats_get (fold (\<lambda>x. LeftAloneStats_add (fst x) (snd x)) xs LeftAloneStats_ZERO)) LeftAlone_ALL =
     map (\<lambda>r. sum_list (map left_entry (filter (\<lambda>x. fst x = r) xs))) LeftAlone_ALL
   \<and> LeftAloneStats_total (fold (\<lambda>x. LeftAloneStats_add (fst x) (snd x)) xs LeftAloneStats_ZERO) =
     sum_list (map left_entry xs)"
proof -
  have zero: "la_reasons LeftAloneStats_ZERO = replicate (length LeftAlone_ALL) 0"
    by (simp add: LeftAloneStats_ZERO_def Bucket_ZERO_zero)
  note rows = by_reason.rows_from_zero [OF zero, of xs]
  have inj: "discriminant r = discriminant r' \<longleftrightarrow> r = r'" for r r' by (cases r; cases r') simp_all
  have "LeftAloneStats_get (fold (\<lambda>x. LeftAloneStats_add (fst x) (snd x)) xs LeftAloneStats_ZERO) r =
      sum_list (map left_entry (filter (\<lambda>x. fst x = r) xs))" for r
  proof -
    have "discriminant r < length LeftAlone_ALL" by (cases r) (simp_all add: LeftAlone_ALL_def)
    then show ?thesis by (simp add: LeftAloneStats_get_def rows(1) inj)
  qed
  then show ?thesis by (simp add: total_sum rows(2))
qed

section \<open>Every extent is counted once\<close>

text \<open>The stats after leaving alone what these errors are about.\<close>

definition unresolved_reason :: "io_error \<Rightarrow> left_alone" where
  "unresolved_reason e = (if is_changed e then Changed else Unresolved)"

definition left_unresolved :: "io_error list \<Rightarrow> left_alone_stats \<Rightarrow> left_alone_stats" where
  "left_unresolved errs stats = fold (\<lambda>e. LeftAloneStats_add (unresolved_reason e) None) errs stats"

lemma leave_unresolved_simps:
  "fatal K err = None \<Longrightarrow> leave_unresolved K a err e sc = count_left_alone (unresolved_reason err) e sc"
  "fatal K err = Some hint \<Longrightarrow> sc_error (leave_unresolved K a err e sc) \<noteq> None"
  "fatal K err = Some hint \<Longrightarrow> sc_stats (leave_unresolved K a err e sc) = sc_stats sc"
  "sc_walk (leave_unresolved K a err e sc) = sc_walk sc"
  by (simp_all add: leave_unresolved_def unresolved_reason_def count_left_alone_def split: option.split)

text \<open>One call of \<open>next\<close>, whatever the walk gives.\<close>

lemma Scanner_next_loop_counts:
  "Scanner_next_loop K n sc s = (Inr (r, sc'), s') \<Longrightarrow>
   \<exists>errs. list_all (\<lambda>e. fatal K e = None) errs \<and>
     (case r of
        Some e \<Rightarrow> sc_error sc' = None \<and>
          sc_stats sc' = \<lparr>ss_extents = ss_extents (sc_stats sc) + 1, ss_totals = Totals_add e (ss_totals (sc_stats sc)),
                          ss_left_alone = left_unresolved errs (ss_left_alone (sc_stats sc))\<rparr>
      | None \<Rightarrow> sc_stats sc' = (sc_stats sc)\<lparr>ss_left_alone := left_unresolved errs (ss_left_alone (sc_stats sc))\<rparr>)"
proof (induction n arbitrary: sc s)
  case (Suc n)
  show ?case
  proof (cases "sc_error sc")
    case (Some e)
    with Suc.prems show ?thesis by (intro exI [of _ "[]"]) (simp add: left_unresolved_def)
  next
    case None
    with Suc.prems obtain item w t where "walk_next K (sc_walk sc) s = (Inr (item, w), t)"
      and "(let sc = sc\<lparr>sc_walk := w\<rparr>
        in case item of
             None \<Rightarrow> ret (None, sc)
           | Some (Inr (ResolvedExtent e)) \<Rightarrow>
               ret (Some e, sc\<lparr>sc_stats := (sc_stats sc)
                 \<lparr>ss_extents := ss_extents (sc_stats sc) + 1, ss_totals := Totals_add e (ss_totals (sc_stats sc))\<rparr>\<rparr>)
           | Some (Inr (ResolvedLeftAlone disk_address error)) \<Rightarrow>
               Scanner_next_loop K n (leave_unresolved K disk_address error None sc)
           | Some (Inl e) \<Rightarrow> ret (None, sc\<lparr>sc_error := Some e\<rparr>)) t = (Inr (r, sc'), s')"
      by (auto simp: bindE_Inr)
    note rest = this(2) [unfolded Let_def]
    show ?thesis
    proof (cases "\<exists>a err. item = Some (Inr (ResolvedLeftAlone a err))")
      case False
      with rest None show ?thesis
        by (intro exI [of _ "[]"]) (auto simp: left_unresolved_def split: option.splits sum.splits resolved.splits)
    next
      case True
      then obtain a err where item: "item = Some (Inr (ResolvedLeftAlone a err))" by blast
      let ?sc = "leave_unresolved K a err None (sc\<lparr>sc_walk := w\<rparr>)"
      have "Scanner_next_loop K n ?sc t = (Inr (r, sc'), s')" using rest by (simp add: item)
      show ?thesis
      proof (cases "fatal K err")
        case (Some hint)
        then have "sc_error ?sc \<noteq> None" by (rule leave_unresolved_simps)
        then have "Scanner_next_loop K n ?sc t \<in> {(Inl NoReturn, t), (Inr (None, ?sc), t)}"
          by (cases n) (auto simp: stop_def ret_def)
        with \<open>Scanner_next_loop K n ?sc t = _\<close> show ?thesis
          using leave_unresolved_simps(3) [OF Some]
          by (intro exI [of _ "[]"]) (auto simp: left_unresolved_def)
      next
        case alive: None
        from Suc.IH [OF \<open>Scanner_next_loop K n ?sc t = _\<close>] obtain errs where
          "list_all (\<lambda>e. fatal K e = None) errs" and "case r of
            Some e \<Rightarrow> sc_error sc' = None \<and>
              sc_stats sc' = \<lparr>ss_extents = ss_extents (sc_stats ?sc) + 1, ss_totals = Totals_add e (ss_totals (sc_stats ?sc)),
                          ss_left_alone = left_unresolved errs (ss_left_alone (sc_stats ?sc))\<rparr>
          | None \<Rightarrow> sc_stats sc' = (sc_stats ?sc)\<lparr>ss_left_alone := left_unresolved errs (ss_left_alone (sc_stats ?sc))\<rparr>"
          by blast
        with alive show ?thesis
          by (intro exI [of _ "err # errs"])
             (auto simp: leave_unresolved_simps(1) [OF alive] count_left_alone_def left_unresolved_def split: option.splits)
      qed
    qed
  qed
qed simp

text \<open>
  Handing out an extent counts it: \<open>Scanner::next\<close> adds exactly the extent it returns to the
  totals, once, and the extents it passed over to the table of those left alone, by why they could
  not be resolved and with no bytes; an error that is fatal to the run is never counted there. A
  call that returns nothing counts no extent.
\<close>

lemma Scanner_next_counts:
  assumes "Scanner_next K sc s = (Inr (r, sc'), s')"
  shows "\<exists>errs. list_all (\<lambda>e. fatal K e = None) errs \<and>
     (case r of
        Some e \<Rightarrow> sc_error sc' = None \<and>
          sc_stats sc' = \<lparr>ss_extents = ss_extents (sc_stats sc) + 1, ss_totals = Totals_add e (ss_totals (sc_stats sc)),
                          ss_left_alone = left_unresolved errs (ss_left_alone (sc_stats sc))\<rparr>
      | None \<Rightarrow> sc_stats sc' = (sc_stats sc)\<lparr>ss_left_alone := left_unresolved errs (ss_left_alone (sc_stats sc))\<rparr>)"
  using Scanner_next_loop_counts [of K "rounds K"] assms by (simp add: Scanner_next_def)

text \<open>On a tree that can be read: what \<open>next\<close> passes over, and what it leaves.\<close>

definition scan_step ::
  "('w, 'f) kernel \<Rightarrow> (u64 \<Rightarrow> item list) \<Rightarrow> scanner \<Rightarrow> extent option \<Rightarrow> scanner \<Rightarrow> u64 list \<Rightarrow> io_error list \<Rightarrow> bool"
where
  "scan_step K tree sc r sc' passed errs \<longleftrightarrow>
     (sc_error sc' = None \<longrightarrow>
        length errs = length passed \<and>
        ss_left_alone (sc_stats sc') = left_unresolved errs (ss_left_alone (sc_stats sc)) \<and>
        (case r of
           Some e \<Rightarrow> remaining K tree (sc_walk sc) = passed @ e_disk_address e # remaining K tree (sc_walk sc')
         | None \<Rightarrow> remaining K tree (sc_walk sc) = passed \<and> walk_ended (sc_walk sc')))"

text \<open>The same in general, for any view of what the walk hands over: the extents passed over, each with
  the error it was left alone for, and the one returned.\<close>

definition scan_view ::
  "(unresolved \<Rightarrow> 'v) \<Rightarrow> (resolved \<Rightarrow> 'v) \<Rightarrow> ('w, 'f) kernel \<Rightarrow> (u64 \<Rightarrow> item list) \<Rightarrow> scanner \<Rightarrow> extent option
     \<Rightarrow> scanner \<Rightarrow> (u64 \<times> io_error) list \<Rightarrow> bool"
where
  "scan_view known view K tree sc r sc' passed \<longleftrightarrow>
     (sc_error sc' = None \<longrightarrow>
        ss_left_alone (sc_stats sc') = left_unresolved (map snd passed) (ss_left_alone (sc_stats sc)) \<and>
        left_to_hand known view K tree (sc_walk sc) =
          map (\<lambda>(a, err). view (ResolvedLeftAlone a err)) passed @
          (case r of
             Some e \<Rightarrow> view (ResolvedExtent e) # left_to_hand known view K tree (sc_walk sc')
           | None \<Rightarrow> []) \<and>
        (r = None \<longrightarrow> walk_ended (sc_walk sc')))"

context resolving begin

lemma scans:
  assumes "J s" and "sc_error sc = None" and "items_left K tree (sc_walk sc) < rounds K"
    and "length (left_to_hand known view K tree (sc_walk sc)) < n"
  shows "\<exists>r sc' s' passed. Scanner_next_loop K n sc s = (Inr (r, sc'), s') \<and> J s' \<and>
           items_left K tree (sc_walk sc') \<le> items_left K tree (sc_walk sc) \<and> scan_view known view K tree sc r sc' passed"
  using assms
proof (induction n arbitrary: sc s)
  case (Suc n)
  obtain item w t where walk: "walk_next K (sc_walk sc) s = (Inr (item, w), t)" and ok: "J t"
    and item: "case item of
       None \<Rightarrow> left_to_hand known view K tree (sc_walk sc) = [] \<and> w_batch w = [] \<and> w_next w = None
     | Some (Inr x) \<Rightarrow> left_to_hand known view K tree (sc_walk sc) = view x # left_to_hand known view K tree w
         \<and> w_generation w = w_generation (sc_walk sc) \<and> items_left K tree w \<le> items_left K tree (sc_walk sc)
     | Some (Inl e) \<Rightarrow> False"
    using hands_over [OF Suc.prems(1,3)] unfolding walk_next_def by blast
  consider (none) "item = None" | (ext) e where "item = Some (Inr (ResolvedExtent e))"
    | (left) a err where "item = Some (Inr (ResolvedLeftAlone a err))"
    using item by (cases item rule: option.exhaust) (auto split: sum.splits elim: resolved.exhaust)
  then show ?case
  proof cases
    case none
    then show ?thesis
      using walk ok item Suc.prems(2)
      by (intro exI [of _ None] exI [of _ "sc\<lparr>sc_walk := w\<rparr>"] exI [of _ t] exI [of _ "[]"])
         (simp add: bindE_def ret_def scan_view_def left_unresolved_def walk_ended_def items_left_def)
  next
    case (ext e)
    then show ?thesis
      using walk ok item Suc.prems(2)
      by (intro exI [of _ "Some e"] exI [of _ t] exI [of _ "[]"] exI [of _ "sc\<lparr>sc_walk := w, sc_stats := (sc_stats sc)
            \<lparr>ss_extents := ss_extents (sc_stats sc) + 1, ss_totals := Totals_add e (ss_totals (sc_stats sc))\<rparr>\<rparr>"])
         (simp add: bindE_def ret_def scan_view_def left_unresolved_def)
  next
    case (left a err)
    let ?sc = "leave_unresolved K a err None (sc\<lparr>sc_walk := w\<rparr>)"
    have run: "Scanner_next_loop K (Suc n) sc s = Scanner_next_loop K n ?sc t"
      using walk Suc.prems(2) by (simp add: left bindE_def)
    have rem: "left_to_hand known view K tree (sc_walk sc) = view (ResolvedLeftAlone a err) # left_to_hand known view K tree w" "items_left K tree w \<le> items_left K tree (sc_walk sc)"
      using item by (simp_all add: left)
    then obtain m where n: "n = Suc m" using Suc.prems(4) by (cases n) simp_all
    show ?thesis
    proof (cases "fatal K err")
      case (Some hint)
      then have err: "sc_error ?sc \<noteq> None" by (rule leave_unresolved_simps)
      then have "Scanner_next_loop K n ?sc t = (Inr (None, ?sc), t)" by (simp add: n ret_def)
      with run have fin: "Scanner_next_loop K (Suc n) sc s = (Inr (None, ?sc), t)" by (rule trans)
      have left: "items_left K tree (sc_walk ?sc) \<le> items_left K tree (sc_walk sc)"
        using rem(2) by (simp add: leave_unresolved_simps(4))
      have "scan_view known view K tree sc None ?sc []" using err unfolding scan_view_def by blast
      with fin ok left show ?thesis
        by (intro exI [of _ None] exI [of _ ?sc] exI [of _ t] exI [of _ "[]"] conjI)
    next
      case None
      note sc = leave_unresolved_simps(1) [OF None, of a None "sc\<lparr>sc_walk := w\<rparr>"]
      have "sc_walk ?sc = w" "sc_error ?sc = None"
        using Suc.prems(2) by (simp_all add: sc count_left_alone_def)
      with Suc.IH [OF ok, of ?sc] rem Suc.prems(3,4) obtain r sc' s' passed where
        go: "Scanner_next_loop K n ?sc t = (Inr (r, sc'), s')" "J s'"
        "items_left K tree (sc_walk sc') \<le> items_left K tree w" "scan_view known view K tree ?sc r sc' passed"
        by auto
      have "scan_view known view K tree sc r sc' ((a, err) # passed)"
        using go(4) rem(1) \<open>sc_walk ?sc = w\<close>
        by (auto simp: scan_view_def sc count_left_alone_def left_unresolved_def split: option.splits)
      with run go rem(2) show ?thesis by (metis order.trans)
    qed
  qed
qed simp

end

lemma Scanner_next_loop_run:
  assumes "steady K tree" and "serving K tree s" and "sc_error sc = None"
    and "items_left K tree (sc_walk sc) < rounds K" and "length (remaining K tree (sc_walk sc)) < n"
  shows "\<exists>r sc' s' passed errs. Scanner_next_loop K n sc s = (Inr (r, sc'), s') \<and> serving K tree s' \<and>
           items_left K tree (sc_walk sc') \<le> items_left K tree (sc_walk sc) \<and> scan_step K tree sc r sc' passed errs"
proof -
  have "\<exists>r sc' s' passed. Scanner_next_loop K n sc s = (Inr (r, sc'), s') \<and> (steady K tree \<and> serving K tree s') \<and>
      items_left K tree (sc_walk sc') \<le> items_left K tree (sc_walk sc) \<and>
      scan_view u_disk_address res_address K tree sc r sc' passed"
    by (rule addressed.scans) (use assms in \<open>simp_all add: remaining_is_left\<close>)
  then obtain r sc' s' passed where run: "Scanner_next_loop K n sc s = (Inr (r, sc'), s')" "serving K tree s'"
    "items_left K tree (sc_walk sc') \<le> items_left K tree (sc_walk sc)"
    and seen: "scan_view u_disk_address res_address K tree sc r sc' passed" by blast
  have "map (\<lambda>(a, err). res_address (ResolvedLeftAlone a err)) passed = map fst passed" by (induction passed) auto
  with seen have "scan_step K tree sc r sc' (map fst passed) (map snd passed)"
    by (auto simp: scan_view_def scan_step_def remaining_is_left split: option.splits)
  with run show ?thesis by blast
qed

text \<open>
  C14: A scan misses nothing: over an extent tree that can be read, each call of \<open>next\<close> returns the
  first extent left that resolves, counts every extent it passes over on the way, once, as left
  alone, and leaves exactly those behind it; it returns nothing only after the last, or once it has
  met an error that is fatal to the run. And it always returns.
\<close>

theorem Scanner_misses_nothing:
  assumes "steady K tree" and "serving K tree s" and "sc_error sc = None"
    and "items_left K tree (sc_walk sc) < rounds K" and "length (remaining K tree (sc_walk sc)) < rounds K"
  shows "\<exists>r sc' s' passed errs. Scanner_next K sc s = (Inr (r, sc'), s') \<and> serving K tree s' \<and>
           items_left K tree (sc_walk sc') \<le> items_left K tree (sc_walk sc) \<and> scan_step K tree sc r sc' passed errs"
  unfolding Scanner_next_def by (rule Scanner_next_loop_run [OF assms])

definition small_scanner :: scanner where
  "small_scanner = \<lparr>sc_walk = small_walk, sc_stats = ScanStats_ZERO, sc_error = None\<rparr>"

lemma small_scan_bounds:
  "items_left small_kernel small_tree small_walk < rounds small_kernel"
  "length (remaining small_kernel small_tree small_walk) < rounds small_kernel"
  by (simp_all add: items_left_def small_walk_def small_tree_def small_remaining [unfolded small_walk_def])

lemma Scanner_misses_nothing_witness:
  "\<exists>r sc' s' passed errs. Scanner_next small_kernel small_scanner (sample_sys ()) = (Inr (r, sc'), s') \<and>
     serving small_kernel small_tree s' \<and>
     items_left small_kernel small_tree (sc_walk sc') \<le> items_left small_kernel small_tree small_walk \<and>
     scan_step small_kernel small_tree small_scanner r sc' passed errs"
  using Scanner_misses_nothing [OF small_steady small_serving, of small_scanner] small_scan_bounds
  by (simp add: small_scanner_def)

lemma Scanner_next_counts_witness:
  "\<exists>r sc' s' errs. Scanner_next small_kernel small_scanner (sample_sys ()) = (Inr (r, sc'), s') \<and>
     list_all (\<lambda>e. fatal small_kernel e = None) errs \<and>
     (case r of
        Some e \<Rightarrow> sc_error sc' = None \<and>
          sc_stats sc' = \<lparr>ss_extents = 1, ss_totals = Totals_add e Totals_ZERO,
                          ss_left_alone = left_unresolved errs LeftAloneStats_ZERO\<rparr>
      | None \<Rightarrow> sc_stats sc' = ScanStats_ZERO\<lparr>ss_left_alone := left_unresolved errs LeftAloneStats_ZERO\<rparr>)"
proof -
  obtain r sc' s' where run: "Scanner_next small_kernel small_scanner (sample_sys ()) = (Inr (r, sc'), s')"
    using Scanner_next_loop_run [OF small_steady small_serving, of small_scanner "rounds small_kernel"] small_scan_bounds
    by (auto simp: small_scanner_def Scanner_next_def)
  from Scanner_next_counts [OF run] obtain errs where "list_all (\<lambda>e. fatal small_kernel e = None) errs"
    and "case r of
        Some e \<Rightarrow> sc_error sc' = None \<and>
          sc_stats sc' = \<lparr>ss_extents = 1, ss_totals = Totals_add e Totals_ZERO,
                          ss_left_alone = left_unresolved errs LeftAloneStats_ZERO\<rparr>
      | None \<Rightarrow> sc_stats sc' = ScanStats_ZERO\<lparr>ss_left_alone := left_unresolved errs LeftAloneStats_ZERO\<rparr>"
    by (auto simp: small_scanner_def ScanStats_ZERO_def split: option.splits)
  with run show ?thesis by blast
qed

end
