(* ===== verification/Tests.thy ===== *)
theory Tests
  imports Extent
begin

text \<open>
  The unit tests of src/extent.rs, run on the model: each test is the proposition it asserts, on the
  references and extents its helpers make (\<open>sample_ref\<close>, \<open>test_extent\<close>), and each passes.
\<close>

definition test_extent :: "(u64 \<times> u64) list \<Rightarrow> extent" where
  "test_extent refs = Extent_new 0 1024 1024 (map (\<lambda>(off, len). sample_ref off len) refs)"

definition disjoint_references_add_up :: bool where
  "disjoint_references_add_up \<longleftrightarrow> disk_used_bytes (test_extent [(0, 100), (900, 124)]) = 224"

definition overlapping_references_count_once :: bool where
  "overlapping_references_count_once \<longleftrightarrow> disk_used_bytes (test_extent [(0, 600), (400, 400)]) = 800"

definition a_reference_inside_another_is_absorbed :: bool where
  "a_reference_inside_another_is_absorbed \<longleftrightarrow>
     disk_used_bytes (test_extent [(0, 900), (100, 50)]) = 900"

definition separate_stretches_stay_separate :: bool where
  "separate_stretches_stay_separate \<longleftrightarrow>
     e_live_ranges (test_extent [(0, 100), (900, 124)]) = [(0, 100), (900, 1024)]"

definition touching_stretches_merge :: bool where
  "touching_stretches_merge \<longleftrightarrow>
     e_live_ranges (test_extent [(0, 512), (512, 512)]) = [(0, 1024)]"

definition mostly_dead_extent_is_worth_rewriting :: bool where
  "mostly_dead_extent_is_worth_rewriting \<longleftrightarrow>
     not_worth_rewriting (Extent_new 0 (push_bit 20 1) (push_bit 20 1) [sample_ref 0 4096]) = None"

definition small_gap_frees_too_little :: bool where
  "small_gap_frees_too_little \<longleftrightarrow>
     not_worth_rewriting (test_extent [(0, 1000)]) = Some TooLittleToFree"

definition mostly_live_extent_copies_too_much :: bool where
  "mostly_live_extent_copies_too_much \<longleftrightarrow>
     not_worth_rewriting (Extent_new 0 (push_bit 20 1) (push_bit 20 1) [sample_ref 0 (push_bit 10 900)])
       = Some TooMuchToCopy"

definition identical_references_are_one_range :: bool where
  "identical_references_are_one_range \<longleftrightarrow>
     (let e = test_extent [(256, 256), (256, 256)]
      in disk_used_bytes e = 256 \<and> e_disk_bytes e - disk_used_bytes e = 768)"

lemma tests_pass:
  shows disjoint_references_add_up and overlapping_references_count_once
    and a_reference_inside_another_is_absorbed and separate_stretches_stay_separate
    and touching_stretches_merge and mostly_dead_extent_is_worth_rewriting
    and small_gap_frees_too_little and mostly_live_extent_copies_too_much
    and identical_references_are_one_range
  by code_simp+

end
