(* ===== verification/Run.thy ===== *)
theory Run
  imports Scan
begin

unbundle bit_operations_syntax

text \<open>
  Rewriting an extent, of src/run.rs: finding a path to every file that holds it, reading what is
  still live, staging each live range in a temporary file, pointing the holders at it, and checking
  afterwards that nobody else wrote to them and that none holds the extent any more.

  A \<open>Located\<close> borrows the filesystem in the source; here the filesystem is a parameter of what uses
  it. \<open>overflow-checks\<close> are off, as in a release build: sums of offsets wrap. What is printed to
  standard output is a list of lines in the runner; what goes through the \<open>log\<close> crate is not
  modelled.
\<close>

section \<open>Failures\<close>

record failure =
  fl_path :: path
  fl_error :: io_error

type_synonym ('w, 'a) rewrite = "('w sys, failure, 'a) comp"

definition Failure_new :: "path \<Rightarrow> io_error \<Rightarrow> failure" where
  "Failure_new p e = \<lparr>fl_path = p, fl_error = e\<rparr>"

definition Failure_other :: "path \<Rightarrow> string \<Rightarrow> failure" where
  "Failure_other p message = Failure_new p (other_error message)"

definition Failure_modified :: "path \<Rightarrow> string \<Rightarrow> failure" where
  "Failure_modified p message = Failure_new p (CustomError InvalidData message)"

section \<open>Finding the holders\<close>

record located =
  lc_name :: path
  lc_path :: path
  lc_holder :: holder

definition Located_open :: "('w, 'f) kernel \<Rightarrow> 'f filesystem \<Rightarrow> located \<Rightarrow> ('w, 'f) rewrite" where
  "Located_open K fs h =
     map_err (Failure_new (lc_path h))
       (open_inode K fs (lc_name h) (h_root (lc_holder h)) (h_inode (lc_holder h)))"

definition unnamed :: "holder \<Rightarrow> path" where
  "unnamed h =
     ''<inode '' @ show_nat (unat (h_inode h)) @ '' of subvolume '' @ show_nat (unat (h_root h)) @ ''>''"

text \<open>\<open>n.next_multiple_of(m)\<close> and \<open>n / m * m\<close>; \<open>None\<close> is the panic of a division by zero.\<close>

definition next_multiple_of :: "u64 \<Rightarrow> u64 \<Rightarrow> u64 option" where
  "next_multiple_of n m =
     (if m = 0 then None else Some (if n mod m = 0 then n else n + (m - n mod m)))"

definition round_down :: "u64 \<Rightarrow> u64 \<Rightarrow> u64 option" where
  "round_down n m = (if m = 0 then None else Some (n div m * m))"

definition ref_end :: "extent_ref \<Rightarrow> u64" where
  "ref_end r = r_file_offset r + r_num_bytes r"

text \<open>The loop of \<open>locate_holders\<close>. Its \<open>Ok(Err(reason))\<close> is \<open>Inl reason\<close>.\<close>

fun locate_loop ::
  "('w, 'f) kernel \<Rightarrow> 'f filesystem \<Rightarrow> holder list \<Rightarrow> located list \<Rightarrow> ('w, left_alone + located list) rewrite"
where
  "locate_loop K fs [] located = ret (Inr located)"
| "locate_loop K fs (h # hs) located =
     matchE (inode_path K fs (h_root h) (h_inode h))
       (\<lambda>found.
          case found of
            None \<Rightarrow> raise (Failure_other (unnamed h) ''no path leads to it'')
          | Some name \<Rightarrow>
              (let l = \<lparr>lc_name = name, lc_path = display_path fs name, lc_holder = h\<rparr>
               in bindE (Located_open K fs l) (\<lambda>file.
                  bindE (map_err (Failure_new (lc_path l)) (is_nocow K file)) (\<lambda>nocow.
                  if nocow then ret (Inl NoDataCow)
                  else
                    bindE (map_err (Failure_new (lc_path l)) (sys_call (k_metadata K file))) (\<lambda>meta.
                    bindE (unwrap (next_multiple_of (md_len meta) (fs_sectorsize fs))) (\<lambda>fin.
                    if list_ex (\<lambda>r. fin < ref_end r) (h_refs h) then ret (Inl PastEnd)
                    else locate_loop K fs hs (located @ [l])))))))
       (\<lambda>e. if kind_of e = NotFound then ret (Inl Deleted) else raise (Failure_new (unnamed h) e))"

definition locate_holders ::
  "('w, 'f) kernel \<Rightarrow> 'f filesystem \<Rightarrow> extent \<Rightarrow> ('w, left_alone + located list) rewrite"
where
  "locate_holders K fs e = locate_loop K fs (holders e) []"

section \<open>Reading what is live\<close>

record live_range =
  lr_bytes :: "u8 list"
  lr_start :: u64
  lr_end :: u64

text \<open>\<open>file.read_exact_at(&mut buf[lo..hi], at)\<close>: the slice panics where it is none, and the kernel
  writes over the front of it.\<close>

definition overwrite :: "'a list \<Rightarrow> 'a list \<Rightarrow> 'a list" where
  "overwrite old new = take (length old) new @ drop (length new) old"

definition read_into ::
  "('w, 'f) kernel \<Rightarrow> 'f \<Rightarrow> u64 \<Rightarrow> nat \<Rightarrow> nat \<Rightarrow> u8 list \<Rightarrow> ('w, u8 list) io"
where
  "read_into K file at lo hi buf =
     (if hi < lo \<or> length buf < hi then stop Panic
      else bindE (sys_call (k_read_exact_at K file at (hi - lo))) (\<lambda>bytes.
           ret (take lo buf @ overwrite (take (hi - lo) (drop lo buf)) bytes @ drop hi buf)))"

definition saturating_sub :: "u64 \<Rightarrow> u64 \<Rightarrow> u64" where
  "saturating_sub a b = (if a < b then 0 else a - b)"

fun fill_loop ::
  "('w, 'f) kernel \<Rightarrow> 'f filesystem \<Rightarrow> u64 \<Rightarrow> u64 \<Rightarrow> (extent_ref \<times> located) list \<Rightarrow> u64 \<Rightarrow> u8 list
     \<Rightarrow> ('w, u64 \<times> u8 list) rewrite"
where
  "fill_loop K fs start fin [] at buf = ret (at, buf)"
| "fill_loop K fs start fin ((r, h) # refs) at buf =
     (if fin \<le> at then ret (at, buf)
      else if at < r_extent_offset r \<or> r_extent_offset r + r_num_bytes r \<le> at
      then fill_loop K fs start fin refs at buf
      else
        bindE (Located_open K fs h) (\<lambda>file.
        bindE (map_err (Failure_new (lc_path h)) (sys_call (k_metadata K file))) (\<lambda>meta.
        let file_offset = r_file_offset r + (at - r_extent_offset r);
            till = min (min fin (r_extent_offset r + r_num_bytes r))
                       (at + saturating_sub (md_len meta) file_offset)
        in if till \<le> at then fill_loop K fs start fin refs at buf
           else bindE (map_err (Failure_new (lc_path h))
                        (read_into K file file_offset (unat (at - start)) (unat (till - start)) buf)) (\<lambda>buf.
                fill_loop K fs start fin refs till buf))))"

definition fill ::
  "('w, 'f) kernel \<Rightarrow> 'f filesystem \<Rightarrow> (extent_ref \<times> located) list \<Rightarrow> u64 \<Rightarrow> u64 \<Rightarrow> u8 list
     \<Rightarrow> ('w, u64 \<times> u8 list) rewrite"
where
  "fill K fs refs start fin buf = fill_loop K fs start fin refs start buf"

text \<open>Every reference to the extent with the file it is in, by its place in the extent.\<close>

definition sorted_refs :: "located list \<Rightarrow> (extent_ref \<times> located) list" where
  "sorted_refs hs =
     sort_key (\<lambda>rh. r_extent_offset (fst rh)) (concat (map (\<lambda>h. map (\<lambda>r. (r, h)) (h_refs (lc_holder h))) hs))"

text \<open>Where the next stretch starts after a gap.\<close>

definition next_start :: "(extent_ref \<times> located) list \<Rightarrow> u64 \<Rightarrow> u64 \<Rightarrow> u64" where
  "next_start refs read fin =
     (case filter (\<lambda>offset. read < offset) (map (\<lambda>rh. r_extent_offset (fst rh)) refs) of
        [] \<Rightarrow> fin
      | offset # offsets \<Rightarrow> fold min offsets offset)"

text \<open>The \<open>while\<close> loop of \<open>read_liveranges\<close> over one live range. Each round but the first starts at
  another reference's offset, so the rounds given are enough.\<close>

fun stretch_loop ::
  "('w, 'f) kernel \<Rightarrow> 'f filesystem \<Rightarrow> (extent_ref \<times> located) list \<Rightarrow> u64 \<Rightarrow> nat \<Rightarrow> u64 \<Rightarrow> live_range list
     \<Rightarrow> ('w, live_range list) rewrite"
where
  "stretch_loop K fs refs fin 0 start copies = stop NoReturn"
| "stretch_loop K fs refs fin (Suc n) start copies =
     (if fin \<le> start then ret copies
      else
        bindE (fill K fs refs start fin (replicate (unat (fin - start)) 0)) (\<lambda>(read, bytes).
        bindE (unwrap (round_down read (fs_sectorsize fs))) (\<lambda>till.
        stretch_loop K fs refs fin n (next_start refs read fin)
          (if start < till
           then copies @ [\<lparr>lr_bytes = take (unat (till - start)) bytes, lr_start = start, lr_end = till\<rparr>]
           else copies))))"

definition read_liveranges ::
  "('w, 'f) kernel \<Rightarrow> 'f filesystem \<Rightarrow> extent \<Rightarrow> located list \<Rightarrow> ('w, live_range list) rewrite"
where
  "read_liveranges K fs e hs =
     (let refs = sorted_refs hs
      in foldE (\<lambda>range copies. stretch_loop K fs refs (snd range) (length refs + 2) (fst range) copies)
           (e_live_ranges e) [])"

section \<open>Staging and redirecting\<close>

definition stage :: "('w, 'f) kernel \<Rightarrow> 'f filesystem \<Rightarrow> path \<Rightarrow> u8 list \<Rightarrow> ('w, 'f) rewrite" where
  "stage K fs p bytes =
     bindE (map_err (Failure_new p) (temp_file K fs)) (\<lambda>temp.
     bindE (map_err (Failure_new p) (sys_call (k_write_all_at K temp bytes (fs_sectorsize fs)))) (\<lambda>_.
     ret temp))"

text \<open>How much of the tail was deduped is not looked at.\<close>

definition redirect_tail ::
  "('w, 'f) kernel \<Rightarrow> 'f filesystem \<Rightarrow> path \<Rightarrow> 'f \<Rightarrow> u64 \<Rightarrow> u64 \<Rightarrow> ('w, unit) rewrite"
where
  "redirect_tail K fs p file from filesize =
     (let n = unat (filesize - from)
      in bindE (map_err (Failure_new p) (read_into K file from 0 n (replicate n 0))) (\<lambda>tail.
         bindE (stage K fs p tail) (\<lambda>temp.
         bindE (map_err (Failure_new p) (dedupe K temp (fs_sectorsize fs) (filesize - from) file from)) (\<lambda>_.
         ret ()))))"

text \<open>The \<open>while\<close> loop over one reference of the holder.\<close>

fun chunk_loop ::
  "('w, 'f) kernel \<Rightarrow> 'f filesystem \<Rightarrow> path \<Rightarrow> 'f \<Rightarrow> 'f \<Rightarrow> u64 \<Rightarrow> extent_ref \<Rightarrow> u64 \<Rightarrow> u64 \<Rightarrow> nat \<Rightarrow> u64
     \<Rightarrow> ('w, unit) rewrite"
where
  "chunk_loop K fs p temp file start r fin till 0 at = stop NoReturn"
| "chunk_loop K fs p temp file start r fin till (Suc n) at =
     (if till \<le> at then ret ()
      else
        (let cursor = r_file_offset r + (at - r_extent_offset r)
         in if fin \<le> cursor then ret ()
            else
              (let len = min (till - at) (fin - cursor);
                   src_offset = fs_sectorsize fs + at - start
               in bindE (map_err (Failure_new p) (dedupe K temp src_offset len file cursor)) (\<lambda>deduped.
                  if deduped = 0
                  then raise (Failure_other p (''dedupe made no progress at offset '' @ show_nat (unat cursor)))
                  else chunk_loop K fs p temp file start r fin till n (at + deduped)))))"

definition redirect_ref ::
  "('w, 'f) kernel \<Rightarrow> 'f filesystem \<Rightarrow> path \<Rightarrow> 'f \<Rightarrow> 'f \<Rightarrow> live_range \<Rightarrow> u64 \<Rightarrow> extent_ref \<Rightarrow> ('w, unit) rewrite"
where
  "redirect_ref K fs p temp file lr filesize r =
     (let fin = min (ref_end r) filesize
      in if fin \<le> r_file_offset r then ret ()
         else chunk_loop K fs p temp file (lr_start lr) r fin
                (min (r_extent_offset r + r_num_bytes r) (lr_end lr)) (rounds K)
                (max (r_extent_offset r) (lr_start lr)))"

definition redirect_chunks ::
  "('w, 'f) kernel \<Rightarrow> 'f filesystem \<Rightarrow> located \<Rightarrow> 'f \<Rightarrow> live_range \<Rightarrow> u64 \<Rightarrow> ('w, unit) rewrite"
where
  "redirect_chunks K fs h temp lr filesize =
     bindE (Located_open K fs h) (\<lambda>file.
     foldE (\<lambda>r _. redirect_ref K fs (lc_path h) temp file lr filesize r) (h_refs (lc_holder h)) ())"

section \<open>Before and after\<close>

record holder_before =
  hb_filesize :: u64
  hb_modified :: int

definition modified_time :: "path \<Rightarrow> metadata \<Rightarrow> ('w, int) rewrite" where
  "modified_time p meta =
     (case md_modified meta of Inl e \<Rightarrow> raise (Failure_new p e) | Inr t \<Rightarrow> ret t)"

definition HolderBefore_read :: "('w, 'f) kernel \<Rightarrow> 'f filesystem \<Rightarrow> located \<Rightarrow> ('w, holder_before) rewrite" where
  "HolderBefore_read K fs h =
     bindE (Located_open K fs h) (\<lambda>file.
     bindE (map_err (Failure_new (lc_path h)) (sys_call (k_metadata K file))) (\<lambda>meta.
     bindE (modified_time (lc_path h) meta) (\<lambda>t.
     ret \<lparr>hb_filesize = md_len meta, hb_modified = t\<rparr>)))"

definition finish_holder ::
  "('w, 'f) kernel \<Rightarrow> 'f filesystem \<Rightarrow> located \<Rightarrow> holder_before \<Rightarrow> ('w, unit) rewrite"
where
  "finish_holder K fs h before =
     bindE (Located_open K fs h) (\<lambda>file.
     bindE (unwrap (round_down (hb_filesize before) (fs_sectorsize fs))) (\<lambda>tail_start.
     let holds_tail = list_ex (\<lambda>r. r_file_offset r \<le> tail_start \<and> tail_start < ref_end r) (h_refs (lc_holder h))
     in bindE (if hb_filesize before mod fs_sectorsize fs \<noteq> 0 \<and> holds_tail
               then redirect_tail K fs (lc_path h) file tail_start (hb_filesize before)
               else ret ()) (\<lambda>_.
        bindE (map_err (Failure_new (lc_path h)) (sys_call (k_metadata K file))) (\<lambda>meta.
        if hb_filesize before \<noteq> md_len meta
        then raise (Failure_modified (lc_path h) ''size changed during rewrite'')
        else bindE (modified_time (lc_path h) meta) (\<lambda>t.
             if hb_modified before \<noteq> t
             then raise (Failure_modified (lc_path h) ''modified time changed during rewrite'')
             else ret ())))))"

text \<open>The last check of \<open>realloc_extent\<close>: \<open>min\<close> and \<open>max\<close> over the holder's references.\<close>

definition first_offset :: "extent_ref list \<Rightarrow> u64" where
  "first_offset refs = (case map r_file_offset refs of [] \<Rightarrow> 0 | x # xs \<Rightarrow> fold min xs x)"

definition last_offset :: "extent_ref list \<Rightarrow> u64" where
  "last_offset refs = (case map (\<lambda>r. ref_end r - 1) refs of [] \<Rightarrow> 0 | x # xs \<Rightarrow> fold max xs x)"

definition check_released :: "('w, 'f) kernel \<Rightarrow> extent \<Rightarrow> located \<Rightarrow> ('w, unit) rewrite" where
  "check_released K e h =
     bindE (map_err (Failure_new (lc_path h))
              (inode_holds_extent K (h_root (lc_holder h)) (h_inode (lc_holder h))
                 (first_offset (h_refs (lc_holder h))) (last_offset (h_refs (lc_holder h))) (e_disk_address e)))
       (\<lambda>holds. if holds then raise (Failure_other (lc_path h) ''still holds the extent'') else ret ())"

definition redirect_all ::
  "('w, 'f) kernel \<Rightarrow> 'f filesystem \<Rightarrow> (located \<times> holder_before) list \<Rightarrow> live_range \<Rightarrow> ('w, unit) rewrite"
where
  "redirect_all K fs hbs lr =
     bindE (unwrap (case hbs of [] \<Rightarrow> None | (h, _) # _ \<Rightarrow> Some (lc_path h))) (\<lambda>p.
     bindE (stage K fs p (lr_bytes lr)) (\<lambda>temp.
     foldE (\<lambda>hb _. redirect_chunks K fs (fst hb) temp lr (hb_filesize (snd hb))) hbs ()))"

definition realloc_extent ::
  "('w, 'f) kernel \<Rightarrow> 'f filesystem \<Rightarrow> extent \<Rightarrow> located list \<Rightarrow> ('w, unit) rewrite"
where
  "realloc_extent K fs e hs =
     bindE (read_liveranges K fs e hs) (\<lambda>liveranges.
     bindE (mapE (HolderBefore_read K fs) hs) (\<lambda>before.
     bindE (foldE (\<lambda>lr _. redirect_all K fs (zip hs before) lr) liveranges ()) (\<lambda>_.
     bindE (foldE (\<lambda>hb _. finish_holder K fs (fst hb) (snd hb)) (zip hs before) ()) (\<lambda>_.
     foldE (\<lambda>h _. check_released K e h) hs ()))))"

section \<open>What only reads, and what writes only to temporaries\<close>

text \<open>Through finding the holders and reading them.\<close>

lemma reads_Located_open: "reads_keep K J \<Longrightarrow> preserves (\<lambda>s. J (world s)) (Located_open K fs h)"
  unfolding Located_open_def by (intro preserve reads_open_inode)

lemma reads_read_into: "reads_keep K J \<Longrightarrow> preserves (\<lambda>s. J (world s)) (read_into K f at lo hi buf)"
  unfolding read_into_def by (intro preserve reads_sys_call)

lemma reads_locate_holders:
  assumes "reads_keep K J"
  shows "preserves (\<lambda>s. J (world s)) (locate_holders K fs e)"
proof -
  have "preserves (\<lambda>s. J (world s)) (locate_loop K fs hs located)" for hs located
    by (induction hs arbitrary: located)
       (auto simp: Let_def intro!: preserve reads_files reads_Located_open assms)
  then show ?thesis by (simp add: locate_holders_def)
qed

lemma reads_fill:
  assumes "reads_keep K J"
  shows "preserves (\<lambda>s. J (world s)) (fill K fs refs start fin buf)"
proof -
  have "preserves (\<lambda>s. J (world s)) (fill_loop K fs start fin refs at buf)" for at buf
    by (induction refs arbitrary: at buf)
       (auto simp: Let_def intro!: preserve reads_sys_call reads_Located_open reads_read_into assms)
  then show ?thesis by (simp add: fill_def)
qed

lemma reads_read_liveranges:
  assumes "reads_keep K J"
  shows "preserves (\<lambda>s. J (world s)) (read_liveranges K fs e hs)"
proof -
  have "preserves (\<lambda>s. J (world s)) (stretch_loop K fs refs fin n start copies)" for refs fin n start copies
    by (induction n arbitrary: start copies) (auto intro!: preserve reads_fill assms)
  then show ?thesis unfolding read_liveranges_def Let_def by (intro preserve)
qed

lemma reads_modified_time: "preserves (\<lambda>s. J (world s)) (modified_time p meta)"
  unfolding modified_time_def by (intro preserve)

lemma reads_HolderBefore_read: "reads_keep K J \<Longrightarrow> preserves (\<lambda>s. J (world s)) (HolderBefore_read K fs h)"
  unfolding HolderBefore_read_def by (intro preserve reads_sys_call reads_Located_open reads_modified_time)

lemma reads_check_released: "reads_keep K J \<Longrightarrow> preserves (\<lambda>s. J (world s)) (check_released K e h)"
  unfolding check_released_def by (intro preserve reads_walk)

text \<open>A property of the kernel's state that survives what is done to unnamed temporary files: opening
  one, clearing its flags, writing it, and deduping from it into any file. The kernel compares the
  bytes before it shares them, so every property of the contents of named files is one.\<close>

definition temps_keep :: "('w, 'f) kernel \<Rightarrow> ('f \<Rightarrow> bool) \<Rightarrow> ('w \<Rightarrow> bool) \<Rightarrow> bool" where
  "temps_keep K temp J \<longleftrightarrow> reads_keep K J
     \<and> (\<forall>w d p fl r. J w \<longrightarrow> J (snd (k_openat2 K d p fl r w)))
     \<and> (\<forall>w d p fl r f. O_TMPFILE \<in> fl \<longrightarrow> fst (k_openat2 K d p fl r w) = Inr f \<longrightarrow> temp f)
     \<and> (\<forall>w f. J w \<longrightarrow> temp f \<longrightarrow>
          (\<forall>flags. J (snd (k_set_flags K f flags w))) \<and> (\<forall>bs at. J (snd (k_write_all_at K f bs at w))) \<and>
          (\<forall>so len dst at. J (snd (k_dedupe K f so len dst at w))))"

lemma temps_reads: "temps_keep K temp J \<Longrightarrow> reads_keep K J"
  by (simp add: temps_keep_def)

lemma temp_file_temp:
  assumes "temps_keep K temp J" and "temp_file K fs s = (Inr f, s')"
  shows "temp f"
proof -
  from assms(2) obtain t where "open_beneath K (fs_file fs) [] {O_RDWR, O_TMPFILE} s = (Inr f, t)"
    by (auto simp: temp_file_def bindE_Inr split: if_splits)
  then have "fst (k_openat2 K (fs_file fs) ''.'' {O_CLOEXEC, O_RDWR, O_TMPFILE}
      {RESOLVE_BENEATH, RESOLVE_NO_SYMLINKS, RESOLVE_NO_XDEV} (world s)) = Inr f"
    by (auto simp: open_beneath_def sys_call_Inr)
  with assms(1) show ?thesis unfolding temps_keep_def by (metis insertCI)
qed

lemma temps_sys_call:
  assumes "temps_keep K temp J"
  shows "preserves (\<lambda>s. J (world s)) (sys_call (k_openat2 K d p fl r))"
    and "temp f \<Longrightarrow> preserves (\<lambda>s. J (world s)) (sys_call (k_set_flags K f flags))"
    and "temp f \<Longrightarrow> preserves (\<lambda>s. J (world s)) (sys_call (k_write_all_at K f bs at))"
    and "temp f \<Longrightarrow> preserves (\<lambda>s. J (world s)) (sys_call (k_dedupe K f so len dst at))"
  by (rule on_world.preserves_sys_call; use assms in \<open>simp add: temps_keep_def\<close>)+

lemma temps_dedupe:
  "temps_keep K temp J \<Longrightarrow> temp f \<Longrightarrow> preserves (\<lambda>s. J (world s)) (dedupe K f so len dst at)"
  unfolding dedupe_def by (intro preserve temps_sys_call)

lemma temps_temp_file:
  assumes "temps_keep K temp J"
  shows "preserves (\<lambda>s. J (world s)) (temp_file K fs)"
proof -
  have beneath: "preserves (\<lambda>s. J (world s)) (open_beneath K (fs_file fs) [] {O_RDWR, O_TMPFILE})"
    unfolding open_beneath_def Let_def by (intro preserve temps_sys_call(1) [OF assms])
  have "temp f" if "open_beneath K (fs_file fs) [] {O_RDWR, O_TMPFILE} s = (Inr f, t)" for s f t
  proof -
    from that have "fst (k_openat2 K (fs_file fs) ''.'' {O_CLOEXEC, O_RDWR, O_TMPFILE}
        {RESOLVE_BENEATH, RESOLVE_NO_SYMLINKS, RESOLVE_NO_XDEV} (world s)) = Inr f"
      by (auto simp: open_beneath_def sys_call_Inr)
    with assms show ?thesis unfolding temps_keep_def by (metis insertCI)
  qed
  then show ?thesis
    unfolding temp_file_def get_flags_def set_flags_def
    by (intro preserves_bindE_val [OF beneath] preserve reads_is_nocow reads_sys_call
          temps_sys_call(2) [OF assms] temps_reads [OF assms])
qed

lemma temps_stage:
  assumes "temps_keep K temp J"
  shows "preserves (\<lambda>s. J (world s)) (stage K fs p bytes)"
  unfolding stage_def
  by (intro preserves_bindE_val [OF preserves_map_err [OF temps_temp_file [OF assms]]] preserve
        temps_sys_call(3) [OF assms])
     (auto dest: temp_file_temp [OF assms])

lemma stage_temp: "temps_keep K temp J \<Longrightarrow> stage K fs p bytes s = (Inr f, s') \<Longrightarrow> temp f"
  by (auto simp: stage_def bindE_Inr dest: temp_file_temp)

lemma temps_chunk_loop:
  assumes "temps_keep K temp J" and "temp f"
  shows "preserves (\<lambda>s. J (world s)) (chunk_loop K fs p f file start r fin till n at)"
  by (induction n arbitrary: at) (auto simp: Let_def intro!: preserve temps_dedupe assms)

lemma temps_redirect_chunks:
  assumes "temps_keep K temp J" and "temp f"
  shows "preserves (\<lambda>s. J (world s)) (redirect_chunks K fs h f lr filesize)"
  unfolding redirect_chunks_def redirect_ref_def Let_def
  by (intro preserve reads_Located_open temps_reads [OF assms(1)] temps_chunk_loop [OF assms])

lemma temps_redirect_all:
  assumes "temps_keep K temp J"
  shows "preserves (\<lambda>s. J (world s)) (redirect_all K fs hbs lr)"
  unfolding redirect_all_def
  by (rule preserves_bindE [OF preserves_unwrap], rule preserves_bindE_val [OF temps_stage [OF assms]])
     (auto intro!: preserve temps_redirect_chunks assms dest: stage_temp [OF assms])

lemma temps_redirect_tail:
  assumes "temps_keep K temp J"
  shows "preserves (\<lambda>s. J (world s)) (redirect_tail K fs p f frm n)"
  unfolding redirect_tail_def Let_def
  by (intro preserves_bindE [OF preserves_map_err [OF reads_read_into]] temps_reads [OF assms]
        preserves_bindE_val [OF temps_stage [OF assms]] preserve temps_dedupe [OF assms])
     (auto dest: stage_temp [OF assms])

lemma temps_finish_holder:
  assumes "temps_keep K temp J"
  shows "preserves (\<lambda>s. J (world s)) (finish_holder K fs h before)"
  unfolding finish_holder_def Let_def
  by (intro preserve temps_redirect_tail [OF assms] reads_Located_open reads_sys_call reads_modified_time temps_reads [OF assms])

lemma temps_realloc_extent:
  assumes "temps_keep K temp J"
  shows "preserves (\<lambda>s. J (world s)) (realloc_extent K fs e hs)"
  unfolding realloc_extent_def
  by (intro preserve reads_read_liveranges reads_HolderBefore_read reads_check_released
        temps_redirect_all [OF assms] temps_finish_holder [OF assms] temps_reads [OF assms])

end
