(* ===== verification/Live.thy ===== *)
theory Live
  imports Run
begin

text \<open>
  What \<open>read_liveranges\<close> reads (src/run.rs): the stretches it stages are the data of the extent, each
  read from a file that holds it, and they are all of it that lies in whole sectors some holder has.
\<close>

section \<open>Files as the kernel shows them\<close>

text \<open>While the kernel's state has \<open>J\<close>, each file of \<open>D\<close> has these contents and this size, and the
  program's reads give them. \<open>sz\<close> is below 2^63 as file sizes are signed in the kernel.\<close>

definition file_view ::
  "('w, 'f) kernel \<Rightarrow> ('w \<Rightarrow> bool) \<Rightarrow> ('f \<Rightarrow> u64 \<times> u64) \<Rightarrow> (u64 \<times> u64) set \<Rightarrow> (u64 \<times> u64 \<Rightarrow> nat \<Rightarrow> u8) \<Rightarrow>
     (u64 \<times> u64 \<Rightarrow> u64) \<Rightarrow> bool"
where
  "file_view K J ident D content sz \<longleftrightarrow> identifies K ident \<and> reads_keep K J
     \<and> (\<forall>w f at n bytes w'. J w \<longrightarrow> ident f \<in> D \<longrightarrow> k_read_exact_at K f at n w = (Inr bytes, w') \<longrightarrow>
          bytes = map (\<lambda>i. content (ident f) (unat at + i)) [0..<n])
     \<and> (\<forall>w f meta w'. J w \<longrightarrow> ident f \<in> D \<longrightarrow> k_metadata K f w = (Inr meta, w') \<longrightarrow> md_len meta = sz (ident f))
     \<and> (\<forall>k. unat (sz k) < 2 ^ 63)"

lemma file_view_facts:
  assumes "file_view K J ident D content sz"
  shows "identifies K ident" and "reads_keep K J" and "unat (sz k) < 2 ^ 63"
    and "J w \<Longrightarrow> ident f \<in> D \<Longrightarrow> k_read_exact_at K f at n w = (Inr bytes, w') \<Longrightarrow>
          bytes = map (\<lambda>i. content (ident f) (unat at + i)) [0..<n]"
    and "J w \<Longrightarrow> ident f \<in> D \<Longrightarrow> k_metadata K f w = (Inr meta, w') \<Longrightarrow> md_len meta = sz (ident f)"
  using assms unfolding file_view_def by blast+

abbreviation file_of_located :: "located \<Rightarrow> u64 \<times> u64" where
  "file_of_located h \<equiv> (h_root (lc_holder h), h_inode (lc_holder h))"

abbreviation steady_in :: "('w \<Rightarrow> bool) \<Rightarrow> 'w sys \<Rightarrow> bool" where
  "steady_in J s \<equiv> J (world s)"

lemma safe_sys_call:
  assumes "\<And>w. J w \<Longrightarrow> J (snd (f w))" and "\<And>w x w'. J w \<Longrightarrow> f w = (Inr x, w') \<Longrightarrow> Q x"
  shows "safe (steady_in J) Q (sys_call f)"
proof -
  have "wp (sys_call f) (\<lambda>x s. J (world s) \<and> Q x) (\<lambda>q s. J (world s) \<and> (\<exists>e. q = Raise e)) s"
    if "J (world s)" for s
    using assms(1) [OF that] assms(2) [OF that] by (auto simp: wp_simps split: prod.splits sum.splits)
  then show ?thesis by (simp add: safe_def)
qed

lemma safe_metadata_ino:
  assumes "identifies K ident" and "reads_keep K J"
  shows "safe (steady_in J) (\<lambda>meta. md_ino meta = snd (ident f)) (sys_call (k_metadata K f))"
proof (rule safe_sys_call)
  show "J (snd (k_metadata K f w))" if "J w" for w
    using assms(2) that by (simp add: reads_keep_def)
  show "md_ino x = snd (ident f)" if "k_metadata K f w = (Inr x, w')" for w x w'
    using assms(1) that unfolding identifies_def by blast
qed

lemma safe_metadata_len:
  assumes "file_view K J ident D content sz" and "ident f \<in> D"
  shows "safe (steady_in J) (\<lambda>meta. md_len meta = sz (ident f)) (sys_call (k_metadata K f))"
proof (rule safe_sys_call)
  show "J (snd (k_metadata K f w))" if "J w" for w
    using file_view_facts(2) [OF assms(1)] that by (simp add: reads_keep_def)
qed (rule file_view_facts(5) [OF assms(1) _ assms(2)])

lemma safe_own_root_id:
  assumes "identifies K ident" and "reads_keep K J"
  shows "safe (steady_in J) (\<lambda>root. root = fst (ident f)) (own_root_id K f)"
proof -
  have "safe (steady_in J) (\<lambda>x. fst x = fst (ident f)) (sys_call (k_ino_lookup K f 0 (FIRST_FREE_OBJECTID K)))"
  proof (rule safe_sys_call)
    show "J (snd (k_ino_lookup K f 0 (FIRST_FREE_OBJECTID K) w))" if "J w" for w
      using assms(2) that by (simp add: reads_keep_def)
    show "fst x = fst (ident f)" if "k_ino_lookup K f 0 (FIRST_FREE_OBJECTID K) w = (Inr x, w')" for w x w'
      using assms(1) that unfolding identifies_def by (metis prod.collapse)
  qed
  then show ?thesis
    unfolding own_root_id_def ino_lookup_args_def by (rule safe_bindE) (auto intro: safe_intros)
qed

lemma safe_open_beneath:
  assumes "reads_keep K J" and "O_TMPFILE \<notin> flags"
  shows "returns (steady_in J) (open_beneath K d p flags)"
  unfolding open_beneath_def Let_def
  by (intro safe_intros safe_sys_call) (use assms in \<open>simp_all add: reads_keep_def\<close>)

lemma safe_open_inode:
  assumes "identifies K ident" and "reads_keep K J"
  shows "safe (steady_in J) (\<lambda>f. ident f = (root, inode)) (open_inode K fs p root inode)"
  unfolding open_inode_def
  by (rule safe_bindE [OF safe_open_beneath [OF assms(2)]], simp,
      rule safe_bindE [OF safe_metadata_ino [OF assms]], rule safe_if, rule safe_raise,
      rule safe_bindE [OF safe_own_root_id [OF assms]], rule safe_if, rule safe_raise, rule safe_ret)
     (auto simp: prod_eq_iff)

lemma safe_Located_open:
  assumes "identifies K ident" and "reads_keep K J"
  shows "safe (steady_in J) (\<lambda>f. ident f = file_of_located h) (Located_open K fs h)"
  unfolding Located_open_def by (intro safe_map_err safe_open_inode assms)

lemma safe_read_into:
  assumes "file_view K J ident D content sz" and "lo \<le> hi" and "hi \<le> length buf" and "ident f \<in> D"
  shows "safe (steady_in J)
     (\<lambda>buf'. buf' = take lo buf @ map (\<lambda>i. content (ident f) (unat at + i)) [0..<hi - lo] @ drop hi buf)
     (read_into K f at lo hi buf)"
proof -
  have "safe (steady_in J) (\<lambda>bytes. bytes = map (\<lambda>i. content (ident f) (unat at + i)) [0..<hi - lo])
      (sys_call (k_read_exact_at K f at (hi - lo)))"
  proof (rule safe_sys_call)
    show "J (snd (k_read_exact_at K f at (hi - lo) w))" if "J w" for w
      using file_view_facts(2) [OF assms(1)] that by (simp add: reads_keep_def)
  qed (rule file_view_facts(4) [OF assms(1) _ assms(4)])
  then show ?thesis
    unfolding read_into_def using assms(2,3)
    by (auto intro!: safe_bindE safe_ret simp: overwrite_def)
qed

section \<open>One pass over the references\<close>

text \<open>A reference of a file that holds the extent is placed below 2^63 in both, as files and extents
  are; \<open>avail_end\<close> is where what the file has of it ends, which is short of the reference where the
  file ends first; \<open>agrees\<close>: the file is one of \<open>D\<close> and holds the extent's data there.\<close>

definition placed :: "extent_ref \<Rightarrow> bool" where
  "placed r \<longleftrightarrow> unat (r_extent_offset r) + unat (r_num_bytes r) \<le> 2 ^ 63 \<and>
     unat (r_file_offset r) + unat (r_num_bytes r) \<le> 2 ^ 63"

definition avail_end :: "(u64 \<times> u64 \<Rightarrow> u64) \<Rightarrow> extent_ref \<times> located \<Rightarrow> nat" where
  "avail_end sz rh =
     (case rh of (r, h) \<Rightarrow>
        unat (r_extent_offset r) + min (unat (r_num_bytes r)) (unat (sz (file_of_located h)) - unat (r_file_offset r)))"

definition agrees :: "(u64 \<times> u64) set \<Rightarrow> (u64 \<times> u64 \<Rightarrow> nat \<Rightarrow> u8) \<Rightarrow> (nat \<Rightarrow> u8) \<Rightarrow> extent_ref \<times> located \<Rightarrow> bool" where
  "agrees D content data rh \<longleftrightarrow>
     (case rh of (r, h) \<Rightarrow> file_of_located h \<in> D \<and> (\<forall>i < unat (r_num_bytes r).
        content (file_of_located h) (unat (r_file_offset r) + i) = data (unat (r_extent_offset r) + i)))"

abbreviation ref_at :: "extent_ref \<times> located \<Rightarrow> nat" where
  "ref_at rh \<equiv> unat (r_extent_offset (fst rh))"

text \<open>How far one reference takes the pass: on naturals, and then on words.\<close>

lemma reach_iff:
  fixes a f e n l o' :: nat
  assumes "e \<le> a" and "a < e + n" and "a < f"
  shows "min (min f (e + n)) (a + (l - (o' + (a - e)))) \<le> a \<longleftrightarrow> e + min n (l - o') \<le> a"
  using assms by linarith

lemma reach_eq:
  fixes a f e n l o' :: nat
  assumes "e \<le> a" and "a < e + n" and "a < f" and "\<not> min (min f (e + n)) (a + (l - (o' + (a - e)))) \<le> a"
  shows "min (min f (e + n)) (a + (l - (o' + (a - e)))) = min f (e + min n (l - o'))"
  using assms by linarith

lemma till_of_ref:
  fixes r h at fin sz
  defines "len \<equiv> sz (file_of_located h)" and "fo \<equiv> r_file_offset r + (at - r_extent_offset r)"
  defines "till \<equiv> min (min fin (r_extent_offset r + r_num_bytes r)) (at + saturating_sub len fo)"
  assumes "placed r" and "unat len < 2 ^ 63"
    and "r_extent_offset r \<le> at" and "at < r_extent_offset r + r_num_bytes r" and "at < fin"
  shows "unat fo = unat (r_file_offset r) + (unat at - unat (r_extent_offset r))"
    and "till \<le> at \<longleftrightarrow> avail_end sz (r, h) \<le> unat at"
    and "\<not> till \<le> at \<Longrightarrow> unat till = min (unat fin) (avail_end sz (r, h))"
proof -
  have eo: "unat (r_extent_offset r + r_num_bytes r) = unat (r_extent_offset r) + unat (r_num_bytes r)"
    using assms(4) by (intro unat_add_fits) (simp add: placed_def fits_def)
  have at: "unat (r_extent_offset r) \<le> unat at" "unat at < unat (r_extent_offset r) + unat (r_num_bytes r)"
    using assms(6,7) eo by (simp_all add: word_le_nat_alt word_less_nat_alt)
  have d: "unat (at - r_extent_offset r) = unat at - unat (r_extent_offset r)"
    using assms(6) by (rule unat_sub_le)
  show fo: "unat fo = unat (r_file_offset r) + (unat at - unat (r_extent_offset r))"
  proof -
    have "fits (r_file_offset r) (at - r_extent_offset r)"
      using assms(4) at by (simp add: fits_def d placed_def) linarith
    then show ?thesis by (simp add: fo_def unat_add_fits d)
  qed
  have rem: "unat (saturating_sub len fo) = unat len - unat fo"
    by (simp add: saturating_sub_def unat_sub_le word_less_nat_alt not_less word_le_nat_alt)
  have sum: "unat (at + saturating_sub len fo) = unat at + (unat len - unat fo)"
  proof -
    have "fits at (saturating_sub len fo)"
      using assms(4,5) at by (simp add: fits_def rem placed_def) linarith?
    then show ?thesis by (simp add: unat_add_fits rem)
  qed
  have till: "unat till = min (min (unat fin) (unat (r_extent_offset r) + unat (r_num_bytes r))) (unat at + (unat len - unat fo))"
    unfolding till_def by (simp add: unat_min eo sum)
  have fin: "unat at < unat fin" using assms(8) by (simp add: word_less_nat_alt)
  note nats = word_le_nat_alt till avail_end_def fo prod.case len_def [symmetric]
  show "till \<le> at \<longleftrightarrow> avail_end sz (r, h) \<le> unat at"
    unfolding nats by (rule reach_iff [OF at fin])
  show "unat till = min (unat fin) (avail_end sz (r, h))" if "\<not> till \<le> at"
    using that unfolding nats by (rule reach_eq [OF at fin])
qed

lemma fill_loop_stuck:
  "\<forall>rh \<in> set refs. at < r_extent_offset (fst rh) \<Longrightarrow> fill_loop K fs start fin refs at buf = ret (at, buf)"
proof (induction refs)
  case (Cons rh refs)
  then show ?case by (cases rh) simp
qed simp

text \<open>What a pass leaves: the buffer holds the data as far as \<open>at'\<close>, each byte of it is one some
  reference has, and no reference has the byte there, unless it is the end.\<close>

definition filled ::
  "(nat \<Rightarrow> u8) \<Rightarrow> (u64 \<times> u64 \<Rightarrow> u64) \<Rightarrow> u64 \<Rightarrow> u64 \<Rightarrow> (extent_ref \<times> located) list \<Rightarrow> u64 \<Rightarrow> u64 \<times> u8 list \<Rightarrow> bool"
where
  "filled data sz start fin refs at x \<longleftrightarrow>
     (case x of (at', buf) \<Rightarrow>
        at \<le> at' \<and> at' \<le> fin \<and> length buf = unat (fin - start) \<and>
        take (unat (at' - start)) buf = map data [unat start..<unat at'] \<and>
        (\<forall>y. unat at \<le> y \<longrightarrow> y < unat at' \<longrightarrow> (\<exists>rh \<in> set refs. ref_at rh \<le> y \<and> y < avail_end sz rh)) \<and>
        (at' = fin \<or> (\<forall>rh \<in> set refs. ref_at rh \<le> unat at' \<longrightarrow> avail_end sz rh \<le> unat at')))"

lemma filled_cons:
  assumes "filled data sz start fin refs at' x" and "at \<le> at'"
    and "avail_end sz rh \<le> unat at' \<or> at' = fin"
    and "at' = at \<or> (ref_at rh \<le> unat at \<and> unat at' \<le> avail_end sz rh)"
  shows "filled data sz start fin (rh # refs) at x"
proof (cases x)
  case (Pair a b)
  have le: "at' \<le> a" "a \<le> fin" using assms(1) by (auto simp: filled_def Pair)
  have cover: "\<exists>rh' \<in> set (rh # refs). ref_at rh' \<le> y \<and> y < avail_end sz rh'"
    if y: "unat at \<le> y" "y < unat a" for y
  proof (cases "y < unat at'")
    case True
    with assms(4) y(1) show ?thesis by auto
  next
    case False
    with assms(1) y(2) show ?thesis by (auto simp: filled_def Pair)
  qed
  show ?thesis
  proof (cases "at' = fin")
    case True
    with le have "a = fin" by (auto dest: order_antisym)
    with assms(1,2) cover show ?thesis by (auto simp: filled_def Pair)
  next
    case False
    with assms(3) le have "avail_end sz rh \<le> unat a" by (simp add: word_le_nat_alt)
    with assms(1,2) cover show ?thesis by (auto simp: filled_def Pair)
  qed
qed

lemma fill_extend:
  assumes "start \<le> at" and "at < till" and "till \<le> fin"
    and "length buf = unat (fin - start)" and "take (unat (at - start)) buf = map data [unat start..<unat at]"
    and "\<forall>i < unat till - unat at. g i = data (unat at + i)"
  defines "buf' \<equiv> take (unat (at - start)) buf @ map g [0..<unat (till - start) - unat (at - start)]
      @ drop (unat (till - start)) buf"
  shows "length buf' = unat (fin - start) \<and> take (unat (till - start)) buf' = map data [unat start..<unat till]"
proof -
  have le: "unat start \<le> unat at" "unat at < unat till" "unat till \<le> unat fin"
    using assms(1-3) by (simp_all add: word_le_nat_alt word_less_nat_alt)
  have sub: "unat (at - start) = unat at - unat start" "unat (till - start) = unat till - unat start"
    "unat (fin - start) = unat fin - unat start"
    using assms(1-3) by (auto intro!: unat_sub_le)
  have "map g [0..<unat till - unat at] = map data [unat at..<unat till]"
    using assms(6) by (intro nth_equalityI) auto
  moreover have "[unat start..<unat till] = [unat start..<unat at] @ [unat at..<unat till]"
    using le by (metis less_imp_le_nat upt_add_eq_append le_add_diff_inverse)
  ultimately show ?thesis
    using le assms(4,5) by (simp add: buf'_def sub)
qed

lemma fill_loop_safe:
  assumes view: "file_view K J ident D content sz"
    and "\<forall>rh \<in> set refs. placed (fst rh) \<and> agrees D content data rh"
    and "sorted (map (\<lambda>rh. r_extent_offset (fst rh)) refs)"
    and "start \<le> at" and "at \<le> fin"
    and "length buf = unat (fin - start)" and "take (unat (at - start)) buf = map data [unat start..<unat at]"
  shows "safe (steady_in J) (filled data sz start fin refs at) (fill_loop K fs start fin refs at buf)"
  using assms(2-)
proof (induction refs arbitrary: at buf)
  case Nil
  then show ?case by (auto intro!: safe_ret simp: filled_def)
next
  case (Cons rh refs)
  obtain r h where rh: "rh = (r, h)" by (cases rh)
  have placed: "placed r" and agrees: "agrees D content data (r, h)" using Cons.prems(1) rh by simp_all
  have again: "safe (steady_in J) (filled data sz start fin refs at) (fill_loop K fs start fin refs at buf)"
    using Cons.prems by (intro Cons.IH) auto
  show ?case
  proof (cases "fin \<le> at")
    case True
    then show ?thesis using Cons.prems by (auto intro!: safe_ret simp: filled_def rh)
  next
    case open_: False
    show ?thesis
    proof (cases "at < r_extent_offset r \<or> r_extent_offset r + r_num_bytes r \<le> at")
      case skip: True
      then have step: "fill_loop K fs start fin (rh # refs) at buf = fill_loop K fs start fin refs at buf"
        using open_ by (auto simp: rh)
      show ?thesis
      proof (cases "at < r_extent_offset r")
        case True
        then have "\<forall>rh \<in> set (rh # refs). at < r_extent_offset (fst rh)" using Cons.prems(2) rh by auto
        with Cons.prems(3-) show ?thesis
          by (auto simp: fill_loop_stuck filled_def word_less_nat_alt intro!: safe_ret)
      next
        case False
        with skip have "avail_end sz rh \<le> unat at"
          using placed by (auto simp: avail_end_def rh placed_def word_le_nat_alt unat_add_fits fits_def)
        then show ?thesis unfolding step by (blast intro: safe_weaken [OF again] filled_cons)
      qed
    next
      case inside: False
      then have eo: "r_extent_offset r \<le> at" "at < r_extent_offset r + r_num_bytes r"
        by (simp_all add: not_less not_le)
      define fo where "fo = r_file_offset r + (at - r_extent_offset r)"
      define till where "till = min (min fin (r_extent_offset r + r_num_bytes r))
          (at + saturating_sub (sz (file_of_located h)) fo)"
      have fin: "at < fin" using open_ by simp
      note reach = till_of_ref [where h = h and sz = sz, OF placed file_view_facts(3) [OF view] eo fin, folded fo_def, folded till_def]
      have go: "safe (steady_in J) (filled data sz start fin (rh # refs) at)
          (bindE (map_err (Failure_new (lc_path h))
                   (read_into K f fo (unat (at - start)) (unat (till - start)) buf)) (fill_loop K fs start fin refs till))"
        if "ident f = file_of_located h" "\<not> till \<le> at" for f
      proof -
        have D: "ident f \<in> D" using agrees that(1) by (simp add: agrees_def)
        have till: "unat till = min (unat fin) (avail_end sz (r, h))" "at < till" "till \<le> fin"
        proof -
          show "till \<le> fin" unfolding till_def by (intro min.coboundedI1) (rule order_refl)
        qed (use reach(3) [OF that(2)] that(2) in \<open>simp_all only: not_le\<close>)
        have "unat at - unat start \<le> unat till - unat start" "unat till - unat start \<le> length buf"
          using till(2,3) Cons.prems(3,5) by (simp_all add: word_le_nat_alt word_less_nat_alt unat_sub_le)
        then have le: "unat (at - start) \<le> unat (till - start)" "unat (till - start) \<le> length buf"
          using till(2,3) Cons.prems(3) by (simp_all add: unat_sub_le)
        have g: "\<forall>i < unat till - unat at. content (ident f) (unat fo + i) = data (unat at + i)"
        proof (intro allI impI)
          fix i assume "i < unat till - unat at"
          then have "unat at - unat (r_extent_offset r) + i < unat (r_num_bytes r)"
            using till(1) eo(1) by (simp add: avail_end_def word_le_nat_alt)
          then show "content (ident f) (unat fo + i) = data (unat at + i)"
            using agrees eo(1) reach(1) that(1)
            by (fastforce simp: agrees_def word_le_nat_alt algebra_simps)
        qed
        show ?thesis
        proof (rule safe_bindE [OF safe_map_err [OF safe_read_into [OF view le D]]])
          fix buf'
          assume buf': "buf' = take (unat (at - start)) buf @ map (\<lambda>i. content (ident f) (unat fo + i))
                [0..<unat (till - start) - unat (at - start)] @ drop (unat (till - start)) buf"
          have "safe (steady_in J) (filled data sz start fin refs till) (fill_loop K fs start fin refs till buf')"
            using fill_extend [OF Cons.prems(3) till(2,3) Cons.prems(5,6) g] Cons.prems(1,2,3) till(2,3)
            unfolding buf' by (intro Cons.IH) auto
          then show "safe (steady_in J) (filled data sz start fin (rh # refs) at) (fill_loop K fs start fin refs till buf')"
          proof (rule safe_weaken)
            fix x assume "filled data sz start fin refs till x"
            then show "filled data sz start fin (rh # refs) at x"
              by (rule filled_cons) (use till rh eo(1) in \<open>auto simp: min_def word_unat_eq_iff word_le_nat_alt word_less_nat_alt split: if_splits\<close>)
          qed
        qed
      qed
      show ?thesis
        using open_ inside
        by (simp add: rh Let_def fo_def [symmetric])
           (rule safe_bindE [OF safe_Located_open [OF file_view_facts(1,2) [OF view]]],
            rule safe_bindE [OF safe_map_err [OF safe_metadata_len [OF view]]], use agrees in \<open>simp add: agrees_def\<close>,
            use go again reach(2) rh in \<open>auto simp: till_def [symmetric] intro: filled_cons elim!: safe_weaken\<close>)
    qed
  qed
qed

lemma fill_safe:
  assumes "file_view K J ident D content sz"
    and "\<forall>rh \<in> set refs. placed (fst rh) \<and> agrees D content data rh"
    and "sorted (map (\<lambda>rh. r_extent_offset (fst rh)) refs)"
    and "start \<le> fin" and "length buf = unat (fin - start)"
  shows "safe (steady_in J) (filled data sz start fin refs start) (fill K fs refs start fin buf)"
  unfolding fill_def by (rule fill_loop_safe [OF assms(1-3)]) (use assms(4,5) in simp_all)

section \<open>All the stretches of a live range\<close>

definition aligned :: "u64 \<Rightarrow> u64 \<Rightarrow> bool" where
  "aligned ss x \<longleftrightarrow> unat ss dvd unat x"

text \<open>The whole sector of byte \<open>x\<close> of the extent is there to read in some file.\<close>

definition has_sector :: "u64 \<Rightarrow> (u64 \<times> u64 \<Rightarrow> u64) \<Rightarrow> (extent_ref \<times> located) list \<Rightarrow> nat \<Rightarrow> bool" where
  "has_sector ss sz refs x \<longleftrightarrow>
     (\<exists>rh \<in> set refs. ref_at rh \<le> x \<and> (x div unat ss + 1) * unat ss \<le> avail_end sz rh)"

definition copy_ok :: "(nat \<Rightarrow> u8) \<Rightarrow> u64 \<Rightarrow> u64 \<Rightarrow> u64 \<Rightarrow> live_range \<Rightarrow> bool" where
  "copy_ok data ss lo hi c \<longleftrightarrow>
     aligned ss (lr_start c) \<and> aligned ss (lr_end c) \<and>
     lo \<le> lr_start c \<and> lr_start c < lr_end c \<and> lr_end c \<le> hi \<and>
     lr_bytes c = map data [unat (lr_start c)..<unat (lr_end c)]"

definition in_copy :: "live_range list \<Rightarrow> nat \<Rightarrow> bool" where
  "in_copy cs x \<longleftrightarrow> (\<exists>c \<in> set cs. unat (lr_start c) \<le> x \<and> x < unat (lr_end c))"

definition stretches ::
  "(nat \<Rightarrow> u8) \<Rightarrow> u64 \<Rightarrow> (u64 \<times> u64 \<Rightarrow> u64) \<Rightarrow> (extent_ref \<times> located) list \<Rightarrow> u64 \<Rightarrow> u64 \<Rightarrow> live_range list \<Rightarrow> bool"
where
  "stretches data ss sz refs start fin cs \<longleftrightarrow>
     list_all (copy_ok data ss start fin) cs \<and>
     sorted_wrt (\<lambda>c c'. lr_end c \<le> lr_start c') cs \<and>
     (\<forall>x. in_copy cs x \<longrightarrow> has_sector ss sz refs x) \<and>
     (\<forall>x. unat start \<le> x \<longrightarrow> x < unat fin \<longrightarrow> has_sector ss sz refs x \<longrightarrow> in_copy cs x)"

lemma round_down_Some:
  assumes "ss \<noteq> 0"
  obtains t where "round_down n ss = Some t" "unat t = unat n div unat ss * unat ss"
proof
  show "round_down n ss = Some (n div ss * ss)" using assms by (simp add: round_down_def)
  have "unat n div unat ss * unat ss \<le> unat n" by simp
  then have "unat n div unat ss * unat ss < 2 ^ 64" "unat n div unat ss < 2 ^ 64"
    using unat_u64_bound [of n] div_le_dividend [of "unat n" "unat ss"] by linarith+
  then show "unat (n div ss * ss) = unat n div unat ss * unat ss"
    by (simp add: unat_word_ariths unat_div)
qed

lemma next_start_eq:
  "next_start refs read fin =
     (let os = filter (\<lambda>offset. read < offset) (map (\<lambda>rh. r_extent_offset (fst rh)) refs)
      in if os = [] then fin else Min (set os))"
  by (auto simp del: set_filter simp: next_start_def Let_def Min.set_eq_fold [symmetric] split: list.splits)

lemma next_start_cases:
  obtains "next_start refs read fin = fin" "\<forall>rh \<in> set refs. r_extent_offset (fst rh) \<le> read"
  | rh where "rh \<in> set refs" "next_start refs read fin = r_extent_offset (fst rh)" "read < r_extent_offset (fst rh)"
      "\<forall>rh' \<in> set refs. read < r_extent_offset (fst rh') \<longrightarrow> r_extent_offset (fst rh) \<le> r_extent_offset (fst rh')"
proof (cases "\<exists>rh \<in> set refs. read < r_extent_offset (fst rh)")
  case False
  then show thesis
    using that(1) by (auto simp: next_start_eq Let_def filter_empty_conv not_less)
next
  case True
  let ?os = "filter (\<lambda>offset. read < offset) (map (\<lambda>rh. r_extent_offset (fst rh)) refs)"
  have "?os \<noteq> []" using True by (auto simp: filter_empty_conv)
  then have eq: "next_start refs read fin = Min (set ?os)" by (simp only: next_start_eq Let_def if_False)
  have "Min (set ?os) \<in> set ?os" using \<open>?os \<noteq> []\<close> by (intro Min_in) (simp_all del: set_filter)
  then obtain rh where "rh \<in> set refs" "Min (set ?os) = r_extent_offset (fst rh)" "read < r_extent_offset (fst rh)"
    by auto
  moreover have "\<forall>rh' \<in> set refs. read < r_extent_offset (fst rh') \<longrightarrow> Min (set ?os) \<le> r_extent_offset (fst rh')"
    by (intro ballI impI Min_le) auto
  ultimately show thesis using that(2) [of rh] unfolding eq by simp
qed

lemma filter_length_less:
  assumes "\<And>x. P x \<Longrightarrow> Q x" and "y \<in> set xs" and "Q y" and "\<not> P y"
  shows "length (filter P xs) < length (filter Q xs)"
proof -
  have "filter P xs = filter P (filter Q xs)" using assms(1) by (auto intro: filter_cong)
  moreover have "length (filter P (filter Q xs)) < length (filter Q xs)"
    by (rule length_filter_less [of y]) (use assms(2-) in auto)
  ultimately show ?thesis by simp
qed

text \<open>A sector that starts no earlier than \<open>a\<close> and ends by a multiple \<open>b\<close> of its size.\<close>

lemma sector_below:
  fixes x n b :: nat
  assumes "0 < n" and "x < b" and "n dvd b"
  shows "(x div n + 1) * n \<le> b"
proof -
  obtain k where k: "b = n * k" using assms(3) by blast
  have "x div n < k" using assms(1,2) by (simp add: k less_mult_imp_div_less mult.commute)
  then have "Suc (x div n) * n \<le> k * n" by (intro mult_right_mono) auto
  then show ?thesis by (simp add: k mult.commute)
qed

lemma sector_within:
  fixes x n b :: nat
  assumes "0 < n" and "(x div n + 1) * n \<le> b"
  shows "x < b div n * n"
proof -
  have "x div n + 1 \<le> b div n" using assms by (simp add: less_eq_div_iff_mult_less_eq)
  then have "(x div n + 1) * n \<le> b div n * n" by (rule mult_right_mono) simp
  moreover have "x < (x div n + 1) * n" using assms(1) by (simp add: dividend_less_div_times)
  ultimately show ?thesis by simp
qed

lemma stretches_step:
  assumes filled: "filled data sz start fin refs start (read, bytes)"
    and till: "unat till = unat read div unat ss * unat ss" and ss: "ss \<noteq> 0"
    and start: "aligned ss start" "start < fin" and fin: "aligned ss fin"
    and refs: "\<forall>rh \<in> set refs. aligned ss (r_extent_offset (fst rh))"
    and rest: "stretches data ss sz refs (next_start refs read fin) fin cs"
  shows "stretches data ss sz refs start fin
    ((if start < till then [\<lparr>lr_bytes = take (unat (till - start)) bytes, lr_start = start, lr_end = till\<rparr>] else []) @ cs)"
proof -
  have read: "start \<le> read" "read \<le> fin" "take (unat (read - start)) bytes = map data [unat start..<unat read]"
    and cover: "\<forall>y. unat start \<le> y \<longrightarrow> y < unat read \<longrightarrow> (\<exists>rh \<in> set refs. ref_at rh \<le> y \<and> y < avail_end sz rh)"
    and stuck: "read = fin \<or> (\<forall>rh \<in> set refs. ref_at rh \<le> unat read \<longrightarrow> avail_end sz rh \<le> unat read)"
    using filled by (auto simp: filled_def)
  have ss': "0 < unat ss" using ss by (simp add: unat_gt_0)
  have till_le: "till \<le> read" by (simp add: word_le_nat_alt till)
  have next_ge: "read \<le> next_start refs read fin"
    by (rule next_start_cases [of refs read fin]) (use read in auto)
  have first: "copy_ok data ss start fin \<lparr>lr_bytes = take (unat (till - start)) bytes, lr_start = start, lr_end = till\<rparr>"
    if "start < till"
  proof -
    have "unat (till - start) \<le> unat (read - start)"
      using that till_le read(1) less_imp_le [OF that]
      by (simp add: unat_sub_le) (simp add: word_le_nat_alt)
    then have "take (unat (till - start)) bytes = take (unat (till - start)) (map data [unat start..<unat read])"
      using read(3) by (metis min.absorb1 take_take)
    moreover have "take (unat (till - start)) [unat start..<unat read] = [unat start..<unat till]"
      using that till_le read(1) less_imp_le [OF that]
      by (simp add: take_upt unat_sub_le) (simp add: word_le_nat_alt)
    ultimately show ?thesis
      using that till_le read(2) start(1) by (auto simp: copy_ok_def aligned_def till take_map)
  qed
  have later: "list_all (copy_ok data ss start fin) cs" "\<forall>c \<in> set cs. till \<le> lr_start c"
    using rest read(1) till_le next_ge by (fastforce simp: stretches_def list_all_iff copy_ok_def)+
  have complete: "in_copy ((if start < till then [\<lparr>lr_bytes = take (unat (till - start)) bytes, lr_start = start, lr_end = till\<rparr>] else []) @ cs) x"
    if x: "unat start \<le> x" "x < unat fin" "has_sector ss sz refs x" for x
  proof -
    from x(3) obtain rh where rh: "rh \<in> set refs" "ref_at rh \<le> x" "(x div unat ss + 1) * unat ss \<le> avail_end sz rh"
      by (auto simp: has_sector_def)
    have x_less: "x < (x div unat ss + 1) * unat ss" using ss' by (simp add: dividend_less_div_times)
    show ?thesis
    proof (cases "x < unat read")
      case True
      have "(x div unat ss + 1) * unat ss \<le> unat read"
      proof (cases "read = fin")
        case True
        then show ?thesis using sector_below [OF ss' x(2)] fin by (simp add: aligned_def)
      next
        case False
        with stuck rh(1,2) True have "avail_end sz rh \<le> unat read" by (meson le_less_trans less_imp_le)
        with rh(3) show ?thesis by simp
      qed
      then have "x < unat till" unfolding till by (rule sector_within [OF ss'])
      moreover from this have "start < till" using x(1) by (simp add: word_less_nat_alt)
      ultimately show ?thesis using x(1) by (auto simp: in_copy_def)
    next
      case False
      have "unat (next_start refs read fin) \<le> x"
      proof (rule ccontr)
        assume early: "\<not> unat (next_start refs read fin) \<le> x"
        then have "ref_at rh \<le> unat read"
          using rh(1,2) by (cases rule: next_start_cases [of refs read fin]) (auto simp: word_le_nat_alt word_less_nat_alt not_less)
        with stuck rh(1) have "read = fin \<or> avail_end sz rh \<le> unat read" by blast
        then show False using False x(2) rh(3) x_less by auto
      qed
      with rest x(2,3) show ?thesis by (auto simp: stretches_def in_copy_def)
    qed
  qed
  have sound: "has_sector ss sz refs x" if x: "unat start \<le> x" "x < unat till" for x
  proof -
    let ?y = "(x div unat ss + 1) * unat ss - 1"
    have sector: "(x div unat ss + 1) * unat ss \<le> unat till" by (rule sector_below [OF ss' x(2)]) (simp add: till)
    have x_le: "x \<le> ?y" using dividend_less_div_times [of "unat ss" x] ss' by simp
    have "?y < unat read" using sector till_le ss' by (simp add: word_le_nat_alt)
    then obtain rh where rh: "rh \<in> set refs" "ref_at rh \<le> ?y" "?y < avail_end sz rh"
      using cover [rule_format, of ?y] x(1) x_le by auto
    from refs rh(1) obtain k where k: "ref_at rh = unat ss * k" by (auto simp: aligned_def)
    have "unat ss * k < unat ss * (x div unat ss + 1)" using rh(2) ss' by (simp add: k mult.commute)
    then have "k < x div unat ss + 1" by (simp only: nat_mult_less_cancel_disj)
    then have "unat ss * k \<le> unat ss * (x div unat ss)" by (intro mult_left_mono) auto
    also have "\<dots> \<le> x" by simp
    finally have "ref_at rh \<le> x" by (simp add: k)
    with rh(1,3) show ?thesis by (auto simp: has_sector_def)
  qed
  show ?thesis
    unfolding stretches_def
    using first later rest complete sound by (auto simp: stretches_def list_all_iff in_copy_def)
qed

text \<open>The rounds the loop has left are enough: one for each reference that starts past \<open>start\<close>, one
  for this stretch, one to see the end.\<close>

lemma stretch_loop_safe:
  assumes view: "file_view K J ident D content sz" and ss: "fs_sectorsize fs \<noteq> 0"
    and refs: "\<forall>rh \<in> set refs. placed (fst rh) \<and> agrees D content data rh \<and>
        aligned (fs_sectorsize fs) (r_extent_offset (fst rh))"
    and sorted: "sorted (map (\<lambda>rh. r_extent_offset (fst rh)) refs)" and fin: "aligned (fs_sectorsize fs) fin"
    and "0 < n" and "start < fin \<Longrightarrow> aligned (fs_sectorsize fs) start \<and>
        length (filter (\<lambda>rh. start < r_extent_offset (fst rh)) refs) + 2 \<le> n"
  shows "safe (steady_in J)
    (\<lambda>r. \<exists>cs. r = copies @ cs \<and> stretches data (fs_sectorsize fs) sz refs start fin cs)
    (stretch_loop K fs refs fin n start copies)"
  using assms(6,7)
proof (induction n arbitrary: start copies)
  case (Suc n)
  show ?case
  proof (cases "fin \<le> start")
    case True
    then have "stretches data (fs_sectorsize fs) sz refs start fin []"
      by (auto simp: stretches_def in_copy_def word_le_nat_alt)
    with True show ?thesis by (auto intro!: safe_ret)
  next
    case False
    then have start: "start < fin" "aligned (fs_sectorsize fs) start"
      "length (filter (\<lambda>rh. start < r_extent_offset (fst rh)) refs) + 1 \<le> n"
      using Suc.prems(2) by simp_all
    have more: "safe (steady_in J) (\<lambda>r. \<exists>cs. r = copies' @ cs \<and>
          stretches data (fs_sectorsize fs) sz refs (next_start refs read fin) fin cs)
        (stretch_loop K fs refs fin n (next_start refs read fin) copies')"
      if "start \<le> read" for read copies'
    proof (rule Suc.IH)
      show "0 < n" using start(3) by simp
      assume "next_start refs read fin < fin"
      then show "aligned (fs_sectorsize fs) (next_start refs read fin) \<and>
          length (filter (\<lambda>rh. next_start refs read fin < r_extent_offset (fst rh)) refs) + 2 \<le> n"
      proof (cases rule: next_start_cases [of refs read fin])
        case (2 rh)
        have "length (filter (\<lambda>rh'. r_extent_offset (fst rh) < r_extent_offset (fst rh')) refs)
            < length (filter (\<lambda>rh. start < r_extent_offset (fst rh)) refs)"
          by (rule filter_length_less [OF _ 2(1)]) (use that 2(3) in auto)
        with 2(1,2) refs start(3) show ?thesis by simp
      qed simp
    qed
    have step: "safe (steady_in J) (\<lambda>r. \<exists>cs. r = copies @ cs \<and> stretches data (fs_sectorsize fs) sz refs start fin cs)
        (bindE (unwrap (round_down read (fs_sectorsize fs))) (\<lambda>till.
         stretch_loop K fs refs fin n (next_start refs read fin)
          (if start < till
           then copies @ [\<lparr>lr_bytes = take (unat (till - start)) bytes, lr_start = start, lr_end = till\<rparr>]
           else copies)))"
      if filled: "filled data sz start fin refs start (read, bytes)" for read bytes
    proof -
      obtain t where t: "round_down read (fs_sectorsize fs) = Some t"
        "unat t = unat read div unat (fs_sectorsize fs) * unat (fs_sectorsize fs)"
        using round_down_Some [OF ss] by blast
      have "start \<le> read" using filled by (simp add: filled_def)
      have aligned: "\<forall>rh \<in> set refs. aligned (fs_sectorsize fs) (r_extent_offset (fst rh))" using refs by simp
      note one = stretches_step [OF filled t(2) ss start(2,1) fin aligned]
      show ?thesis
        by (rule safe_bindE [OF safe_unwrap [where Q = "\<lambda>x. x = t", OF t(1) refl]], rule safe_weaken [OF more [OF \<open>start \<le> read\<close>]])
           (use one in \<open>fastforce split: if_splits\<close>)
    qed
    have pass: "safe (steady_in J) (filled data sz start fin refs start)
        (fill K fs refs start fin (replicate (unat (fin - start)) 0))"
      by (rule fill_safe [OF view _ sorted]) (use refs start(1) in auto)
    show ?thesis
      unfolding stretch_loop.simps if_not_P [OF False]
      by (rule safe_bindE [OF pass], rule safe_prod, rule step) simp
  qed
qed simp

text \<open>All live ranges, one after the other.\<close>

definition live_copies ::
  "(nat \<Rightarrow> u8) \<Rightarrow> u64 \<Rightarrow> (u64 \<times> u64 \<Rightarrow> u64) \<Rightarrow> (extent_ref \<times> located) list \<Rightarrow> u64 range list \<Rightarrow> live_range list \<Rightarrow> bool"
where
  "live_copies data ss sz refs ranges cs \<longleftrightarrow>
     (\<forall>c \<in> set cs. \<exists>g \<in> set ranges. copy_ok data ss (fst g) (snd g) c) \<and>
     sorted_wrt (\<lambda>c c'. lr_end c \<le> lr_start c') cs \<and>
     (\<forall>x. in_copy cs x \<longleftrightarrow> has_sector ss sz refs x \<and> (\<exists>g \<in> set ranges. unat (fst g) \<le> x \<and> x < unat (snd g)))"

lemma live_copies_Cons:
  assumes g: "stretches data ss sz refs (fst g) (snd g) cs" and rest: "live_copies data ss sz refs gs cs'"
    and apart: "\<forall>g' \<in> set gs. snd g < fst g'"
  shows "live_copies data ss sz refs (g # gs) (cs @ cs')"
proof -
  have "\<forall>c \<in> set cs. \<forall>c' \<in> set cs'. lr_end c \<le> lr_start c'"
    using g rest apart unfolding stretches_def live_copies_def list_all_iff copy_ok_def
    by (meson less_imp_le order_trans)
  moreover have within: "unat (fst g) \<le> x \<and> x < unat (snd g)" if "in_copy cs x" for x
    using g that unfolding stretches_def list_all_iff copy_ok_def in_copy_def
    by (meson le_less_trans less_le_trans order_trans word_le_nat_alt)
  moreover have "in_copy (cs @ cs') x \<longleftrightarrow> in_copy cs x \<or> in_copy cs' x" for x
    by (auto simp: in_copy_def)
  ultimately show ?thesis
    using g rest unfolding stretches_def live_copies_def list_all_iff
    by (auto simp: sorted_wrt_append)
qed

lemma read_ranges_safe:
  assumes view: "file_view K J ident D content sz" and ss: "fs_sectorsize fs \<noteq> 0"
    and refs: "\<forall>rh \<in> set refs. placed (fst rh) \<and> agrees D content data rh \<and>
        aligned (fs_sectorsize fs) (r_extent_offset (fst rh))"
    and sorted: "sorted (map (\<lambda>rh. r_extent_offset (fst rh)) refs)"
    and "gapped ranges" and "\<forall>g \<in> set ranges. aligned (fs_sectorsize fs) (fst g) \<and> aligned (fs_sectorsize fs) (snd g)"
  shows "safe (steady_in J)
    (\<lambda>r. \<exists>cs. r = copies @ cs \<and> live_copies data (fs_sectorsize fs) sz refs ranges cs)
    (foldE (\<lambda>range copies. stretch_loop K fs refs (snd range) (length refs + 2) (fst range) copies) ranges copies)"
  using assms(5,6)
proof (induction ranges arbitrary: copies)
  case Nil
  then show ?case by (auto intro!: safe_ret simp: live_copies_def in_copy_def)
next
  case (Cons g gs)
  have one: "safe (steady_in J)
      (\<lambda>r. \<exists>cs. r = copies @ cs \<and> stretches data (fs_sectorsize fs) sz refs (fst g) (snd g) cs)
      (stretch_loop K fs refs (snd g) (length refs + 2) (fst g) copies)"
    by (rule stretch_loop_safe [OF view ss refs sorted]) (use Cons.prems(2) in auto)
  show ?case
    unfolding foldE.simps
  proof (rule safe_bindE [OF one], elim exE conjE)
    fix r cs
    assume r: "r = copies @ cs" and cs: "stretches data (fs_sectorsize fs) sz refs (fst g) (snd g) cs"
    have gs: "gapped gs" "\<forall>g' \<in> set gs. snd g < fst g'" using Cons.prems(1) by (auto simp: gapped_def)
    show "safe (steady_in J)
        (\<lambda>r. \<exists>cs. r = copies @ cs \<and> live_copies data (fs_sectorsize fs) sz refs (g # gs) cs)
        (foldE (\<lambda>range copies. stretch_loop K fs refs (snd range) (length refs + 2) (fst range) copies) gs r)"
      by (rule safe_weaken [OF Cons.IH [OF gs(1)]])
         (use r live_copies_Cons [OF cs _ gs(2)] Cons.prems(2) in fastforce)+
  qed
qed

section \<open>Reading an extent\<close>

lemma set_sorted_refs: "set (sorted_refs hs) = {(r, h). h \<in> set hs \<and> r \<in> set (h_refs (lc_holder h))}"
  by (auto simp: sorted_refs_def)

lemma located_refs:
  assumes "map lc_holder hs = holders e"
  shows "(r, h) \<in> set (sorted_refs hs) \<Longrightarrow> r \<in> set (e_refs e) \<and> file_of_located h = (r_root r, r_inode r)"
    and "r \<in> set (e_refs e) \<Longrightarrow> \<exists>h. (r, h) \<in> set (sorted_refs hs)"
proof -
  assume "(r, h) \<in> set (sorted_refs hs)"
  then have h: "h \<in> set hs" "r \<in> set (h_refs (lc_holder h))" by (simp_all add: set_sorted_refs)
  then have "lc_holder h \<in> set (holders e)" unfolding assms [symmetric] by simp
  from holder_refs(1) [OF this] h(2) show "r \<in> set (e_refs e) \<and> file_of_located h = (r_root r, r_inode r)" by simp
next
  assume "r \<in> set (e_refs e)"
  then have "r \<in> set (concat (map h_refs (holders e)))" by (simp add: concat_holder_refs)
  then show "\<exists>h. (r, h) \<in> set (sorted_refs hs)" unfolding assms [symmetric] by (auto simp: set_sorted_refs)
qed

lemma live_at:
  assumes "extent_ok e" and "r \<in> set (e_refs e)"
    and "unat (r_extent_offset r) \<le> x" and "x < unat (r_extent_offset r) + unat (r_num_bytes r)"
  shows "\<exists>g \<in> set (e_live_ranges e). unat (fst g) \<le> x \<and> x < unat (snd g)"
proof -
  have fits: "fits (r_extent_offset r) (r_num_bytes r)" using assms(1,2) by (simp add: extent_ok_def ref_ok_def)
  define w where "w = (of_nat x :: u64)"
  have w: "unat w = x" using assms(4) fits by (simp add: w_def fits_def unat_of_nat)
  have "w \<in> live_bytes (e_refs e)"
    using assms(2-4) fits by (auto simp: live_bytes_def word_le_nat_alt word_less_nat_alt w unat_add_fits)
  then have "w \<in> covered (e_live_ranges e)" by (simp only: extent_ok_ranges(3) [OF assms(1)])
  then show ?thesis by (auto simp: covered_def span_def word_le_nat_alt word_less_nat_alt w)
qed

lemma live_ranges_aligned:
  assumes "extent_ok e" and "\<forall>r \<in> set (e_refs e). aligned ss (r_extent_offset r) \<and> aligned ss (r_num_bytes r)"
  shows "\<forall>g \<in> set (e_live_ranges e). aligned ss (fst g) \<and> aligned ss (snd g)"
proof
  fix g assume "g \<in> set (e_live_ranges e)"
  then have "g \<in> set (live_ranges (e_refs e))" using assms(1) by (simp add: extent_ok_def)
  from live_ranges_ends [OF this] obtain r r' where "r \<in> set (e_refs e)" "fst g = r_extent_offset r"
    "r' \<in> set (e_refs e)" "snd g = r_extent_offset r' + r_num_bytes r'" by blast
  with assms show "aligned ss (fst g) \<and> aligned ss (snd g)"
    by (auto simp: aligned_def extent_ok_def ref_ok_def unat_add_fits)
qed

text \<open>What a holder's file has of the extent is as its references say.\<close>

definition refs_good :: "u64 \<Rightarrow> (u64 \<times> u64) set \<Rightarrow> (u64 \<times> u64 \<Rightarrow> nat \<Rightarrow> u8) \<Rightarrow> (nat \<Rightarrow> u8) \<Rightarrow> extent \<Rightarrow> bool" where
  "refs_good ss D content data e \<longleftrightarrow>
     (\<forall>r \<in> set (e_refs e). placed r \<and> aligned ss (r_extent_offset r) \<and> aligned ss (r_num_bytes r) \<and>
        (r_root r, r_inode r) \<in> D \<and> (\<forall>i < unat (r_num_bytes r). content (r_root r, r_inode r) (unat (r_file_offset r) + i)
            = data (unat (r_extent_offset r) + i)))"

lemma located_good:
  assumes "refs_good ss D content data e" and "map lc_holder hs = holders e" and "(r, h) \<in> set (sorted_refs hs)"
  shows "placed r" and "agrees D content data (r, h)" and "aligned ss (r_extent_offset r)"
    and "aligned ss (r_num_bytes r)"
  using assms(1) located_refs(1) [OF assms(2,3)] by (auto simp: refs_good_def agrees_def)

lemma read_liveranges_safe:
  assumes "file_view K J ident D content sz" and "fs_sectorsize fs \<noteq> 0"
    and "extent_ok e" and "map lc_holder hs = holders e"
    and "refs_good (fs_sectorsize fs) D content data e"
  shows "safe (steady_in J) (live_copies data (fs_sectorsize fs) sz (sorted_refs hs) (e_live_ranges e))
    (read_liveranges K fs e hs)"
proof -
  let ?ss = "fs_sectorsize fs" and ?refs = "sorted_refs hs"
  have refs: "\<forall>rh \<in> set ?refs. placed (fst rh) \<and> agrees D content data rh \<and> aligned ?ss (r_extent_offset (fst rh))"
    using located_good [OF assms(5,4)] by auto
  have sorted: "sorted (map (\<lambda>rh. r_extent_offset (fst rh)) ?refs)" by (simp add: sorted_refs_def)
  have ends: "\<forall>g \<in> set (e_live_ranges e). aligned ?ss (fst g) \<and> aligned ?ss (snd g)"
    by (rule live_ranges_aligned [OF assms(3)]) (use assms(5) in \<open>simp add: refs_good_def\<close>)
  have "safe (steady_in J) (\<lambda>r. \<exists>cs. r = [] @ cs \<and> live_copies data ?ss sz ?refs (e_live_ranges e) cs)
      (read_liveranges K fs e hs)"
    unfolding read_liveranges_def Let_def
    by (rule read_ranges_safe [OF assms(1,2) refs sorted extent_ok_ranges(1) [OF assms(3)] ends])
  then show ?thesis by simp
qed

text \<open>
  C5: What is staged for a rewrite is the live data of the extent, all of it and nothing else. While
  the files hold still, each copy is a whole number of sectors holding the extent's data there, the
  copies do not overlap, and a byte of the extent is in one of them exactly when some file that
  holds it has the whole sector of it, before its end and before the end of its reference. Reading
  ends, without a panic, also where files end inside the extent or have shrunk since.
\<close>

theorem read_liveranges_exact:
  assumes "file_view K J ident D content sz" and "J (world s)" and "fs_sectorsize fs \<noteq> 0"
    and "extent_ok e" and "map lc_holder hs = holders e"
    and "\<forall>r \<in> set (e_refs e). placed r \<and> aligned (fs_sectorsize fs) (r_extent_offset r) \<and>
        aligned (fs_sectorsize fs) (r_num_bytes r) \<and> (r_root r, r_inode r) \<in> D \<and>
        (\<forall>i < unat (r_num_bytes r). content (r_root r, r_inode r) (unat (r_file_offset r) + i)
            = data (unat (r_extent_offset r) + i))"
  shows "wp (read_liveranges K fs e hs)
    (\<lambda>cs s'. J (world s')
      \<and> (\<forall>c \<in> set cs. aligned (fs_sectorsize fs) (lr_start c) \<and> aligned (fs_sectorsize fs) (lr_end c) \<and>
            lr_start c < lr_end c \<and> lr_bytes c = map data [unat (lr_start c)..<unat (lr_end c)])
      \<and> sorted_wrt (\<lambda>c c'. lr_end c \<le> lr_start c') cs
      \<and> {x. \<exists>c \<in> set cs. unat (lr_start c) \<le> x \<and> x < unat (lr_end c)}
          = {x. \<exists>r \<in> set (e_refs e). unat (r_extent_offset r) \<le> x \<and>
                (x div unat (fs_sectorsize fs) + 1) * unat (fs_sectorsize fs)
                  \<le> unat (r_extent_offset r) + min (unat (r_num_bytes r))
                       (unat (sz (r_root r, r_inode r)) - unat (r_file_offset r))})
    (\<lambda>q s'. J (world s') \<and> (\<exists>err. q = Raise err)) s"
proof -
  let ?ss = "fs_sectorsize fs" and ?refs = "sorted_refs hs"
  have sector: "has_sector ?ss sz ?refs x \<longleftrightarrow> (\<exists>r \<in> set (e_refs e). unat (r_extent_offset r) \<le> x \<and>
      (x div unat ?ss + 1) * unat ?ss \<le> unat (r_extent_offset r) + min (unat (r_num_bytes r))
        (unat (sz (r_root r, r_inode r)) - unat (r_file_offset r)))" (is "_ \<longleftrightarrow> ?there x") for x
  proof
    assume "has_sector ?ss sz ?refs x"
    then obtain r h where "(r, h) \<in> set ?refs" "unat (r_extent_offset r) \<le> x"
      "(x div unat ?ss + 1) * unat ?ss \<le> avail_end sz (r, h)" by (auto simp: has_sector_def)
    with located_refs(1) [OF assms(5)] show "?there x" unfolding avail_end_def prod.case by metis
  next
    assume "?there x"
    then obtain r where r: "r \<in> set (e_refs e)" "unat (r_extent_offset r) \<le> x"
      and reach: "(x div unat ?ss + 1) * unat ?ss \<le> unat (r_extent_offset r) + min (unat (r_num_bytes r))
        (unat (sz (r_root r, r_inode r)) - unat (r_file_offset r))" by blast
    from located_refs(2) [OF assms(5) r(1)] obtain h where h: "(r, h) \<in> set ?refs" by blast
    with located_refs(1) [OF assms(5) h] reach have "(x div unat ?ss + 1) * unat ?ss \<le> avail_end sz (r, h)"
      by (simp only: avail_end_def prod.case)
    with h r(2) show "has_sector ?ss sz ?refs x" unfolding has_sector_def by (intro bexI [OF _ h]) simp
  qed
  have live: "\<exists>g \<in> set (e_live_ranges e). unat (fst g) \<le> x \<and> x < unat (snd g)" if "?there x" for x
  proof -
    have "0 < unat ?ss" using assms(3) by (simp add: unat_gt_0)
    then have "x < (x div unat ?ss + 1) * unat ?ss" by (simp add: dividend_less_div_times)
    with that live_at [OF assms(4)] show ?thesis by (meson le_trans less_le_trans add_le_cancel_left min.cobounded1)
  qed
  have "safe (steady_in J) (live_copies data ?ss sz ?refs (e_live_ranges e)) (read_liveranges K fs e hs)"
    by (rule read_liveranges_safe [OF assms(1,3,4,5)]) (use assms(6) in \<open>simp add: refs_good_def\<close>)
  from safe_wp [OF this assms(2)] show ?thesis
  proof (rule wp_mono)
    fix cs s' assume "J (world s') \<and> live_copies data ?ss sz ?refs (e_live_ranges e) cs"
    then have J: "J (world s')" and cs: "live_copies data ?ss sz ?refs (e_live_ranges e) cs" by auto
    have "in_copy cs x \<longleftrightarrow> ?there x" for x
      using cs live sector by (auto simp: live_copies_def)
    then have "{x. \<exists>c \<in> set cs. unat (lr_start c) \<le> x \<and> x < unat (lr_end c)} = {x. ?there x}"
      unfolding in_copy_def by (simp only:)
    moreover have "\<forall>c \<in> set cs. aligned ?ss (lr_start c) \<and> aligned ?ss (lr_end c) \<and>
        lr_start c < lr_end c \<and> lr_bytes c = map data [unat (lr_start c)..<unat (lr_end c)]"
      using cs unfolding live_copies_def copy_ok_def by blast
    moreover have "sorted_wrt (\<lambda>c c'. lr_end c \<le> lr_start c') cs"
      using cs unfolding live_copies_def by blast
    ultimately show "J (world s')
      \<and> (\<forall>c \<in> set cs. aligned ?ss (lr_start c) \<and> aligned ?ss (lr_end c) \<and>
            lr_start c < lr_end c \<and> lr_bytes c = map data [unat (lr_start c)..<unat (lr_end c)])
      \<and> sorted_wrt (\<lambda>c c'. lr_end c \<le> lr_start c') cs
      \<and> {x. \<exists>c \<in> set cs. unat (lr_start c) \<le> x \<and> x < unat (lr_end c)} = {x. ?there x}"
      using J by (intro conjI)
  qed simp
qed

section \<open>A small file system\<close>

text \<open>A file system with sectors of 16 bytes, and on it one file of 24 bytes with an extent of 32.\<close>

definition live_kernel :: "(unit, unit) kernel" where
  "live_kernel = file_kernel
     \<lparr>k_metadata := (\<lambda>_ w. (Inr \<lparr>md_ino = 256, md_len = 24, md_is_dir = False, md_modified = Inr 0\<rparr>, w)),
      k_ino_paths := (\<lambda>_ _ _ w. (Inr (1, [8, 0, 0, 0, 0, 0, 0, 0, 97, 0]), w)),
      k_read_exact_at := (\<lambda>_ _ n w. (Inr (replicate n 7), w)),
      k_write_all_at := (\<lambda>_ _ _ w. (Inr (), w)),
      k_dedupe := (\<lambda>_ _ len _ _ w. (Inr (0, len), w))\<rparr>"

definition live_fs :: "unit filesystem" where
  "live_fs = file_fs\<lparr>fs_sectorsize := 16\<rparr>"

definition live_ref :: extent_ref where
  "live_ref = (sample_ref 0 32)\<lparr>r_inode := 256\<rparr>"

definition live_extent :: extent where
  "live_extent = Extent_new 65536 32 32 [live_ref]"

definition live_located :: located where
  "live_located = \<lparr>lc_name = ''a'', lc_path = ''/mnt/a'', lc_holder = \<lparr>h_root = 5, h_inode = 256, h_refs = [live_ref]\<rparr>\<rparr>"

lemma live_view: "file_view live_kernel (\<lambda>_. True) (\<lambda>_. (5, 256)) UNIV (\<lambda>_ _. 7) (\<lambda>_. 24)"
  by (auto simp: file_view_def identifies_def reads_keep_def live_kernel_def file_kernel_simps
      simp: map_replicate_const)

lemma live_extent_simps [simp]:
  "e_refs live_extent = [live_ref]" "e_live_ranges live_extent = [(0, 32)]" "e_disk_address live_extent = 65536"
  "holders live_extent = [lc_holder live_located]" "extent_ok live_extent"
  by (simp_all add: live_extent_def Extent_new_def live_ranges_def live_ref_def sample_ref_def ref_range_def
      merge_sorted_def absorb_def absorb1_def holders_def holder_of_ref_def live_located_def extent_ok_def
      ref_ok_def fits_def)

lemma live_open:
  "Located_open live_kernel live_fs live_located s = (Inr (), s)"
  by (simp add: Located_open_def open_inode_def open_beneath_def own_root_id_def ino_lookup_args_def
      map_err_def matchE_def bindE_def sys_call_def ret_def live_located_def live_kernel_def file_kernel_simps)

lemma live_fs_sector [simp]: "fs_sectorsize live_fs = 16"
  by (simp add: live_fs_def)

lemma live_sorted_refs: "sorted_refs [live_located] = [(live_ref, live_located)]"
  by (simp add: sorted_refs_def live_located_def)

lemma live_ref_simps [simp]:
  "r_extent_offset live_ref = 0" "r_file_offset live_ref = 0" "r_num_bytes live_ref = 32"
  by (simp_all add: live_ref_def sample_ref_def)

lemma live_calls:
  "k_read_exact_at live_kernel f at n w = (Inr (replicate n 7), w)"
  "k_metadata live_kernel f w = (Inr \<lparr>md_ino = 256, md_len = 24, md_is_dir = False, md_modified = Inr 0\<rparr>, w)"
  "k_write_all_at live_kernel f bs at w = (Inr (), w)"
  "k_dedupe live_kernel f so len dst at w = (Inr (0, len), w)"
  by (simp_all add: live_kernel_def)

lemma live_fill:
  "fill live_kernel live_fs [(live_ref, live_located)] 0 32 (replicate 32 0) s
     = (Inr (24, replicate 24 7 @ replicate 8 0), s)"
  by (simp add: fill_def live_open bindE_def map_err_def matchE_def Let_def saturating_sub_def min_def
      read_into_def sys_call_def live_calls ret_def overwrite_def)

lemma live_stretch:
  "stretch_loop live_kernel live_fs [(live_ref, live_located)] 32 3 0 [] s
     = (Inr [\<lparr>lr_bytes = replicate 16 7, lr_start = 0, lr_end = 16\<rparr>], s)"
  by (simp add: numeral_3_eq_3 bindE_def live_fill round_down_def unwrap_def next_start_def ret_def)

lemma live_read:
  "read_liveranges live_kernel live_fs live_extent [live_located] s
     = (Inr [\<lparr>lr_bytes = replicate 16 7, lr_start = 0, lr_end = 16\<rparr>], s)"
  by (simp add: read_liveranges_def live_sorted_refs live_stretch [unfolded numeral_3_eq_3] Let_def bindE_def ret_def del: stretch_loop.simps)

lemma read_liveranges_exact_witness:
  "{x. \<exists>c \<in> set [\<lparr>lr_bytes = replicate 16 7, lr_start = 0, lr_end = 16\<rparr>]. unat (lr_start c) \<le> x \<and> x < unat (lr_end c)}
     = {x. \<exists>r \<in> set (e_refs live_extent). unat (r_extent_offset r) \<le> x \<and>
           (x div unat (fs_sectorsize live_fs) + 1) * unat (fs_sectorsize live_fs)
              \<le> unat (r_extent_offset r) + min (unat (r_num_bytes r)) (unat (24 :: u64) - unat (r_file_offset r))}"
proof -
  have "\<forall>r \<in> set (e_refs live_extent). placed r \<and> aligned (fs_sectorsize live_fs) (r_extent_offset r) \<and>
        aligned (fs_sectorsize live_fs) (r_num_bytes r) \<and> (r_root r, r_inode r) \<in> UNIV \<and>
        (\<forall>i < unat (r_num_bytes r). (\<lambda>_ _. 7) (r_root r, r_inode r) (unat (r_file_offset r) + i)
            = (\<lambda>_. 7 :: u8) (unat (r_extent_offset r) + i))"
    by (simp add: placed_def aligned_def)
  from wp_ok [OF read_liveranges_exact [where s = "sample_sys ()" and hs = "[live_located]", OF live_view _ _ _ _ this] live_read]
  show ?thesis by simp
qed

end
