(* ===== verification/Redirect.thy ===== *)
theory Redirect
  imports Live
begin

text \<open>
  What pointing the holders at the copies does (src/run.rs): where each byte of a holder is stored
  after \<open>redirect_chunks\<close>, that its loop ends, and what the checks of \<open>finish_holder\<close> and of the end
  of \<open>realloc_extent\<close> have established when a rewrite is reported.
\<close>

section \<open>Where the bytes of files are\<close>

text \<open>\<open>points w (i, b)\<close> is which byte of which temporary byte \<open>b\<close> of file \<open>i\<close> was last deduped from.
  The kernel dedupes a prefix of the range asked for, and says how long it is; where the call fails
  it has deduped nothing.\<close>

definition sharing ::
  "('w, 'f) kernel \<Rightarrow> ('f \<Rightarrow> u64 \<times> u64) \<Rightarrow> ('w \<Rightarrow> (u64 \<times> u64) \<times> nat \<Rightarrow> ('f \<times> nat) option) \<Rightarrow> bool"
where
  "sharing K ident points \<longleftrightarrow> identifies K ident \<and> (\<forall>p. reads_keep K (\<lambda>w. points w = p)) \<and>
     (\<forall>w src so len dst at e w'. k_dedupe K src so len dst at w = (Inl e, w') \<longrightarrow> points w' = points w) \<and>
     (\<forall>w src so len dst at status n w'. k_dedupe K src so len dst at w = (Inr (status, n), w') \<longrightarrow>
        n \<le> len \<and>
        points w' = (\<lambda>(i, b). if status = DEDUPE_RANGE_SAME K \<and> i = ident dst \<and> unat at \<le> b \<and> b < unat at + unat n
                             then Some (src, unat so + (b - unat at)) else points w (i, b)))"

text \<open>\<open>moved\<close>: byte \<open>b\<close> of the file, for \<open>lo \<le> b < hi\<close>, is at \<open>b + d\<close> of the temporary.\<close>

definition moved ::
  "'i \<Rightarrow> 'f \<Rightarrow> (nat \<Rightarrow> nat) \<Rightarrow> nat \<Rightarrow> nat \<Rightarrow> ('i \<times> nat \<Rightarrow> ('f \<times> nat) option) \<Rightarrow> 'i \<times> nat \<Rightarrow> ('f \<times> nat) option"
where
  "moved i temp g lo hi p = (\<lambda>(j, b). if j = i \<and> lo \<le> b \<and> b < hi then Some (temp, g b) else p (j, b))"

lemma moved_moved: "lo \<le> m \<Longrightarrow> m \<le> hi \<Longrightarrow> moved i temp g m hi (moved i temp g lo m p) = moved i temp g lo hi p"
  by (auto simp: moved_def fun_eq_iff)

lemma moved_none: "hi \<le> lo \<Longrightarrow> moved i temp g lo hi p = p"
  by (auto simp: moved_def fun_eq_iff)

text \<open>Some front part of it.\<close>

definition moved_part ::
  "'i \<Rightarrow> 'f \<Rightarrow> (nat \<Rightarrow> nat) \<Rightarrow> nat \<Rightarrow> nat \<Rightarrow> ('i \<times> nat \<Rightarrow> ('f \<times> nat) option) \<Rightarrow> ('i \<times> nat \<Rightarrow> ('f \<times> nat) option) \<Rightarrow> bool"
where
  "moved_part i temp g lo hi p p' \<longleftrightarrow> (\<exists>m. lo \<le> m \<and> m \<le> hi \<and> p' = moved i temp g lo m p)"

lemma moved_part_step: "lo \<le> m \<Longrightarrow> moved_part i temp g m hi (moved i temp g lo m p) p' \<Longrightarrow> moved_part i temp g lo hi p p'"
  unfolding moved_part_def by (metis moved_moved le_trans)

text \<open>Whatever it reports, a dedupe has moved some prefix of what was asked for.\<close>

lemma dedupe_moves:
  assumes "sharing K ident points" and "dedupe K src so len dst at s = (x, s')"
  obtains n where "n \<le> len" "points (world s') = moved (ident dst) src (\<lambda>b. unat so + (b - unat at))
      (unat at) (unat at + unat n) (points (world s))" "case x of Inl q \<Rightarrow> \<exists>e. q = Raise e | Inr m \<Rightarrow> m = n"
proof (cases "k_dedupe K src so len dst at (world s)")
  case (Pair y w)
  then have w: "world s' = w" using assms(2)
    by (auto simp: dedupe_def bindE_def sys_call_def stop_def ret_def split: sum.splits if_splits)
  show thesis
  proof (cases y)
    case (Inl e)
    with Pair assms(1) w have "points (world s') = points (world s)" by (auto simp: sharing_def)
    with Pair Inl assms(2) show thesis by (intro that [of 0]) (auto simp: moved_none dedupe_def bindE_def sys_call_def)
  next
    case (Inr p)
    obtain status n where p: "p = (status, n)" by (cases p)
    have n: "n \<le> len" and pts: "points (world s') = (\<lambda>(i, b). if status = DEDUPE_RANGE_SAME K \<and> i = ident dst \<and>
        unat at \<le> b \<and> b < unat at + unat n then Some (src, unat so + (b - unat at)) else points (world s) (i, b))"
      using assms(1) Pair Inr p w unfolding sharing_def by blast+
    have res: "case x of Inl q \<Rightarrow> \<exists>e. q = Raise e | Inr m \<Rightarrow> m = n \<and> status = DEDUPE_RANGE_SAME K"
      using assms(2) Pair Inr p
      by (auto simp: dedupe_def bindE_def sys_call_def stop_def ret_def split: if_splits sum.splits)
    show thesis
    proof (cases "status = DEDUPE_RANGE_SAME K")
      case True
      with n pts res show thesis by (intro that [of n]) (auto simp: moved_def fun_eq_iff split: sum.splits)
    next
      case False
      with n pts res show thesis by (intro that [of 0]) (auto simp: moved_none fun_eq_iff split: sum.splits)
    qed
  qed
qed

lemma wp_dedupe_sharing:
  assumes "sharing K ident points"
    and "\<And>n s'. n \<le> len \<Longrightarrow> points (world s') = moved (ident dst) src (\<lambda>b. unat so + (b - unat at))
           (unat at) (unat at + unat n) (points (world s)) \<Longrightarrow> Q n s' \<and> (\<forall>e. E (Raise e) s')"
  shows "wp (map_err f (dedupe K src so len dst at)) Q E s"
proof -
  have "wp (dedupe K src so len dst at) Q (\<lambda>q s. (\<exists>e. q = Raise e) \<and> (\<forall>e. E (Raise e) s)) s"
    using assms(2) by (intro wpI) (auto elim!: dedupe_moves [OF assms(1)])
  then show ?thesis unfolding wp_map_err by (rule wp_mono) auto
qed

section \<open>One reference\<close>

text \<open>The byte of the temporary for byte \<open>b\<close> of the file: the extent's byte, one sector in.\<close>

definition temp_byte :: "u64 \<Rightarrow> u64 \<Rightarrow> extent_ref \<Rightarrow> nat \<Rightarrow> nat" where
  "temp_byte ss start r b = unat ss + (unat (r_extent_offset r) + (b - unat (r_file_offset r))) - unat start"

text \<open>One dedupe of the loop, on naturals: \<open>a\<close> is where it stands in the extent, \<open>c\<close> in the file.\<close>

lemma ref_reach:
  assumes "placed r"
  shows "unat (r_extent_offset r + r_num_bytes r) = unat (r_extent_offset r) + unat (r_num_bytes r)"
    and "unat (ref_end r) = unat (r_file_offset r) + unat (r_num_bytes r)"
  using assms unfolding ref_end_def by (auto intro!: unat_add_fits simp: placed_def fits_def)

lemma chunk_at:
  fixes r ss start at
  assumes "placed r" and "unat ss < 2 ^ 63" and "start \<le> at" and "r_extent_offset r \<le> at"
    and "at \<le> r_extent_offset r + r_num_bytes r"
  shows "unat (r_file_offset r + (at - r_extent_offset r)) = unat (r_file_offset r) + (unat at - unat (r_extent_offset r))"
    and "unat (ss + at - start) = unat ss + (unat at - unat start)"
proof -
  have a: "unat start \<le> unat at" "unat (r_extent_offset r) \<le> unat at"
    "unat at \<le> unat (r_extent_offset r) + unat (r_num_bytes r)"
    using assms(3-5) by (simp_all add: word_le_nat_alt ref_reach [OF assms(1)])
  have limits: "unat (r_extent_offset r) + unat (r_num_bytes r) \<le> 2 ^ 63" "unat (r_file_offset r) + unat (r_num_bytes r) \<le> 2 ^ 63"
    using assms(1) by (simp_all add: placed_def)
  have "fits (r_file_offset r) (at - r_extent_offset r)" "fits ss (at - start)"
    using a limits assms(2-4) by (simp_all add: fits_def unat_sub_le)
  moreover have "ss + at - start = ss + (at - start)" by simp
  ultimately show "unat (r_file_offset r + (at - r_extent_offset r)) = unat (r_file_offset r) + (unat at - unat (r_extent_offset r))"
    and "unat (ss + at - start) = unat ss + (unat at - unat start)"
    using assms(3,4) by (simp_all only: unat_add_fits unat_sub_le)
qed

lemma chunk_loop_points:
  fixes K :: "('w, 'f) kernel"
  assumes sharing: "sharing K ident points" and placed: "placed r" and ss: "unat (fs_sectorsize fs) < 2 ^ 63"
    and "start \<le> at" and "r_extent_offset r \<le> at" and "at \<le> r_extent_offset r + r_num_bytes r"
    and "till \<le> r_extent_offset r + r_num_bytes r" and "unat till - unat at < n"
  shows "wp (chunk_loop K fs p temp f start r fin till n at)
    (\<lambda>_ s'. points (world s') = moved (ident f) temp (temp_byte (fs_sectorsize fs) start r)
        (unat (r_file_offset r) + (unat at - unat (r_extent_offset r)))
        (min (unat (r_file_offset r) + (unat till - unat (r_extent_offset r))) (unat fin)) (points (world s)))
    (\<lambda>q s'. (\<exists>e. q = Raise e) \<and> moved_part (ident f) temp (temp_byte (fs_sectorsize fs) start r)
        (unat (r_file_offset r) + (unat at - unat (r_extent_offset r)))
        (min (unat (r_file_offset r) + (unat till - unat (r_extent_offset r))) (unat fin)) (points (world s)) (points (world s'))) s"
  using assms(4-)
proof (induction n arbitrary: at s)
  case (Suc n)
  let ?e = "unat (r_extent_offset r)" and ?f = "unat (r_file_offset r)" and ?g = "temp_byte (fs_sectorsize fs) start r"
  note reach = ref_reach [OF placed]
  have a: "unat start \<le> unat at" "?e \<le> unat at" "unat at \<le> ?e + unat (r_num_bytes r)"
    "unat till \<le> ?e + unat (r_num_bytes r)"
    using Suc.prems(1-4) by (simp_all add: word_le_nat_alt reach)
  have limits: "?e + unat (r_num_bytes r) \<le> 2 ^ 63" "?f + unat (r_num_bytes r) \<le> 2 ^ 63"
    using placed by (simp_all add: placed_def)
  define cursor where "cursor = r_file_offset r + (at - r_extent_offset r)"
  define src where "src = fs_sectorsize fs + at - start"
  have cursor: "unat cursor = ?f + (unat at - ?e)" and src: "unat src = unat (fs_sectorsize fs) + (unat at - unat start)"
    unfolding cursor_def src_def by (rule chunk_at [OF placed ss Suc.prems(1-3)])+
  define len where "len = min (till - at) (fin - cursor)"
  let ?hi = "min (?f + (unat till - ?e)) (unat fin)"
  let ?E = "\<lambda>q s'. (\<exists>e. q = Raise e) \<and>
      moved_part (ident f) temp ?g (unat cursor) ?hi (points (world s)) (points (world s'))"
  show ?case
  proof (cases "till \<le> at \<or> fin \<le> cursor")
    case True
    then have "?hi \<le> unat cursor"
      unfolding word_le_nat_alt cursor using a by (auto simp: min_def)
    then have "points (world s) = moved (ident f) temp ?g (unat cursor) ?hi (points (world s))"
      by (simp add: moved_none)
    with True show ?thesis by (auto simp: wp_simps cursor cursor_def [symmetric] Let_def)
  next
    case False
    then have lt: "at < till" "cursor < fin" by (simp_all add: not_le)
    have len: "unat len = min (unat till - unat at) (unat fin - unat cursor)"
      using lt by (simp add: len_def unat_min unat_sub_le less_imp_le)
    have as_temp: "moved (ident f) temp (\<lambda>b. unat src + (b - unat cursor)) (unat cursor) hi q
        = moved (ident f) temp ?g (unat cursor) hi q" for hi q
      unfolding moved_def temp_byte_def src cursor using a by (auto simp: fun_eq_iff)
    have step: "wp (chunk_loop K fs p temp f start r fin till n (at + d))
        (\<lambda>_ s'. points (world s') = moved (ident f) temp ?g (unat cursor) ?hi (points (world s))) ?E s'"
      if d: "d \<noteq> 0" "d \<le> len" and moves: "points (world s') = moved (ident f) temp (\<lambda>b. unat src + (b - unat cursor))
          (unat cursor) (unat cursor + unat d) (points (world s))" for d s'
    proof -
      have d': "0 < unat d" "unat d \<le> unat till - unat at" "unat cursor + unat d \<le> ?hi"
        using d lt a unfolding word_le_nat_alt word_less_nat_alt len cursor by (auto simp: unat_gt_0)
      have at: "unat (at + d) = unat at + unat d"
        using d'(2) a limits lt(1) by (intro unat_add_fits) (simp add: fits_def word_less_nat_alt)
      have next_cursor: "?f + (unat (at + d) - ?e) = unat cursor + unat d" using a by (simp add: at cursor)
      from moves have moves: "points (world s')
          = moved (ident f) temp ?g (unat cursor) (unat cursor + unat d) (points (world s))"
        by (simp only: as_temp)
      have "wp (chunk_loop K fs p temp f start r fin till n (at + d))
        (\<lambda>_ s'a. points (world s'a) = moved (ident f) temp ?g (?f + (unat (at + d) - ?e)) ?hi (points (world s')))
        (\<lambda>q s'a. (\<exists>e. q = Raise e) \<and> moved_part (ident f) temp ?g (?f + (unat (at + d) - ?e)) ?hi
          (points (world s')) (points (world s'a))) s'"
        by (rule Suc.IH) (use a d' Suc.prems lt in \<open>simp_all add: word_le_nat_alt at reach\<close>)
      then show ?thesis
        unfolding next_cursor moves
        by (rule wp_mono) (use d'(3) in \<open>auto simp: moved_moved intro: moved_part_step [OF le_add1]\<close>)
    qed
    have "wp (map_err (Failure_new p) (dedupe K temp src len f cursor))
        (\<lambda>d. wp (if d = 0
                 then raise (Failure_other p (''dedupe made no progress at offset '' @ show_nat (unat cursor)))
                 else chunk_loop K fs p temp f start r fin till n (at + d))
            (\<lambda>_ s'. points (world s') = moved (ident f) temp ?g (unat cursor) ?hi (points (world s)))
            ?E) ?E s"
    proof (rule wp_dedupe_sharing [OF sharing])
      fix d and s' :: "'w sys"
      assume d: "d \<le> len" and moves: "points (world s') = moved (ident f) temp (\<lambda>b. unat src + (b - unat cursor))
          (unat cursor) (unat cursor + unat d) (points (world s))"
      have "unat cursor + unat d \<le> ?hi"
        using d lt a unfolding word_le_nat_alt word_less_nat_alt len cursor by auto
      moreover have "points (world s') = moved (ident f) temp ?g (unat cursor) (unat cursor + unat d) (points (world s))"
        using moves by (simp only: as_temp)
      ultimately have "?E (Raise e) s'" for e
        unfolding moved_part_def by (intro conjI exI [of _ "unat cursor + unat d"]) auto
      with step [OF _ d moves] show "wp (if d = 0
                 then raise (Failure_other p (''dedupe made no progress at offset '' @ show_nat (unat cursor)))
                 else chunk_loop K fs p temp f start r fin till n (at + d))
            (\<lambda>_ s'. points (world s') = moved (ident f) temp ?g (unat cursor) ?hi (points (world s))) ?E s'
          \<and> (\<forall>e. ?E (Raise e) s')"
        by (simp add: wp_simps)
    qed
    with False show ?thesis
      by (simp add: wp_bindE Let_def cursor_def [symmetric] src_def [symmetric] len_def [symmetric] cursor [symmetric])
  qed
qed simp

text \<open>Byte \<open>b\<close> of the file is in the reference, below the size, and in the staged range.\<close>

definition redirected :: "u64 \<Rightarrow> live_range \<Rightarrow> extent_ref \<Rightarrow> nat \<Rightarrow> bool" where
  "redirected filesize lr r b \<longleftrightarrow>
     unat (r_file_offset r) \<le> b \<and> b < unat (r_file_offset r) + unat (r_num_bytes r) \<and> b < unat filesize \<and>
     unat (lr_start lr) \<le> unat (r_extent_offset r) + (b - unat (r_file_offset r)) \<and>
     unat (r_extent_offset r) + (b - unat (r_file_offset r)) < unat (lr_end lr)"

lemma redirect_ref_points:
  assumes sharing: "sharing K ident points" and placed: "placed r" and ss: "unat (fs_sectorsize fs) < 2 ^ 63"
    and rounds: "unat (r_num_bytes r) < rounds K"
  shows "wp (redirect_ref K fs p temp f lr filesize r)
    (\<lambda>_ s'. points (world s') = (\<lambda>(i, b). if i = ident f \<and> redirected filesize lr r b
                                        then Some (temp, temp_byte (fs_sectorsize fs) (lr_start lr) r b)
                                        else points (world s) (i, b)))
    (\<lambda>q s'. (\<exists>e. q = Raise e) \<and>
       (\<exists>m. points (world s') = (\<lambda>(i, b). if i = ident f \<and> redirected filesize lr r b \<and> b < m
                                        then Some (temp, temp_byte (fs_sectorsize fs) (lr_start lr) r b)
                                        else points (world s) (i, b)))) s"
proof -
  let ?e = "unat (r_extent_offset r)" and ?f = "unat (r_file_offset r)" and ?n = "unat (r_num_bytes r)"
  define fin where "fin = min (ref_end r) filesize"
  define at where "at = max (r_extent_offset r) (lr_start lr)"
  define till where "till = min (r_extent_offset r + r_num_bytes r) (lr_end lr)"
  note reach = ref_reach [OF placed]
  have nats: "unat fin = min (?f + ?n) (unat filesize)" "unat at = max ?e (unat (lr_start lr))"
    "unat till = min (?e + ?n) (unat (lr_end lr))"
    by (simp_all add: fin_def at_def till_def unat_min unat_max reach)
  have none: "\<not> redirected filesize lr r b" if "fin \<le> r_file_offset r \<or> till \<le> at" for b
    using that unfolding word_le_nat_alt nats by (auto simp: redirected_def min_def max_def split: if_splits)
  show ?thesis
  proof (cases "fin \<le> r_file_offset r \<or> till \<le> at")
    case True
    obtain n where "rounds K = Suc n" using rounds by (cases "rounds K") auto
    with True show ?thesis
      by (auto simp: none [OF True] case_prod_eta redirect_ref_def Let_def wp_simps fin_def [symmetric] at_def [symmetric] till_def [symmetric])
  next
    case False
    have set: "?f + (unat at - ?e) \<le> b \<and> b < ?f + (unat till - ?e) \<and> b < unat fin \<longleftrightarrow> redirected filesize lr r b" for b
      unfolding nats redirected_def by (simp add: min_def max_def) arith
    let ?lo = "?f + (unat at - ?e)" and ?hi = "min (?f + (unat till - ?e)) (unat fin)"
    let ?g = "temp_byte (fs_sectorsize fs) (lr_start lr) r"
    have part: "moved (ident f) temp ?g ?lo (min m ?hi) q = (\<lambda>(i, b). if i = ident f \<and> redirected filesize lr r b \<and> b < m
        then Some (temp, ?g b) else q (i, b))" for m q
      unfolding moved_def set [symmetric] by (auto simp: fun_eq_iff)
    have whole: "moved (ident f) temp ?g ?lo ?hi q = (\<lambda>(i, b). if i = ident f \<and> redirected filesize lr r b
        then Some (temp, ?g b) else q (i, b))" for q
      unfolding moved_def set [symmetric] by (auto simp: fun_eq_iff)
    have "wp (chunk_loop K fs p temp f (lr_start lr) r fin till (rounds K) at)
      (\<lambda>_ s'. points (world s') = moved (ident f) temp ?g ?lo ?hi (points (world s)))
      (\<lambda>q s'. (\<exists>e. q = Raise e) \<and> moved_part (ident f) temp ?g ?lo ?hi (points (world s)) (points (world s'))) s"
      by (rule chunk_loop_points [OF sharing placed ss])
         (use False rounds in \<open>auto simp: word_le_nat_alt nats reach\<close>)
    then have "wp (chunk_loop K fs p temp f (lr_start lr) r fin till (rounds K) at)
      (\<lambda>_ s'. points (world s') = (\<lambda>(i, b). if i = ident f \<and> redirected filesize lr r b
         then Some (temp, ?g b) else points (world s) (i, b)))
      (\<lambda>q s'. (\<exists>e. q = Raise e) \<and> (\<exists>m. points (world s') = (\<lambda>(i, b). if i = ident f \<and> redirected filesize lr r b \<and> b < m
         then Some (temp, ?g b) else points (world s) (i, b)))) s"
    proof (rule wp_mono)
      fix q s' assume "(\<exists>e. q = Raise e) \<and> moved_part (ident f) temp ?g ?lo ?hi (points (world s)) (points (world s'))"
      then obtain m e where "q = Raise e" "m \<le> ?hi" "points (world s') = moved (ident f) temp ?g ?lo m (points (world s))"
        by (auto simp: moved_part_def)
      moreover from this(2) have "min m ?hi = m" by (rule min.absorb1)
      ultimately show "(\<exists>e. q = Raise e) \<and> (\<exists>m. points (world s') =
          (\<lambda>(i, b). if i = ident f \<and> redirected filesize lr r b \<and> b < m then Some (temp, ?g b) else points (world s) (i, b)))"
        using part [of m "points (world s)"] by auto
    qed (simp only: whole)
    with False show ?thesis
      by (simp add: redirect_ref_def Let_def fin_def [symmetric] at_def [symmetric] till_def [symmetric])
  qed
qed

section \<open>All references of a holder\<close>

text \<open>The references of a file do not overlap in it; \<open>holders\<close> has them in file order.\<close>

definition apart :: "extent_ref list \<Rightarrow> bool" where
  "apart refs \<longleftrightarrow> sorted_wrt (\<lambda>r r'. unat (r_file_offset r) + unat (r_num_bytes r) \<le> unat (r_file_offset r')) refs"

lemma sharing_facts:
  assumes "sharing K ident points"
  shows "identifies K ident" and "reads_keep K (\<lambda>w. points w = p)"
  using assms by (simp_all add: sharing_def)

lemma safe_at: "safe (steady_in (\<lambda>w. points w = points (world s))) Q m \<Longrightarrow>
    wp m (\<lambda>x s'. points (world s') = points (world s) \<and> Q x) (\<lambda>q _. \<exists>e. q = Raise e) s"
  by (drule safe_wp [where s = s]) (auto elim: wp_mono)


section \<open>What a finished rewrite has checked\<close>

lemma Located_open_ident:
  assumes "identifies K ident" and "Located_open K fs h s = (Inr f, s')"
  shows "ident f = file_of_located h"
  using wp_ok [OF open_inode_wp [OF assms(1)]] assms(2) by (simp add: Located_open_def)

lemma modified_time_Inr [simp]: "modified_time p meta s = (Inr t, s') \<longleftrightarrow> md_modified meta = Inr t \<and> s' = s"
  by (auto simp: modified_time_def split: sum.splits)

text \<open>A holder passes with the size and the modification time it had before anything moved.\<close>

lemma finish_holder_same:
  assumes "identifies K ident" and "finish_holder K fs h before s = (Inr (), s')"
  shows "\<exists>f meta t. ident f = file_of_located h \<and> sys_call (k_metadata K f) t = (Inr meta, s')
      \<and> md_len meta = hb_filesize before \<and> md_modified meta = Inr (hb_modified before)"
proof -
  from assms(2) obtain f t0 meta t where "Located_open K fs h s = (Inr f, t0)"
    "sys_call (k_metadata K f) t = (Inr meta, s')" "md_len meta = hb_filesize before"
    "md_modified meta = Inr (hb_modified before)"
    unfolding finish_holder_def bindE_Inr Let_def by (auto simp: bindE_Inr split: if_splits)
  with Located_open_ident [OF assms(1)] show ?thesis by blast
qed

lemma HolderBefore_read_Inr:
  assumes "identifies K ident" and "HolderBefore_read K fs h s = (Inr before, s')"
  shows "\<exists>f meta t. ident f = file_of_located h \<and> sys_call (k_metadata K f) t = (Inr meta, s')
      \<and> md_len meta = hb_filesize before \<and> md_modified meta = Inr (hb_modified before)"
proof -
  from assms(2) obtain f t meta where "Located_open K fs h s = (Inr f, t)"
    "sys_call (k_metadata K f) t = (Inr meta, s')" "md_len meta = hb_filesize before"
    "md_modified meta = Inr (hb_modified before)"
    by (auto simp: HolderBefore_read_def bindE_Inr)
  with Located_open_ident [OF assms(1)] show ?thesis by blast
qed

text \<open>The last search, on trees that hold still: exact.\<close>

lemma inode_holds_extent_exact:
  assumes "serving K tree s"
  obtains p where
    "inode_holds_extent K root inode frm till a s =
       (Inr (\<exists>r \<in> set (extent_refs_in K tree root inode frm till). r_disk_address r = a), s\<lparr>searchargs_pool := p\<rparr>)"
    and "serving K tree (s\<lparr>searchargs_pool := p\<rparr>)"
proof -
  have any: "foldl (\<lambda>found r. found \<or> r_disk_address r = a) b rs \<longleftrightarrow> b \<or> (\<exists>r \<in> set rs. r_disk_address r = a)" for b rs
    by (induction rs arbitrary: b) auto
  show thesis
    by (rule searching_exact [OF assms, of root "(inode, EXTENT_DATA_KEY K, frm)" "(inode, EXTENT_DATA_KEY K, till)"
          "extent_ref_each K root inode (\<lambda>r found. found \<or> r_disk_address r = a)" False])
       (rule that, auto simp: inode_holds_extent_def search_extent_refs_def each_extent_ref lift_result_def
         extent_refs_in_def any)
qed

text \<open>The holder still has a file extent item into the extent, from its first reference on to the end of
  its last.\<close>

definition holds_still :: "('w, 'f) kernel \<Rightarrow> (u64 \<Rightarrow> item list) \<Rightarrow> extent \<Rightarrow> located \<Rightarrow> bool" where
  "holds_still K tree e h \<longleftrightarrow>
     (\<exists>r \<in> set (extent_refs_in K tree (h_root (lc_holder h)) (h_inode (lc_holder h))
                 (first_offset (h_refs (lc_holder h))) (last_offset (h_refs (lc_holder h)))).
       r_disk_address r = e_disk_address e)"

lemma check_released_Inr:
  assumes "serving K tree s" and "check_released K e h s = (Inr (), s')"
  shows "\<not> holds_still K tree e h \<and> serving K tree s'"
proof -
  obtain p where "inode_holds_extent K (h_root (lc_holder h)) (h_inode (lc_holder h))
      (first_offset (h_refs (lc_holder h))) (last_offset (h_refs (lc_holder h))) (e_disk_address e) s
        = (Inr (holds_still K tree e h), s\<lparr>searchargs_pool := p\<rparr>)"
    and "serving K tree (s\<lparr>searchargs_pool := p\<rparr>)"
    by (rule inode_holds_extent_exact [OF assms(1)]) (simp add: holds_still_def)
  with assms(2) show ?thesis by (auto simp: check_released_def bindE_Inr split: if_splits)
qed

lemma check_all_Inr:
  "serving K tree s \<Longrightarrow> foldE (\<lambda>h _. check_released K e h) hs () s = (Inr (), s') \<Longrightarrow>
     \<forall>h \<in> set hs. \<not> holds_still K tree e h"
proof (induction hs arbitrary: s)
  case (Cons h hs)
  then obtain t where "check_released K e h s = (Inr (), t)" "foldE (\<lambda>h _. check_released K e h) hs () t = (Inr (), s')"
    by (auto simp: bindE_Inr)
  from check_released_Inr [OF Cons.prems(1) this(1)] Cons.IH [OF _ this(2)] show ?case by simp
qed simp

text \<open>The pool of search buffers, until that search, is not touched.\<close>

lemma pool_Located_open: "preserves pool_ok (Located_open K fs h)"
  unfolding Located_open_def open_inode_def open_beneath_def own_root_id_def ino_lookup_args_def Let_def
  by (intro preserve pool.preserves_sys_call)

lemma pool_read_liveranges: "preserves pool_ok (read_liveranges K fs e hs)"
proof -
  have "preserves pool_ok (fill_loop K fs start fin refs at buf)" for refs start fin at buf
    by (induction refs arbitrary: at buf)
       (auto simp: Let_def read_into_def intro!: preserve pool.preserves_sys_call pool_Located_open)
  then have "preserves pool_ok (stretch_loop K fs refs fin n start copies)" for refs fin n start copies
    by (induction n arbitrary: start copies) (auto simp: fill_def intro!: preserve)
  then show ?thesis unfolding read_liveranges_def Let_def by (intro preserve)
qed

lemma pool_stage: "preserves pool_ok (stage K fs p bytes)"
  unfolding stage_def temp_file_def open_beneath_def get_flags_def set_flags_def is_nocow_def Let_def
  by (intro preserve pool.preserves_sys_call)

lemma pool_redirect_all: "preserves pool_ok (redirect_all K fs hbs lr)"
proof -
  have "preserves pool_ok (chunk_loop K fs p temp f start r fin till n at)" for p temp f start r fin till n at
    by (induction n arbitrary: at) (auto simp: Let_def dedupe_def intro!: preserve pool.preserves_sys_call)
  then show ?thesis
    unfolding redirect_all_def redirect_chunks_def redirect_ref_def Let_def
    by (intro preserve pool_stage pool_Located_open)
qed

lemma pool_finish_holder: "preserves pool_ok (finish_holder K fs h before)"
  unfolding finish_holder_def redirect_tail_def read_into_def dedupe_def modified_time_def Let_def
  by (intro preserve pool_stage pool_Located_open pool.preserves_sys_call)

lemma pool_HolderBefore_read: "preserves pool_ok (HolderBefore_read K fs h)"
  unfolding HolderBefore_read_def modified_time_def
  by (intro preserve pool_Located_open pool.preserves_sys_call)

text \<open>The steps of a rewrite that succeeded.\<close>

lemma realloc_extent_Inr:
  assumes "realloc_extent K fs e hs s = (Inr (), s')"
  obtains before u0 u1 u2 t where "mapE (HolderBefore_read K fs) hs u0 = (Inr before, u1)"
    "foldE (\<lambda>hb _. finish_holder K fs (fst hb) (snd hb)) (zip hs before) () u2 = (Inr (), t)"
    "foldE (\<lambda>h _. check_released K e h) hs () t = (Inr (), s')" "pool_ok s \<longrightarrow> pool_ok t"
proof -
  from assms obtain lrs u0 before u1 u2 t where steps: "read_liveranges K fs e hs s = (Inr lrs, u0)"
    "mapE (HolderBefore_read K fs) hs u0 = (Inr before, u1)"
    "foldE (\<lambda>lr _. redirect_all K fs (zip hs before) lr) lrs () u1 = (Inr (), u2)"
    "foldE (\<lambda>hb _. finish_holder K fs (fst hb) (snd hb)) (zip hs before) () u2 = (Inr (), t)"
    "foldE (\<lambda>h _. check_released K e h) hs () t = (Inr (), s')"
    by (auto simp: realloc_extent_def bindE_Inr)
  have "pool_ok t" if "pool_ok s"
  proof -
    have "pool_ok u0" by (rule preserves_end [OF pool_read_liveranges that steps(1)])
    then have "pool_ok u1"
      using steps(2) by (rule preserves_end [OF preserves_mapE [OF pool_HolderBefore_read]])
    then have "pool_ok u2"
      using steps(3) by (rule preserves_end [OF preserves_foldE [OF pool_redirect_all]])
    then show ?thesis
      using steps(4) by (rule preserves_end [OF preserves_foldE [OF pool_finish_holder]])
  qed
  with steps that show thesis by blast
qed

lemma foldE_each:
  "foldE (\<lambda>x _. m x) xs () s = (Inr (), s') \<Longrightarrow> x \<in> set xs \<Longrightarrow> \<exists>u u'. m x u = (Inr (), u')"
  by (induction xs arbitrary: s) (auto simp: bindE_Inr)

lemma mapE_each:
  "mapE m xs s = (Inr ys, s') \<Longrightarrow> length ys = length xs \<and> (\<forall>(x, y) \<in> set (zip xs ys). \<exists>u u'. m x u = (Inr y, u'))"
proof (induction xs arbitrary: s ys)
  case (Cons x xs)
  then show ?case by (fastforce simp: bindE_Inr)
qed simp


section \<open>The small file system, rewritten\<close>

lemma live_kernel_rounds: "rounds live_kernel = Suc (Suc 8)"
  by (simp add: live_kernel_def file_kernel_simps)

lemma live_dedupe: "dedupe live_kernel src so len dst at s = (Inr len, s)"
  by (simp add: dedupe_def sys_call_def live_calls bindE_def ret_def) (simp add: live_kernel_def file_kernel_simps)

lemma live_temp_file: "temp_file live_kernel live_fs s = (Inr (), s)"
  by (simp add: temp_file_def open_beneath_def get_flags_def bindE_def sys_call_def Let_def ret_def
      live_kernel_def file_kernel_simps)

lemma live_stage: "stage live_kernel live_fs p bytes s = (Inr (), s)"
  by (simp add: stage_def live_temp_file map_err_def matchE_def bindE_def sys_call_def live_calls ret_def)

lemma live_chunk_loop:
  "chunk_loop live_kernel live_fs p () () 0 live_ref 24 16 (rounds live_kernel) 0 s = (Inr (), s)"
proof -
  have "chunk_loop live_kernel live_fs p () () 0 live_ref 24 16 (Suc (Suc n)) 0 s = (Inr (), s)" for n
    by (simp add: bindE_def Let_def map_err_def matchE_def live_dedupe ret_def)
  then show ?thesis unfolding live_kernel_rounds .
qed

lemma live_chunks:
  "redirect_chunks live_kernel live_fs live_located () \<lparr>lr_bytes = bs, lr_start = 0, lr_end = 16\<rparr> 24 s = (Inr (), s)"
proof -
  have "redirect_ref live_kernel live_fs p () () \<lparr>lr_bytes = bs, lr_start = 0, lr_end = 16\<rparr> 24 live_ref s = (Inr (), s)" for p s
    using live_chunk_loop [of p s] by (simp add: redirect_ref_def ref_end_def Let_def)
  then show ?thesis
    by (simp add: redirect_chunks_def bindE_def live_open ret_def) (simp add: live_located_def bindE_def ret_def)
qed

lemma live_before:
  "HolderBefore_read live_kernel live_fs live_located s = (Inr \<lparr>hb_filesize = 24, hb_modified = 0\<rparr>, s)"
  by (simp add: HolderBefore_read_def bindE_def live_open map_err_def matchE_def sys_call_def live_calls modified_time_def ret_def)

lemma live_finish:
  "finish_holder live_kernel live_fs live_located \<lparr>hb_filesize = 24, hb_modified = 0\<rparr> s = (Inr (), s)"
  by (simp add: finish_holder_def redirect_tail_def read_into_def bindE_def live_open map_err_def matchE_def sys_call_def live_calls
      modified_time_def round_down_def unwrap_def live_stage live_dedupe Let_def ret_def)

lemma live_serving: "serving live_kernel (\<lambda>_. []) (sample_sys ())"
proof -
  have "serves live_kernel (\<lambda>_. []) ()"
    by (rule serves_trees) (simp_all add: live_kernel_def file_kernel_simps tree_fits_def)
  then show ?thesis
    by (simp add: serving_def pool_ok_def tree_ok_def) (simp add: live_kernel_def file_kernel_simps)
qed

lemma live_realloc:
  obtains p where "realloc_extent live_kernel live_fs live_extent [live_located] (sample_sys ())
      = (Inr (), (sample_sys ())\<lparr>searchargs_pool := p\<rparr>)"
    and "serving live_kernel (\<lambda>_. []) ((sample_sys ())\<lparr>searchargs_pool := p\<rparr>)"
proof -
  obtain p where check: "inode_holds_extent live_kernel 5 256 0 31 65536 (sample_sys ()) =
       (Inr False, (sample_sys ())\<lparr>searchargs_pool := p\<rparr>)"
    and serving: "serving live_kernel (\<lambda>_. []) ((sample_sys ())\<lparr>searchargs_pool := p\<rparr>)"
    by (rule inode_holds_extent_exact [OF live_serving, of 5 256 0 31 65536])
       (simp add: extent_refs_in_def range_items_def List.map_filter_def)
  have "check_released live_kernel live_extent live_located (sample_sys ()) = (Inr (), (sample_sys ())\<lparr>searchargs_pool := p\<rparr>)"
    using check by (simp add: check_released_def first_offset_def last_offset_def ref_end_def live_located_def
        bindE_def map_err_def matchE_def ret_def)
  moreover have "redirect_all live_kernel live_fs [(live_located, \<lparr>hb_filesize = 24, hb_modified = 0\<rparr>)]
      \<lparr>lr_bytes = bs, lr_start = 0, lr_end = 16\<rparr> s = (Inr (), s)" for bs s
    by (simp add: redirect_all_def bindE_def unwrap_def live_stage live_chunks ret_def)
  ultimately have "realloc_extent live_kernel live_fs live_extent [live_located] (sample_sys ())
      = (Inr (), (sample_sys ())\<lparr>searchargs_pool := p\<rparr>)"
    by (simp add: realloc_extent_def bindE_def live_read live_before live_finish ret_def)
  with serving that show thesis by blast
qed


text \<open>A kernel whose state is where the bytes are, and that dedupes eight bytes at a time.\<close>

definition share_kernel :: "((u64 \<times> u64) \<times> nat \<Rightarrow> (unit \<times> nat) option, unit) kernel" where
  "share_kernel = sample_kernel
     \<lparr>rounds := 40,
      k_openat2 := (\<lambda>_ _ _ _ w. (Inr (), w)),
      k_metadata := (\<lambda>_ w. (Inr \<lparr>md_ino = 256, md_len = 24, md_is_dir = False, md_modified = Inr 0\<rparr>, w)),
      k_ino_lookup := (\<lambda>_ _ _ w. (Inr (5, []), w)),
      k_dedupe := (\<lambda>src so len _ at w. (Inr (0, min len 8),
        \<lambda>(i, b). if i = (5, 256) \<and> unat at \<le> b \<and> b < unat at + unat (min len 8)
                 then Some (src, unat so + (b - unat at)) else w (i, b)))\<rparr>"

lemma share_kernel_sharing: "sharing share_kernel (\<lambda>_. (5, 256)) (\<lambda>w. w)"
  by (auto simp: sharing_def identifies_def reads_keep_def share_kernel_def sample_kernel_simps)

abbreviation share_range :: live_range where
  "share_range \<equiv> \<lparr>lr_bytes = replicate 16 7, lr_start = 0, lr_end = 16\<rparr>"

lemma share_run: "\<exists>s'. redirect_chunks share_kernel live_fs live_located () share_range 24 (sample_sys Map.empty) = (Inr (), s')"
proof -
  have open_: "Located_open share_kernel live_fs live_located s = (Inr (), s)" for s
    by (simp add: Located_open_def open_inode_def open_beneath_def own_root_id_def ino_lookup_args_def
        map_err_def matchE_def bindE_def sys_call_def ret_def live_located_def share_kernel_def sample_kernel_simps)
  have one: "\<exists>s'. map_err g (dedupe share_kernel src so len dst at) s = (Inr (min len 8), s')" for g src so len dst at s
    by (simp add: dedupe_def map_err_def matchE_def bindE_def sys_call_def ret_def share_kernel_def sample_kernel_simps)
  have loop: "\<exists>s'. chunk_loop share_kernel live_fs p () () 0 live_ref 24 16 (Suc (Suc (Suc n))) 0 s = (Inr (), s')" for p n s
  proof -
    obtain s1 where s1: "map_err (Failure_new p) (dedupe share_kernel () 16 16 () 0) s = (Inr 8, s1)"
      using one [of "Failure_new p" "()" 16 16 "()" 0 s] by (auto simp: min_def)
    obtain s2 where s2: "map_err (Failure_new p) (dedupe share_kernel () 24 8 () 8) s1 = (Inr 8, s2)"
      using one [of "Failure_new p" "()" 24 8 "()" 8 s1] by (auto simp: min_def)
    show ?thesis by (simp add: bindE_def Let_def s1 s2 ret_def)
  qed
  have "\<exists>s'. redirect_ref share_kernel live_fs p () () share_range 24 live_ref s = (Inr (), s')" for p s
  proof -
    have "rounds share_kernel = Suc (Suc (Suc 37))" by (simp add: share_kernel_def)
    then show ?thesis using loop [of p 37 s] by (simp add: redirect_ref_def ref_end_def Let_def del: chunk_loop.simps)
  qed
  then show ?thesis
    by (simp add: redirect_chunks_def bindE_Inr open_) (simp add: live_located_def bindE_Inr)
qed


end
