(* ===== verification/Rewrite.thy ===== *)
theory Rewrite
  imports Redirect
begin

text \<open>
  A whole rewrite, from reading the extent to the last check (src/run.rs): what \<open>realloc_extent\<close>
  makes its holders share. It joins what \<open>Live\<close> shows of reading, what \<open>Redirect\<close> shows of
  pointing holders at copies, and the staging between them: the bytes a holder is given are its own.
\<close>

section \<open>Temporaries and what is shared with them\<close>

text \<open>\<open>temps w (f, t)\<close> is byte \<open>t\<close> of temporary \<open>f\<close>. Opening a temporary gives a file no named file
  shares anything with, writing changes that file alone, and where it succeeds the bytes are there;
  nothing else changes what a temporary holds, and nothing but a dedupe what is shared.\<close>

definition staging ::
  "('w, 'f) kernel \<Rightarrow> ('f \<Rightarrow> bool) \<Rightarrow> ('w \<Rightarrow> bool) \<Rightarrow> ('f \<Rightarrow> u64 \<times> u64) \<Rightarrow> (u64 \<times> u64) set \<Rightarrow>
     (u64 \<times> u64 \<Rightarrow> nat \<Rightarrow> u8) \<Rightarrow> (u64 \<times> u64 \<Rightarrow> u64) \<Rightarrow> ('w \<Rightarrow> (u64 \<times> u64) \<times> nat \<Rightarrow> ('f \<times> nat) option) \<Rightarrow> ('w \<Rightarrow> 'f \<times> nat \<Rightarrow> u8) \<Rightarrow> bool"
where
  "staging K temp J ident D content sz points temps \<longleftrightarrow>
     file_view K J ident D content sz \<and> sharing K ident points \<and> temps_keep K temp J \<and>
     (\<forall>m. reads_keep K (\<lambda>w. temps w = m)) \<and>
     (\<forall>w d p fl r. points (snd (k_openat2 K d p fl r w)) = points w \<and> temps (snd (k_openat2 K d p fl r w)) = temps w) \<and>
     (\<forall>w d p fl r f. J w \<longrightarrow> O_TMPFILE \<in> fl \<longrightarrow> fst (k_openat2 K d p fl r w) = Inr f \<longrightarrow>
        (\<forall>cell t. points w cell \<noteq> Some (f, t))) \<and>
     (\<forall>w f flags. points (snd (k_set_flags K f flags w)) = points w \<and> temps (snd (k_set_flags K f flags w)) = temps w) \<and>
     (\<forall>w f bs at. points (snd (k_write_all_at K f bs at w)) = points w \<and>
        (\<forall>g t. g \<noteq> f \<longrightarrow> temps (snd (k_write_all_at K f bs at w)) (g, t) = temps w (g, t))) \<and>
     (\<forall>w f bs at w'. k_write_all_at K f bs at w = (Inr (), w') \<longrightarrow>
        (\<forall>i < length bs. temps w' (f, unat at + i) = bs ! i)) \<and>
     (\<forall>w f so len dst at. temps (snd (k_dedupe K f so len dst at w)) = temps w)"

lemma staging_facts:
  assumes "staging K temp J ident D content sz points temps"
  shows "file_view K J ident D content sz" and "sharing K ident points" and "temps_keep K temp J"
    and "reads_keep K J" and "identifies K ident"
    and "reads_keep K (\<lambda>w. points w = p)" and "reads_keep K (\<lambda>w. temps w = m)"
  using assms file_view_facts(1,2) [of K J ident D content sz] sharing_facts(2) [of K ident points p]
  by (simp_all add: staging_def)

lemma staging_laws:
  assumes "staging K temp J ident D content sz points temps"
  shows "points (snd (k_openat2 K d p fl r w)) = points w" and "temps (snd (k_openat2 K d p fl r w)) = temps w"
    and "J w \<Longrightarrow> O_TMPFILE \<in> fl \<Longrightarrow> fst (k_openat2 K d p fl r w) = Inr f \<Longrightarrow> points w cell \<noteq> Some (f, t)"
    and "points (snd (k_set_flags K f flags w)) = points w" and "temps (snd (k_set_flags K f flags w)) = temps w"
    and "points (snd (k_write_all_at K f bs at w)) = points w"
    and "g \<noteq> f \<Longrightarrow> temps (snd (k_write_all_at K f bs at w)) (g, t) = temps w (g, t)"
    and "k_write_all_at K f bs at w = (Inr (), w') \<Longrightarrow> i < length bs \<Longrightarrow> temps w' (f, unat at + i) = bs ! i"
    and "temps (snd (k_dedupe K f so len dst at w)) = temps w"
  using assms by (simp_all add: staging_def del: split_paired_All)

text \<open>A byte of a file is given by a temporary that holds the same byte; \<open>faithful\<close>: each that is
  given by one at all is.\<close>

definition given ::
  "(u64 \<times> u64 \<Rightarrow> nat \<Rightarrow> u8) \<Rightarrow> ('w \<Rightarrow> (u64 \<times> u64) \<times> nat \<Rightarrow> ('f \<times> nat) option) \<Rightarrow> ('w \<Rightarrow> 'f \<times> nat \<Rightarrow> u8) \<Rightarrow> 'w \<Rightarrow>
     u64 \<times> u64 \<Rightarrow> nat \<Rightarrow> bool"
where
  "given content points temps w k b \<longleftrightarrow> (\<exists>f t. points w (k, b) = Some (f, t) \<and> temps w (f, t) = content k b)"

definition faithful ::
  "(u64 \<times> u64 \<Rightarrow> nat \<Rightarrow> u8) \<Rightarrow> ('w \<Rightarrow> (u64 \<times> u64) \<times> nat \<Rightarrow> ('f \<times> nat) option) \<Rightarrow> ('w \<Rightarrow> 'f \<times> nat \<Rightarrow> u8) \<Rightarrow> 'w \<Rightarrow> bool"
where
  "faithful content points temps w \<longleftrightarrow> (\<forall>k b. points w (k, b) \<noteq> None \<longrightarrow> given content points temps w k b)"

text \<open>The invariant of the rewrite: files hold still, what is given is faithful, and the bytes of \<open>S\<close>
  have been given.\<close>

definition giving ::
  "('w \<Rightarrow> bool) \<Rightarrow> (u64 \<times> u64 \<Rightarrow> nat \<Rightarrow> u8) \<Rightarrow> ('w \<Rightarrow> (u64 \<times> u64) \<times> nat \<Rightarrow> ('f \<times> nat) option) \<Rightarrow> ('w \<Rightarrow> 'f \<times> nat \<Rightarrow> u8) \<Rightarrow>
     ((u64 \<times> u64) \<times> nat) set \<Rightarrow> 'w \<Rightarrow> bool"
where
  "giving J content points temps S w \<longleftrightarrow>
     J w \<and> faithful content points temps w \<and> (\<forall>cell \<in> S. points w cell \<noteq> None)"

lemma reads_keep_conj: "reads_keep K A \<Longrightarrow> reads_keep K B \<Longrightarrow> reads_keep K (\<lambda>w. A w \<and> B w)"
  by (simp add: reads_keep_def)

lemma reads_keep_of: "(\<And>p. reads_keep K (\<lambda>w. g w = p)) \<Longrightarrow> reads_keep K (\<lambda>w. P (g w))"
  by (simp add: reads_keep_def)

lemma reads_giving:
  assumes "staging K temp J ident D content sz points temps"
  shows "reads_keep K (giving J content points temps S)"
proof -
  have "reads_keep K (\<lambda>w. (points w, temps w) = pm)" for pm
    using reads_keep_conj [OF staging_facts(6,7) [OF assms], of "fst pm" "snd pm"] by (cases pm) simp
  then have "reads_keep K (\<lambda>w. (\<lambda>(p, m). faithful content fst snd (p, m) \<and> (\<forall>cell \<in> S. p cell \<noteq> None)) (points w, temps w))"
    by (rule reads_keep_of)
  from reads_keep_conj [OF staging_facts(4) [OF assms] this] show ?thesis
    unfolding giving_def faithful_def given_def by simp
qed

section \<open>Staging\<close>

text \<open>Opening the temporary: it is one, and nothing is shared with it.\<close>

abbreviation still :: "('w \<Rightarrow> bool) \<Rightarrow> ('w \<Rightarrow> 'p) \<Rightarrow> ('w \<Rightarrow> 'm) \<Rightarrow> 'p \<Rightarrow> 'm \<Rightarrow> 'w sys \<Rightarrow> bool" where
  "still J points temps p m s \<equiv> J (world s) \<and> points (world s) = p \<and> temps (world s) = m"

lemma temp_file_fresh:
  assumes staging: "staging K temp J ident D content sz points temps"
  shows "safe (still J points temps p m) (\<lambda>f. temp f \<and> (\<forall>cell t. p cell \<noteq> Some (f, t))) (temp_file K fs)"
proof -
  let ?J = "\<lambda>w. J w \<and> points w = p \<and> temps w = m"
  note keep = staging_facts(3) [OF staging]
  have reads: "reads_keep K ?J"
    by (intro reads_keep_conj staging_facts [OF staging])
  have flags: "returns (steady_in ?J) (get_flags K f)" for f
    unfolding get_flags_def by (rule safe_sys_call) (use reads in \<open>simp_all add: reads_keep_def\<close>)
  have set: "returns (steady_in ?J) (set_flags K f flags)" if "temp f" for f flags
    unfolding set_flags_def
    by (rule safe_sys_call) (use keep that staging_laws(4,5) [OF staging] in \<open>simp_all add: temps_keep_def\<close>)
  have nocow: "returns (steady_in ?J) (is_nocow K f)" for f
    unfolding is_nocow_def by (rule safe_bindE [OF flags], rule safe_ret) simp
  have beneath: "safe (steady_in ?J) (\<lambda>f. temp f \<and> (\<forall>cell t. p cell \<noteq> Some (f, t)))
      (open_beneath K (fs_file fs) [] {O_RDWR, O_TMPFILE})"
    unfolding open_beneath_def Let_def
  proof (intro safe_intros safe_sys_call)
    fix w d q r
    assume "?J w"
    with keep show "?J (snd (k_openat2 K d q (insert O_CLOEXEC {O_RDWR, O_TMPFILE}) r w))"
      by (simp add: temps_keep_def staging_laws(1,2) [OF staging])
  next
    fix w d q r f w'
    assume w: "?J w" and f: "k_openat2 K d q (insert O_CLOEXEC {O_RDWR, O_TMPFILE}) r w = (Inr f, w')"
    then have "fst (k_openat2 K d q (insert O_CLOEXEC {O_RDWR, O_TMPFILE}) r w) = Inr f" by simp
    with keep staging_laws(3) [OF staging _ _ this] w show "temp f \<and> (\<forall>cell t. p cell \<noteq> Some (f, t))"
      unfolding temps_keep_def by (metis insertCI)
  qed
  show ?thesis
    unfolding temp_file_def
    by (rule safe_bindE [OF beneath], rule safe_bindE [OF flags])
       (auto intro!: safe_intros safe_bindE [OF set] safe_bindE [OF nocow])
qed

text \<open>Where staging succeeds the bytes are in the temporary, one sector in; where it does not, no more
  than an unshared temporary has changed.\<close>

definition holds_bytes :: "('w \<Rightarrow> 'f \<times> nat \<Rightarrow> u8) \<Rightarrow> 'f \<Rightarrow> nat \<Rightarrow> u8 list \<Rightarrow> 'w \<Rightarrow> bool" where
  "holds_bytes temps f at bytes w \<longleftrightarrow> (\<forall>i < length bytes. temps w (f, at + i) = bytes ! i)"

lemma giving_write:
  assumes "giving J content points temps S w" and "J w'" and "points w' = points w"
    and "\<forall>cell t. points w cell \<noteq> Some (f, t)" and "\<forall>g t. g \<noteq> f \<longrightarrow> temps w' (g, t) = temps w (g, t)"
  shows "giving J content points temps S w'"
  unfolding giving_def faithful_def
proof (intro conjI allI impI)
  fix k b assume "points w' (k, b) \<noteq> None"
  with assms(1,3) obtain g t where "points w (k, b) = Some (g, t)" "temps w (g, t) = content k b"
    unfolding giving_def faithful_def given_def by metis
  with assms(3-5) show "given content points temps w' k b"
    unfolding given_def by (metis (no_types))
qed (use assms in \<open>auto simp: giving_def\<close>)

lemma stage_giving:
  fixes K :: "('w, 'f) kernel"
  assumes staging: "staging K temp J ident D content sz points temps"
    and giving: "giving J content points temps S (world s)"
  shows "wp (stage K fs p bytes)
    (\<lambda>f s'. giving J content points temps S (world s') \<and> temp f \<and>
        holds_bytes temps f (unat (fs_sectorsize fs)) bytes (world s'))
    (\<lambda>q s'. giving J content points temps S (world s') \<and> (\<exists>e. q = Raise e)) s"
proof -
  let ?p = "points (world s)" and ?m = "temps (world s)"
  have start: "still J points temps ?p ?m s" using giving by (simp add: giving_def)
  have kept: "giving J content points temps S (world s')" if "still J points temps ?p ?m s'" for s' :: "'w sys"
    using that giving by (simp add: giving_def faithful_def given_def)
  have written: "wp (bindE (map_err (Failure_new p) (sys_call (k_write_all_at K f bytes (fs_sectorsize fs)))) (\<lambda>_. ret f))
     (\<lambda>f s'. giving J content points temps S (world s') \<and> temp f \<and>
        holds_bytes temps f (unat (fs_sectorsize fs)) bytes (world s'))
     (\<lambda>q s'. giving J content points temps S (world s') \<and> (\<exists>e. q = Raise e)) s'"
    if s': "still J points temps ?p ?m s'" and f: "temp f" "\<forall>cell t. ?p cell \<noteq> Some (f, t)" for f and s' :: "'w sys"
  proof -
    obtain x w where w: "k_write_all_at K f bytes (fs_sectorsize fs) (world s') = (x, w)" by fastforce
    then have w': "w = snd (k_write_all_at K f bytes (fs_sectorsize fs) (world s'))" by simp
    have "J w" using staging_facts(3) [OF staging] s' f(1) unfolding w' temps_keep_def by blast
    then have "giving J content points temps S w"
      by (rule giving_write [OF kept [OF s'], where f = f])
         (use s' f(2) in \<open>simp_all add: w' staging_laws(6,7) [OF staging]\<close>)
    then show ?thesis
      using w f(1) staging_laws(8) [OF staging] by (auto simp: wp_simps holds_bytes_def split: sum.splits)
  qed
  show ?thesis
    unfolding stage_def
    by (subst wp_bindE, rule wp_mono [OF safe_wp [OF safe_map_err [OF temp_file_fresh [OF staging]] start]])
       (use written kept in blast)+
qed

section \<open>Redirecting\<close>

text \<open>A copy in its temporary, and the bytes of a file that one reference has in it.\<close>

definition copied :: "('w \<Rightarrow> 'f \<times> nat \<Rightarrow> u8) \<Rightarrow> (nat \<Rightarrow> u8) \<Rightarrow> u64 \<Rightarrow> 'f \<Rightarrow> live_range \<Rightarrow> 'w \<Rightarrow> bool" where
  "copied temps data ss f lr w \<longleftrightarrow>
     (\<forall>x. unat (lr_start lr) \<le> x \<and> x < unat (lr_end lr) \<longrightarrow> temps w (f, unat ss + x - unat (lr_start lr)) = data x)"

definition cells :: "(u64 \<times> u64 \<Rightarrow> u64) \<Rightarrow> live_range \<Rightarrow> extent_ref \<times> located \<Rightarrow> ((u64 \<times> u64) \<times> nat) set" where
  "cells sz lr rh = (case rh of (r, h) \<Rightarrow> {(file_of_located h, b) | b. redirected (sz (file_of_located h)) lr r b})"

lemma keeps_redirect_ref:
  assumes "\<And>so len dst at. preserves I (dedupe K temp so len dst at)"
  shows "preserves I (redirect_ref K fs p temp f lr filesize r)"
proof -
  have "preserves I (chunk_loop K fs p temp f start r fin till n at)" for start fin till n at
    by (induction n arbitrary: at) (auto simp: Let_def intro!: preserve assms)
  then show ?thesis unfolding redirect_ref_def Let_def by (intro preserve)
qed

lemma dedupe_still:
  assumes "staging K temp J ident D content sz points temps" and "temp f"
  shows "preserves (\<lambda>s. J (world s) \<and> temps (world s) = m) (dedupe K f so len dst at)"
  unfolding dedupe_def
  by (intro preserve on_world.preserves_sys_call [where J = "\<lambda>w. J w \<and> temps w = m"])
     (use staging_facts(3) [OF assms(1)] assms(2) in \<open>simp add: temps_keep_def staging_laws(9) [OF assms(1)]\<close>)

lemma giving_moves:
  assumes "giving J content points temps S w" and "J w'" and "temps w' = temps w"
    and "points w' = (\<lambda>(k, b). if k = k' \<and> P b then Some (f, g b) else points w (k, b))"
    and "\<And>b. P b \<Longrightarrow> temps w (f, g b) = content k' b"
  shows "giving J content points temps (S \<union> {(k', b) | b. P b}) w'"
proof -
  have "given content points temps w' k b" if "points w' (k, b) \<noteq> None" for k b
  proof (cases "k = k' \<and> P b")
    case True
    then show ?thesis using assms(3-5) by (simp add: given_def)
  next
    case False
    then have "points w' (k, b) = points w (k, b)" by (auto simp: assms(4))
    with that assms(1) have "given content points temps w k b" 
      by (simp add: giving_def faithful_def del: split_paired_All)
    with \<open>points w' (k, b) = points w (k, b)\<close> assms(3) show ?thesis by (simp add: given_def)
  qed
  moreover have "points w' cell \<noteq> None" if "cell \<in> S \<union> {(k', b) | b. P b}" for cell
    using that assms(1) unfolding assms(4) giving_def by (cases cell) (auto split: if_splits)
  ultimately show ?thesis using assms(2) by (simp add: giving_def faithful_def)
qed

lemma giving_subset: "giving J content points temps S w \<Longrightarrow> S' \<subseteq> S \<Longrightarrow> giving J content points temps S' w"
  by (auto simp: giving_def)

lemma redirect_ref_giving:
  fixes K :: "('w, 'f) kernel"
  assumes staging: "staging K temp J ident D content sz points temps"
    and r: "placed r" "agrees D content data (r, h)" "unat (r_num_bytes r) < rounds K"
    and ss: "unat (fs_sectorsize fs) < 2 ^ 63"
    and f: "temp f" "ident file = file_of_located h"
    and start: "giving J content points temps S (world s)" "copied temps data (fs_sectorsize fs) f lr (world s)"
  shows "wp (redirect_ref K fs p f file lr (sz (file_of_located h)) r)
    (\<lambda>_ s'. giving J content points temps (S \<union> cells sz lr (r, h)) (world s') \<and>
        copied temps data (fs_sectorsize fs) f lr (world s'))
    (\<lambda>q s'. giving J content points temps S (world s') \<and> (\<exists>e. q = Raise e)) s"
proof -
  let ?size = "sz (file_of_located h)" and ?g = "temp_byte (fs_sectorsize fs) (lr_start lr) r"
  let ?keep = "\<lambda>s'. J (world s') \<and> temps (world s') = temps (world s)"
  have "preserves ?keep (redirect_ref K fs p f file lr ?size r)"
    by (rule keeps_redirect_ref [OF dedupe_still [OF staging f(1)]])
  moreover have "?keep s" using start(1) by (simp add: giving_def)
  ultimately have keep: "wp (redirect_ref K fs p f file lr ?size r) (\<lambda>_. ?keep) (\<lambda>_. ?keep) s"
    by (intro wpI) (rule preserves_end, assumption+)+
  have byte: "temps (world s) (f, ?g b) = content (file_of_located h) b" if "redirected ?size lr r b" for b
  proof -
    let ?x = "unat (r_extent_offset r) + (b - unat (r_file_offset r))"
    have "content (file_of_located h) b = data ?x"
      using r(2) that unfolding agrees_def prod.case redirected_def
      by (metis le_add_diff_inverse less_diff_conv2 add.commute)
    moreover have "temps (world s) (f, unat (fs_sectorsize fs) + ?x - unat (lr_start lr)) = data ?x"
      using start(2) that unfolding copied_def redirected_def by blast
    ultimately show ?thesis by (simp only: temp_byte_def)
  qed
  have gives: "giving J content points temps (S \<union> {(file_of_located h, b) | b. P b}) (world s')"
    if "?keep s'" "points (world s') = (\<lambda>(k, b). if k = ident file \<and> P b then Some (f, ?g b) else points (world s) (k, b))"
      "\<And>b. P b \<Longrightarrow> redirected ?size lr r b" for P and s' :: "'w sys"
    by (rule giving_moves [OF start(1)]) (use that byte f(2) in auto)
  show ?thesis
  proof (rule wp_mono [OF wp_conj [OF redirect_ref_points [OF staging_facts(2) [OF staging] r(1) ss r(3)] keep]], goal_cases)
    case (1 u s')
    with gives [of s' "redirected ?size lr r"] start(2) show ?case by (simp add: cells_def copied_def)
  next
    case (2 q s')
    then obtain m where "points (world s') = (\<lambda>(k, b). if k = ident file \<and> redirected ?size lr r b \<and> b < m
        then Some (f, ?g b) else points (world s) (k, b))" by blast
    with 2 gives [of s' "\<lambda>b. redirected ?size lr r b \<and> b < m"] show ?case
      by (auto elim: giving_subset)
  qed
qed

text \<open>All references of a holder, all holders, all copies.\<close>

abbreviation ref_cells :: "(u64 \<times> u64 \<Rightarrow> u64) \<Rightarrow> live_range \<Rightarrow> located list \<Rightarrow> ((u64 \<times> u64) \<times> nat) set" where
  "ref_cells sz lr hs \<equiv> (\<Union>rh \<in> set (sorted_refs hs). cells sz lr rh)"

lemma ref_cells_Cons: "ref_cells sz lr (hs @ [h]) = ref_cells sz lr hs \<union> (\<Union>r \<in> set (h_refs (lc_holder h)). cells sz lr (r, h))"
  by (auto simp: set_sorted_refs)

lemma redirect_chunks_giving:
  fixes K :: "('w, 'f) kernel"
  assumes staging: "staging K temp J ident D content sz points temps"
    and refs: "\<forall>r \<in> set (h_refs (lc_holder h)). placed r \<and> agrees D content data (r, h) \<and> unat (r_num_bytes r) < rounds K"
    and ss: "unat (fs_sectorsize fs) < 2 ^ 63" and f: "temp f"
    and start: "giving J content points temps S (world s)" "copied temps data (fs_sectorsize fs) f lr (world s)"
  shows "wp (redirect_chunks K fs h f lr (sz (file_of_located h)))
    (\<lambda>_ s'. giving J content points temps (S \<union> (\<Union>r \<in> set (h_refs (lc_holder h)). cells sz lr (r, h))) (world s') \<and>
        copied temps data (fs_sectorsize fs) f lr (world s'))
    (\<lambda>q s'. giving J content points temps S (world s') \<and> (\<exists>e. q = Raise e)) s"
proof -
  let ?refs = "h_refs (lc_holder h)" and ?E = "\<lambda>q s'. giving J content points temps S (world s') \<and> (\<exists>e. q = Raise e)"
  let ?I = "\<lambda>ys (_ :: unit) (s' :: 'w sys). giving J content points temps (S \<union> (\<Union>r \<in> set ys. cells sz lr (r, h))) (world s') \<and>
      copied temps data (fs_sectorsize fs) f lr (world s')"
  have loop: "wp (foldE (\<lambda>r _. redirect_ref K fs (lc_path h) f dest lr (sz (file_of_located h)) r) ?refs ()) (?I ?refs) ?E s'"
    if target: "ident dest = file_of_located h" and s': "?I [] () s'" for dest and s' :: "'w sys"
  proof (rule wp_foldE)
    fix ys x zs b and t :: "'w sys"
    assume eq: "?refs = ys @ x # zs" and I: "?I ys b t"
    have x: "placed x" "agrees D content data (x, h)" "unat (r_num_bytes x) < rounds K" using refs by (simp_all add: eq)
    show "wp (redirect_ref K fs (lc_path h) f dest lr (sz (file_of_located h)) x) (?I (ys @ [x])) ?E t"
      by (rule wp_mono [OF redirect_ref_giving [OF staging x ss f target conjunct1 [OF I] conjunct2 [OF I]]])
         (auto simp: Un_assoc elim: giving_subset)
  qed (rule s')
  have "reads_keep K (\<lambda>w. giving J content points temps S w \<and> temps w = temps (world s))"
    by (intro reads_keep_conj reads_giving [OF staging] staging_facts(7) [OF staging])
  from safe_wp [OF safe_Located_open [OF staging_facts(5) [OF staging] this]]
  have "wp (Located_open K fs h) (\<lambda>file s'. (giving J content points temps S (world s') \<and> temps (world s') = temps (world s)) \<and>
      ident file = file_of_located h) (\<lambda>q s'. (giving J content points temps S (world s') \<and> temps (world s') = temps (world s)) \<and>
      (\<exists>e. q = Raise e)) s"
    using start(1) by simp
  then show ?thesis
    unfolding redirect_chunks_def wp_bindE
    by (rule wp_mono) (use loop start(2) in \<open>auto simp: copied_def\<close>)
qed

lemma copied_staged:
  assumes "holds_bytes temps f (unat ss) (lr_bytes lr) w" and "lr_bytes lr = map data [unat (lr_start lr)..<unat (lr_end lr)]"
  shows "copied temps data ss f lr w"
  unfolding copied_def
proof (intro allI impI)
  fix x assume "unat (lr_start lr) \<le> x \<and> x < unat (lr_end lr)"
  then have x: "unat (lr_start lr) \<le> x" "x - unat (lr_start lr) < unat (lr_end lr) - unat (lr_start lr)"
    by (auto intro: diff_less_mono)
  then have "x - unat (lr_start lr) < length (lr_bytes lr)" by (simp add: assms(2))
  with assms(1) have "temps w (f, unat ss + (x - unat (lr_start lr))) = lr_bytes lr ! (x - unat (lr_start lr))"
    unfolding holds_bytes_def by blast
  also have "\<dots> = data x" using x by (simp add: assms(2))
  finally show "temps w (f, unat ss + x - unat (lr_start lr)) = data x" using x by simp
qed

lemma redirect_all_giving:
  fixes K :: "('w, 'f) kernel"
  assumes staging: "staging K temp J ident D content sz points temps"
    and refs: "\<forall>(r, h) \<in> set (sorted_refs hs). placed r \<and> agrees D content data (r, h) \<and> unat (r_num_bytes r) < rounds K"
    and ss: "unat (fs_sectorsize fs) < 2 ^ 63" and hs: "hs \<noteq> []"
    and sizes: "list_all2 (\<lambda>h b. hb_filesize b = sz (file_of_located h)) hs before"
    and copy: "lr_start lr \<le> lr_end lr" "lr_bytes lr = map data [unat (lr_start lr)..<unat (lr_end lr)]"
    and start: "giving J content points temps S (world s)"
  shows "wp (redirect_all K fs (zip hs before) lr)
    (\<lambda>_ s'. giving J content points temps (S \<union> ref_cells sz lr hs) (world s'))
    (\<lambda>q s'. giving J content points temps S (world s') \<and> (\<exists>e. q = Raise e)) s"
proof -
  let ?E = "\<lambda>q s'. giving J content points temps S (world s') \<and> (\<exists>e. q = Raise e)"
  let ?I = "\<lambda>f ys (_ :: unit) (s' :: 'w sys). giving J content points temps (S \<union> ref_cells sz lr (map fst ys)) (world s') \<and>
      copied temps data (fs_sectorsize fs) f lr (world s')"
  have len: "length before = length hs" using sizes by (simp add: list_all2_lengthD)
  have copied: "copied temps data (fs_sectorsize fs) f lr w"
    if "holds_bytes temps f (unat (fs_sectorsize fs)) (lr_bytes lr) w" for f w
    by (rule copied_staged [OF that copy(2)])
  have loop: "wp (foldE (\<lambda>hb _. redirect_chunks K fs (fst hb) f lr (hb_filesize (snd hb))) (zip hs before) ())
      (?I f (zip hs before)) ?E s'" if f: "temp f" and s': "?I f [] () s'" for f and s' :: "'w sys"
  proof (rule wp_foldE)
    fix ys hb zs b and t :: "'w sys"
    assume eq: "zip hs before = ys @ hb # zs" and I: "?I f ys b t"
    then have "hb \<in> set (zip hs before)" by simp
    with sizes have size: "hb_filesize (snd hb) = sz (file_of_located (fst hb))" and "fst hb \<in> set hs"
      by (cases hb; auto simp: list_all2_iff dest: set_zip_leftD)+
    with refs have good: "\<forall>r \<in> set (h_refs (lc_holder (fst hb))). placed r \<and> agrees D content data (r, fst hb) \<and> unat (r_num_bytes r) < rounds K"
      by (auto simp: set_sorted_refs)
    show "wp (redirect_chunks K fs (fst hb) f lr (hb_filesize (snd hb))) (?I f (ys @ [hb])) ?E t"
      unfolding size map_append list.map ref_cells_Cons
      by (rule wp_mono [OF redirect_chunks_giving [OF staging good ss f conjunct1 [OF I] conjunct2 [OF I]]])
         (auto simp: Un_assoc elim: giving_subset)
  qed (use s' in simp)
  obtain p where p: "(case zip hs before of [] \<Rightarrow> None | (h, _) # _ \<Rightarrow> Some (lc_path h)) = Some p"
    using hs len by (cases hs; cases before) auto
  have "wp (stage K fs p (lr_bytes lr)) (\<lambda>f. wp (foldE (\<lambda>hb _. redirect_chunks K fs (fst hb) f lr (hb_filesize (snd hb)))
      (zip hs before) ()) (?I f (zip hs before)) ?E) ?E s"
    by (rule wp_mono [OF stage_giving [OF staging start]]) (use loop copied in \<open>auto simp: sorted_refs_def\<close>)
  then have "wp (stage K fs p (lr_bytes lr)) (\<lambda>f. wp (foldE (\<lambda>hb _. redirect_chunks K fs (fst hb) f lr (hb_filesize (snd hb)))
      (zip hs before) ()) (\<lambda>_ s'. giving J content points temps (S \<union> ref_cells sz lr hs) (world s')) ?E) ?E s"
    by (rule wp_mono) (use len in \<open>auto elim!: wp_mono\<close>)
  then show ?thesis unfolding redirect_all_def p by (simp add: wp_simps)
qed

section \<open>Before and after\<close>

lemma giving_view:
  assumes "staging K temp J ident D content sz points temps"
  shows "file_view K (giving J content points temps S) ident D content sz"
  using staging_facts(1) [OF assms] reads_giving [OF assms, of S] unfolding file_view_def giving_def by blast

lemma dedupe_giving:
  fixes K :: "('w, 'f) kernel"
  assumes staging: "staging K temp J ident D content sz points temps" and f: "temp f"
    and giving: "giving J content points temps S (world s)"
    and same: "\<forall>i < unat len. temps (world s) (f, unat so + i) = content (ident dst) (unat at + i)"
  shows "wp (map_err g (dedupe K f so len dst at))
    (\<lambda>n s'. giving J content points temps (S \<union> {(ident dst, b) | b. unat at \<le> b \<and> b < unat at + unat n}) (world s'))
    (\<lambda>q s'. giving J content points temps S (world s') \<and> (\<exists>e. q = Raise e)) s"
proof -
  let ?keep = "\<lambda>s'. J (world s') \<and> temps (world s') = temps (world s)"
  let ?given = "\<lambda>n. S \<union> {(ident dst, b) | b. unat at \<le> b \<and> b < unat at + unat n}"
  have now: "?keep s" using giving by (simp add: giving_def)
  have gives: "\<exists>n. giving J content points temps (?given n) (world s') \<and> (case x of Inl q \<Rightarrow> \<exists>e. q = Raise e | Inr m \<Rightarrow> m = n)"
    if run: "dedupe K f so len dst at s = (x, s')" for x s'
  proof (rule dedupe_moves [OF staging_facts(2) [OF staging] run])
    fix n assume n: "n \<le> len" and moves: "points (world s') = moved (ident dst) f (\<lambda>b. unat so + (b - unat at))
        (unat at) (unat at + unat n) (points (world s))" and x: "case x of Inl q \<Rightarrow> \<exists>e. q = Raise e | Inr m \<Rightarrow> m = n"
    have keep: "?keep s'" by (rule preserves_end [OF dedupe_still [OF staging f] now run])
    have "giving J content points temps (?given n) (world s')"
    proof (rule giving_moves [OF giving])
      fix b assume b: "unat at \<le> b \<and> b < unat at + unat n"
      with n have "b - unat at < unat len" by (auto simp: word_le_nat_alt)
      with same b show "temps (world s) (f, unat so + (b - unat at)) = content (ident dst) b" by auto
    qed (use keep moves in \<open>auto simp: moved_def fun_eq_iff\<close>)
    with x show ?thesis by blast
  qed
  have "wp (dedupe K f so len dst at) (\<lambda>n s'. giving J content points temps (?given n) (world s'))
    (\<lambda>q s'. giving J content points temps S (world s') \<and> (\<exists>e. q = Raise e)) s"
    by (rule wpI; drule gives) (auto elim: giving_subset)
  then show ?thesis unfolding wp_map_err by (rule wp_mono) auto
qed

lemma HolderBefore_size:
  assumes "file_view K J ident D content sz" and "file_of_located h \<in> D"
  shows "safe (steady_in J) (\<lambda>b. hb_filesize b = sz (file_of_located h)) (HolderBefore_read K fs h)"
  unfolding HolderBefore_read_def modified_time_def
  by (rule safe_bindE [OF safe_Located_open [OF file_view_facts(1,2) [OF assms(1)]]],
      rule safe_bindE [OF safe_map_err [OF safe_metadata_len [OF assms(1)]]])
     (auto simp: assms(2) intro!: safe_bindE [where P = "\<lambda>_. True"] safe_ret safe_raise split: sum.splits)

lemma finish_holder_giving:
  fixes K :: "('w, 'f) kernel"
  assumes staging: "staging K temp J ident D content sz points temps" and ss: "fs_sectorsize fs \<noteq> 0"
    and h: "file_of_located h \<in> D"
  shows "returns (\<lambda>s. giving J content points temps S (world s)) (finish_holder K fs h before)"
proof -
  note view = giving_view [OF staging, of S]
  let ?I = "\<lambda>s :: 'w sys. giving J content points temps S (world s)"
  have tail: "returns ?I (redirect_tail K fs p dest frm size)" if "ident dest = file_of_located h" for p dest frm size
  proof -
    let ?n = "unat (size - frm)"
    have "returns ?I (bindE (stage K fs p bytes) (\<lambda>temp.
         bindE (map_err (Failure_new p) (dedupe K temp (fs_sectorsize fs) (size - frm) dest frm)) (\<lambda>_. ret ())))"
      if bytes: "bytes = map (\<lambda>i. content (ident dest) (unat frm + i)) [0..<?n]" for bytes
      unfolding safe_def wp_bindE wp_ret
    proof (intro allI impI)
      fix s assume "?I s"
      then show "wp (stage K fs p bytes) (\<lambda>f. wp (map_err (Failure_new p) (dedupe K f (fs_sectorsize fs) (size - frm) dest frm))
          (\<lambda>_ s'. ?I s' \<and> True) (\<lambda>q s'. ?I s' \<and> (\<exists>e. q = Raise e))) (\<lambda>q s'. ?I s' \<and> (\<exists>e. q = Raise e)) s"
        by (intro wp_mono [OF stage_giving [OF staging]])
           (auto simp: holds_bytes_def bytes intro!: wp_mono [OF dedupe_giving [OF staging]] elim: giving_subset)
    qed
    then show ?thesis
      unfolding redirect_tail_def Let_def
      by (intro safe_bindE [OF safe_map_err [OF safe_read_into [OF view]]]) (auto simp: that h)
  qed
  obtain t where t: "round_down (hb_filesize before) (fs_sectorsize fs) = Some t" using round_down_Some [OF ss] by blast
  have meta: "returns ?I (sys_call (k_metadata K f))" for f 
    by (rule safe_returns [OF safe_metadata_ino [OF file_view_facts(1,2) [OF view]]])
  have time: "returns ?I (modified_time p m)" for p m
    unfolding modified_time_def by (auto intro!: safe_ret safe_raise split: sum.splits)
  show ?thesis
    unfolding finish_holder_def Let_def
    by (rule safe_bindE [OF safe_Located_open [OF file_view_facts(1,2) [OF view]]],
        rule safe_bindE [OF safe_unwrap [OF t, of "\<lambda>_. True"]], simp,
        rule safe_bindE [OF safe_if [OF tail safe_ret]], assumption, simp,
        rule safe_bindE [OF safe_map_err [OF meta]], rule safe_if, rule safe_raise,
        rule safe_bindE [OF time], rule safe_if, rule safe_raise, rule safe_ret) simp
qed

section \<open>The whole rewrite\<close>

text \<open>A byte of a reference whose whole sector the file has is in a whole sector of the extent there is
  to read.\<close>

lemma sector_there:
  fixes b fo eo n len ss :: nat
  assumes "0 < ss" and "ss dvd fo" and "ss dvd eo" and "ss dvd n"
    and "fo \<le> b" and "b < fo + n" and "(b div ss + 1) * ss \<le> len"
  shows "((eo + (b - fo)) div ss + 1) * ss \<le> eo + min n (len - fo)"
proof -
  obtain i j where ij: "fo = ss * i" "eo = ss * j" using assms(2,3) by (auto simp: dvd_def)
  define d where "d = b - fo"
  have d: "b = ss * i + d" "d < n" using assms(5,6) by (simp_all add: d_def ij)
  have "(d div ss + 1) * ss \<le> n" by (rule sector_below [OF assms(1) d(2) assms(4)])
  moreover have "(i + d div ss + 1) * ss \<le> len" using assms(1,7) by (simp add: d(1))
  ultimately have "(d div ss + 1) * ss \<le> min n (len - fo)" by (simp add: ij algebra_simps)
  moreover have "((eo + d) div ss + 1) * ss = eo + (d div ss + 1) * ss" using assms(1) by (simp add: ij algebra_simps)
  ultimately show ?thesis by (simp only: d_def [symmetric] add_le_cancel_left)
qed

lemma in_sector: "0 < ss \<Longrightarrow> b < (b div ss + 1) * ss" for b ss :: nat
  by (simp add: dividend_less_div_times)

lemma cell_of_byte:
  assumes live: "live_copies data ss sz (sorted_refs hs) (e_live_ranges e) lrs" and ss: "ss \<noteq> 0"
    and e: "extent_ok e" "map lc_holder hs = holders e" and good: "refs_good ss D content data e"
    and offsets: "\<forall>r \<in> set (e_refs e). aligned ss (r_file_offset r)"
    and r: "r \<in> set (e_refs e)" and b: "unat (r_file_offset r) \<le> b" "b < unat (r_file_offset r) + unat (r_num_bytes r)"
    and whole: "(b div unat ss + 1) * unat ss \<le> unat (sz (r_root r, r_inode r))"
  shows "((r_root r, r_inode r), b) \<in> (\<Union>lr \<in> set lrs. ref_cells sz lr hs)"
proof -
  let ?x = "unat (r_extent_offset r) + (b - unat (r_file_offset r))"
  obtain h where h: "(r, h) \<in> set (sorted_refs hs)" "file_of_located h = (r_root r, r_inode r)"
    using located_refs [OF e(2)] r by blast
  have al: "unat ss dvd unat (r_file_offset r)" "unat ss dvd unat (r_extent_offset r)" "unat ss dvd unat (r_num_bytes r)"
    using offsets r located_good [OF good e(2) h(1)] by (simp_all add: aligned_def)
  have ss': "0 < unat ss" using ss by (simp add: unat_gt_0)
  have "(?x div unat ss + 1) * unat ss \<le> avail_end sz (r, h)"
    using sector_there [OF ss' al b whole] by (simp add: avail_end_def h(2))
  then have "has_sector ss sz (sorted_refs hs) ?x" unfolding has_sector_def by (intro bexI [OF _ h(1)]) simp
  moreover have "\<exists>g \<in> set (e_live_ranges e). unat (fst g) \<le> ?x \<and> ?x < unat (snd g)"
    by (rule live_at [OF e(1) r]) (use b in auto)
  ultimately have "in_copy lrs ?x" using live by (simp add: live_copies_def)
  then obtain lr where lr: "lr \<in> set lrs" "unat (lr_start lr) \<le> ?x" "?x < unat (lr_end lr)" by (auto simp: in_copy_def)
  moreover have "b < unat (sz (file_of_located h))" using in_sector [OF ss', of b] whole h(2) by simp
  ultimately have "((r_root r, r_inode r), b) \<in> cells sz lr (r, h)" using b h(2) by (simp add: cells_def redirected_def)
  with lr(1) h(1) show ?thesis by blast
qed

lemma copies_have_holders: "live_copies data ss sz (sorted_refs hs) ranges lrs \<Longrightarrow> lr \<in> set lrs \<Longrightarrow>
    hs \<noteq> [] \<and> lr_start lr \<le> lr_end lr \<and> lr_bytes lr = map data [unat (lr_start lr)..<unat (lr_end lr)]"
proof -
  assume live: "live_copies data ss sz (sorted_refs hs) ranges lrs" and lr: "lr \<in> set lrs"
  then have ok: "lr_start lr < lr_end lr" "lr_bytes lr = map data [unat (lr_start lr)..<unat (lr_end lr)]"
    by (auto simp: live_copies_def copy_ok_def)
  with lr have "in_copy lrs (unat (lr_start lr))" by (auto simp: in_copy_def word_less_nat_alt)
  with live have "has_sector ss sz (sorted_refs hs) (unat (lr_start lr))" by (simp add: live_copies_def)
  then have "hs \<noteq> []" by (auto simp: has_sector_def sorted_refs_def)
  with ok show ?thesis by simp
qed

lemma realloc_extent_giving:
  fixes K :: "('w, 'f) kernel"
  assumes staging: "staging K temp J ident D content sz points temps"
    and ss: "fs_sectorsize fs \<noteq> 0" "unat (fs_sectorsize fs) < 2 ^ 63"
    and e: "extent_ok e" "map lc_holder hs = holders e" and good: "refs_good (fs_sectorsize fs) D content data e"
    and rounds: "\<forall>r \<in> set (e_refs e). unat (r_num_bytes r) < rounds K"
    and start: "giving J content points temps {} (world s)"
  shows "wp (realloc_extent K fs e hs)
    (\<lambda>_ s'. \<exists>lrs. live_copies data (fs_sectorsize fs) sz (sorted_refs hs) (e_live_ranges e) lrs \<and>
        giving J content points temps (\<Union>lr \<in> set lrs. ref_cells sz lr hs) (world s'))
    (\<lambda>_ s'. giving J content points temps {} (world s')) s"
proof -
  let ?G = "\<lambda>S (s :: 'w sys). giving J content points temps S (world s)"
  let ?live = "live_copies data (fs_sectorsize fs) sz (sorted_refs hs) (e_live_ranges e)"
  let ?sizes = "list_all2 (\<lambda>h b. hb_filesize b = sz (file_of_located h)) hs"
  note view = giving_view [OF staging]
  have known: "file_of_located h \<in> D" if "h \<in> set hs" for h
  proof -
    have "lc_holder h \<in> set (holders e)" using that unfolding e(2) [symmetric] by simp
    from holder_refs(2) [OF this] obtain r where "r \<in> set (h_refs (lc_holder h))" by (cases "h_refs (lc_holder h)") auto
    with that have "(r, h) \<in> set (sorted_refs hs)" by (simp add: set_sorted_refs)
    from located_refs(1) [OF e(2) this] good show ?thesis by (simp add: refs_good_def)
  qed
  have refs: "\<forall>(r, h) \<in> set (sorted_refs hs). placed r \<and> agrees D content data (r, h) \<and> unat (r_num_bytes r) < rounds K"
    using located_good [OF good e(2)] located_refs(1) [OF e(2)] rounds by blast
  have copies: "wp (foldE (\<lambda>lr _. redirect_all K fs (zip hs before) lr) lrs ()) (\<lambda>_. ?G (\<Union>lr \<in> set lrs. ref_cells sz lr hs)) (\<lambda>_. ?G {}) t"
    if live: "?live lrs" and sizes: "?sizes before" and t: "?G {} t" for lrs before t
  proof (rule wp_foldE [where I = "\<lambda>ys _. ?G (\<Union>lr \<in> set ys. ref_cells sz lr hs)"])
    fix ys lr zs and b :: unit and u
    assume lrs: "lrs = ys @ lr # zs" and I: "?G (\<Union>lr \<in> set ys. ref_cells sz lr hs) u"
    then have lr: "hs \<noteq> []" "lr_start lr \<le> lr_end lr" "lr_bytes lr = map data [unat (lr_start lr)..<unat (lr_end lr)]"
      using copies_have_holders [OF live, of lr] by simp_all
    show "wp (redirect_all K fs (zip hs before) lr) (\<lambda>_. ?G (\<Union>lr \<in> set (ys @ [lr]). ref_cells sz lr hs)) (\<lambda>_. ?G {}) u"
      by (rule wp_mono [OF redirect_all_giving [OF staging refs ss(2) lr(1) sizes lr(2,3) I]])
         (auto simp: Un_commute elim: giving_subset)
  qed (use t in simp)
  have finish: "returns (?G S) (foldE (\<lambda>hb _. finish_holder K fs (fst hb) (snd hb)) (zip hs before) ())" for S before
    by (rule safe_foldE) (auto intro!: finish_holder_giving [OF staging ss(1)] known dest: set_zip_leftD)
  have check: "preserves (?G S) (foldE (\<lambda>h _. check_released K e h) hs ())" for S
    by (intro preserve reads_check_released reads_giving [OF staging])
  have before: "safe (?G S) ?sizes (mapE (HolderBefore_read K fs) hs)" for S
    by (rule safe_mapE_each) (intro HolderBefore_size [OF view] known)
  have rest: "wp (bindE (foldE (\<lambda>hb _. finish_holder K fs (fst hb) (snd hb)) (zip hs before) ()) (\<lambda>_.
      foldE (\<lambda>h _. check_released K e h) hs ())) (\<lambda>_. ?G S) (\<lambda>_. ?G {}) t" if "?G S t" for S before t
    unfolding wp_bindE
    by (rule wp_mono [OF safe_wp [OF finish that]])
       (auto intro: wp_mono [OF preserves_wp [OF check]] giving_subset)
  show ?thesis
    unfolding realloc_extent_def
    by (subst wp_bindE, rule wp_mono [OF safe_wp [OF read_liveranges_safe [OF view ss(1) e good] start]],
        subst wp_bindE, rule wp_mono [OF safe_wp [OF before]], erule conjunct1,
        subst wp_bindE, rule wp_mono [OF copies], erule conjunct2, erule conjunct2, erule conjunct1,
        rule wp_mono [OF rest], assumption)
       auto
qed


section \<open>The small file system, rewritten byte by byte\<close>

text \<open>Its kernel keeps what is shared, what the temporaries hold, and the last handle given out, and has
  the trees \<open>T\<close> says go with them. Handle 0 is the file; it dedupes eight bytes at a time
  of a sector or more, and less than a sector at once.\<close>

type_synonym copies = "((u64 \<times> u64) \<times> nat \<Rightarrow> (nat \<times> nat) option) \<times> (nat \<times> nat \<Rightarrow> u8) \<times> nat"

definition copy_kernel :: "(copies \<Rightarrow> u64 \<Rightarrow> item list) \<Rightarrow> (copies, nat) kernel" where
  "copy_kernel T = sample_kernel
     \<lparr>rounds := 40,
      k_search := (\<lambda>key _ w. (Inr (of_nat (length (matching (T w) key)), encode_items (matching (T w) key)), w)),
      k_openat2 := (\<lambda>_ _ fl _ (p, m, n). if O_TMPFILE \<in> fl then (Inr (Suc n), (p, m, Suc n)) else (Inr 0, (p, m, n))),
      k_get_flags := (\<lambda>_ w. (Inr 0, w)),
      k_metadata := (\<lambda>f w. (Inr \<lparr>md_ino = (if f = 0 then 256 else 257), md_len = 24, md_is_dir = False, md_modified = Inr 0\<rparr>, w)),
      k_ino_lookup := (\<lambda>_ _ _ w. (Inr (5, []), w)),
      k_ino_paths := (\<lambda>_ _ _ w. (Inr (1, [8, 0, 0, 0, 0, 0, 0, 0, 97, 0]), w)),
      k_read_exact_at := (\<lambda>_ _ n w. (Inr (replicate n 7), w)),
      k_write_all_at := (\<lambda>f bs at (p, m, n). (Inr (),
        (p, (\<lambda>(g, t). if g = f \<and> unat at \<le> t \<and> t < unat at + length bs then bs ! (t - unat at) else m (g, t)), n))),
      k_dedupe := (\<lambda>src so len dst at (p, m, n). (Inr (0, (if len < 16 then len else 8)),
        ((\<lambda>(i, b). if i = (5, if dst = 0 then 256 else 257) \<and> unat at \<le> b \<and> b < unat at + unat ((if len < 16 then len else 8))
                  then Some (src, unat so + (b - unat at)) else p (i, b)), m, max n src)))\<rparr>"

lemmas copy_kernel_simps = copy_kernel_def sample_kernel_simps

definition copy_fs :: "nat filesystem" where
  "copy_fs = \<lparr>fs_file = 0, fs_private = 0, fs_mount = ''/mnt'', fs_sectorsize = 16, fs_read_only = False\<rparr>"

definition copy_steady :: "copies \<Rightarrow> bool" where
  "copy_steady w \<longleftrightarrow> (\<forall>cell f t. fst w cell = Some (f, t) \<longrightarrow> f \<le> snd (snd w))"

definition copy_start :: copies where
  "copy_start = (Map.empty, (\<lambda>_. 0), 0)"

lemma copy_reads: "reads_keep (copy_kernel T) J"
  by (auto simp: reads_keep_def copy_kernel_simps split: prod.splits)

lemma copy_identifies: "identifies (copy_kernel T) (\<lambda>f. (5, if f = 0 then 256 else 257))"
  by (auto simp: identifies_def copy_kernel_simps)

lemma copy_view: "file_view (copy_kernel T) copy_steady (\<lambda>f. (5, if f = 0 then 256 else 257)) {(5, 256)} (\<lambda>_ _. 7) (\<lambda>_. 24)"
  unfolding file_view_def
  by (intro conjI copy_identifies copy_reads) (auto simp: copy_kernel_simps map_replicate_const)

lemma copy_sharing: "sharing (copy_kernel T) (\<lambda>f. (5, if f = 0 then 256 else 257)) fst"
  unfolding sharing_def
  by (intro conjI copy_identifies copy_reads allI)
     (auto simp: copy_kernel_simps not_less intro: order_trans [of "8 :: u64" 16] split: prod.splits if_splits)

lemma copy_temps: "temps_keep (copy_kernel T) (\<lambda>_. True) copy_steady"
  unfolding temps_keep_def
  by (intro conjI copy_reads) (auto simp: copy_kernel_simps copy_steady_def split: prod.splits if_splits; meson le_SucI max.coboundedI1)+

lemma copy_staging:
  "staging (copy_kernel T) (\<lambda>_. True) copy_steady (\<lambda>f. (5, if f = 0 then 256 else 257)) {(5, 256)} (\<lambda>_ _. 7) (\<lambda>_. 24) fst (fst \<circ> snd)"
  unfolding staging_def
  by (intro conjI copy_view copy_sharing copy_temps copy_reads allI)
     (auto simp: copy_kernel_simps copy_steady_def split: prod.splits if_splits; meson Suc_n_not_le_n)+

lemma copy_calls:
  "k_read_exact_at (copy_kernel T) f at n w = (Inr (replicate n 7), w)"
  "k_metadata (copy_kernel T) f w = (Inr \<lparr>md_ino = (if f = 0 then 256 else 257), md_len = 24, md_is_dir = False, md_modified = Inr 0\<rparr>, w)"
  by (simp_all add: copy_kernel_def)

lemma copy_fs_sector [simp]: "fs_sectorsize copy_fs = 16"
  by (simp add: copy_fs_def)

lemma copy_open: "Located_open (copy_kernel T) copy_fs live_located s = (Inr 0, s)"
  by (cases "world s")
     (simp add: Located_open_def open_inode_def open_beneath_def own_root_id_def ino_lookup_args_def
      map_err_def matchE_def bindE_def sys_call_def ret_def live_located_def copy_kernel_simps)

lemma copy_fill:
  "fill (copy_kernel T) copy_fs [(live_ref, live_located)] 0 32 (replicate 32 0) s
     = (Inr (24, replicate 24 7 @ replicate 8 0), s)"
  by (simp add: fill_def copy_open bindE_def map_err_def matchE_def Let_def saturating_sub_def min_def
      read_into_def sys_call_def copy_calls ret_def overwrite_def)

abbreviation copy_range :: live_range where
  "copy_range \<equiv> \<lparr>lr_bytes = replicate 16 7, lr_start = 0, lr_end = 16\<rparr>"

lemma copy_read: "read_liveranges (copy_kernel T) copy_fs live_extent [live_located] s = (Inr [copy_range], s)"
proof -
  have "stretch_loop (copy_kernel T) copy_fs [(live_ref, live_located)] 32 3 0 [] s = (Inr [copy_range], s)"
    by (simp add: numeral_3_eq_3 bindE_def copy_fill round_down_def unwrap_def next_start_def ret_def)
  then show ?thesis
    by (simp add: read_liveranges_def live_sorted_refs numeral_3_eq_3 Let_def bindE_def ret_def del: stretch_loop.simps)
qed

lemma copy_before:
  "HolderBefore_read (copy_kernel T) copy_fs live_located s = (Inr \<lparr>hb_filesize = 24, hb_modified = 0\<rparr>, s)"
  by (simp add: HolderBefore_read_def bindE_def copy_open map_err_def matchE_def sys_call_def copy_calls modified_time_def ret_def)

lemma copy_stage: "\<exists>f w. stage (copy_kernel T) copy_fs p bytes s = (Inr f, s\<lparr>world := w\<rparr>)"
  by (cases "world s")
     (simp add: stage_def temp_file_def open_beneath_def get_flags_def bindE_def map_err_def matchE_def
      sys_call_def Let_def ret_def copy_kernel_simps del: split_paired_Ex, rule exI, rule refl)

lemma copy_dedupe: "\<exists>w. map_err g (dedupe (copy_kernel T) src so len dst at) s = (Inr ((if len < 16 then len else 8)), s\<lparr>world := w\<rparr>)"
  by (cases "world s"; cases "dst = 0"; cases "len < 16")
     (simp add: dedupe_def map_err_def matchE_def bindE_def sys_call_def ret_def copy_kernel_simps del: split_paired_Ex,
      rule exI, rule refl)+

lemma copy_chunks: "\<exists>w. redirect_chunks (copy_kernel T) copy_fs live_located f copy_range 24 s = (Inr (), s\<lparr>world := w\<rparr>)"
proof -
  have loop: "\<exists>w. chunk_loop (copy_kernel T) copy_fs p f 0 0 live_ref 24 16 (Suc (Suc (Suc n))) 0 s = (Inr (), s\<lparr>world := w\<rparr>)" for p n s
  proof -
    obtain w1 where s1: "map_err (Failure_new p) (dedupe (copy_kernel T) f 16 16 0 0) s = (Inr 8, s\<lparr>world := w1\<rparr>)"
      using copy_dedupe [of "Failure_new p" T f 16 16 0 0 s] by (auto)
    obtain w2 where s2: "map_err (Failure_new p) (dedupe (copy_kernel T) f 24 8 0 8) (s\<lparr>world := w1\<rparr>) = (Inr 8, s\<lparr>world := w2\<rparr>)"
      using copy_dedupe [of "Failure_new p" T f 24 8 0 8 "s\<lparr>world := w1\<rparr>"] by (auto)
    show ?thesis by (simp add: bindE_def Let_def s1 s2 ret_def del: split_paired_Ex) blast
  qed
  have "\<exists>w. redirect_ref (copy_kernel T) copy_fs p f 0 copy_range 24 live_ref s = (Inr (), s\<lparr>world := w\<rparr>)" for p s
  proof -
    have "rounds (copy_kernel T) = Suc (Suc (Suc 37))" by (simp add: copy_kernel_def)
    then show ?thesis using loop [of p 37 s] by (simp add: redirect_ref_def ref_end_def Let_def del: chunk_loop.simps)
  qed
  then show ?thesis
    by (simp add: redirect_chunks_def bindE_Inr copy_open) (simp add: live_located_def bindE_Inr)
qed

lemma copy_finish:
  "\<exists>w. finish_holder (copy_kernel T) copy_fs live_located \<lparr>hb_filesize = 24, hb_modified = 0\<rparr> s = (Inr (), s\<lparr>world := w\<rparr>)"
proof -
  obtain f w1 where s1: "stage (copy_kernel T) copy_fs (lc_path live_located) (replicate 8 7) s = (Inr f, s\<lparr>world := w1\<rparr>)"
    using copy_stage by blast
  obtain w2 where s2: "map_err (Failure_new (lc_path live_located)) (dedupe (copy_kernel T) f 16 8 0 16) (s\<lparr>world := w1\<rparr>)
      = (Inr 8, s\<lparr>world := w2\<rparr>)"
    using copy_dedupe [of "Failure_new (lc_path live_located)" T f 16 8 0 16 "s\<lparr>world := w1\<rparr>"] by auto
  have "redirect_tail (copy_kernel T) copy_fs (lc_path live_located) 0 16 24 s = (Inr (), s\<lparr>world := w2\<rparr>)"
    using s1 s2
    by (simp add: redirect_tail_def read_into_def bindE_Inr sys_call_def copy_calls overwrite_def Let_def)
  moreover have "h_refs (lc_holder live_located) = [live_ref]" by (simp add: live_located_def)
  ultimately show ?thesis
    by (simp add: finish_holder_def bindE_Inr copy_open round_down_def ref_end_def sys_call_def copy_calls Let_def
        del: split_paired_Ex) blast
qed

lemma copy_serving: "serving (copy_kernel (\<lambda>_ _. [])) (\<lambda>_. []) (sample_sys w)"
proof -
  have "serves (copy_kernel (\<lambda>_ _. [])) (\<lambda>_. []) w"
    by (rule serves_trees) (simp_all add: copy_kernel_simps tree_fits_def)
  then show ?thesis
    by (simp add: serving_def pool_ok_def tree_ok_def) (simp add: copy_kernel_simps)
qed

lemma copy_realloc: "\<exists>s'. realloc_extent (copy_kernel (\<lambda>_ _. [])) copy_fs live_extent [live_located] (sample_sys copy_start) = (Inr (), s')"
proof -
  let ?s = "\<lambda>w. (sample_sys copy_start)\<lparr>world := w\<rparr>"
  obtain f w1 where s1: "stage (copy_kernel (\<lambda>_ _. [])) copy_fs (lc_path live_located) (replicate 16 7) (sample_sys copy_start) = (Inr f, ?s w1)"
    using copy_stage by blast
  obtain w2 where s2: "redirect_chunks (copy_kernel (\<lambda>_ _. [])) copy_fs live_located f copy_range 24 (?s w1) = (Inr (), ?s w2)"
    using copy_chunks [of "\<lambda>_ _. []" f "?s w1"] by auto
  obtain w3 where s3: "finish_holder (copy_kernel (\<lambda>_ _. [])) copy_fs live_located \<lparr>hb_filesize = 24, hb_modified = 0\<rparr> (?s w2) = (Inr (), ?s w3)"
    using copy_finish [of "\<lambda>_ _. []" "?s w2"] by auto
  have "?s w3 = sample_sys w3" by (simp add: sample_sys_def)
  then have "serving (copy_kernel (\<lambda>_ _. [])) (\<lambda>_. []) (?s w3)" by (simp only: copy_serving)
  then obtain p where "inode_holds_extent (copy_kernel (\<lambda>_ _. [])) 5 256 0 31 65536 (?s w3) = (Inr False, (?s w3)\<lparr>searchargs_pool := p\<rparr>)"
    by (rule inode_holds_extent_exact [where root = 5 and inode = 256 and frm = 0 and till = 31 and a = 65536])
       (simp add: extent_refs_in_def range_items_def List.map_filter_def)
  then have "check_released (copy_kernel (\<lambda>_ _. [])) live_extent live_located (?s w3) = (Inr (), (?s w3)\<lparr>searchargs_pool := p\<rparr>)"
    by (simp add: check_released_def first_offset_def last_offset_def ref_end_def live_located_def bindE_def map_err_def matchE_def ret_def)
  moreover have "redirect_all (copy_kernel (\<lambda>_ _. [])) copy_fs [(live_located, \<lparr>hb_filesize = 24, hb_modified = 0\<rparr>)] copy_range (sample_sys copy_start)
      = (Inr (), ?s w2)"
    using s1 s2 by (simp add: redirect_all_def bindE_Inr)
  ultimately show ?thesis
    using s3 by (simp add: realloc_extent_def bindE_Inr copy_read copy_before)
qed


end
