(* ===== verification/Modified.thy ===== *)
theory Modified
  imports Rewrite
begin

text \<open>
  Other writers (src/run.rs): what the size and modification time a file has before anything moves and
  after, \<open>HolderBefore\<close> and \<open>finish_holder\<close>, say of what happened to it in between. Here files need
  not hold still: any call may come with changes made by other processes.
\<close>

section \<open>Versions of a file\<close>

text \<open>\<open>ver w k\<close> counts the changes made to file \<open>k\<close> so far. Calls of the program may let it go up,
  by what others do meanwhile, and never down. Metadata are those of a version the file had during the
  call, and a version is known by its size and modification time.\<close>

definition versioned ::
  "('w, 'f) kernel \<Rightarrow> ('f \<Rightarrow> bool) \<Rightarrow> ('f \<Rightarrow> u64 \<times> u64) \<Rightarrow> (u64 \<times> u64) set \<Rightarrow> ('w \<Rightarrow> u64 \<times> u64 \<Rightarrow> nat) \<Rightarrow>
     (u64 \<times> u64 \<Rightarrow> nat \<Rightarrow> u64 \<times> int) \<Rightarrow> bool"
where
  "versioned K temp ident D ver stat \<longleftrightarrow>
     identifies K ident \<and> (\<forall>k v. temps_keep K temp (\<lambda>w. v \<le> ver w k)) \<and> (\<forall>k. inj (stat k)) \<and>
     (\<forall>w f meta w' t. ident f \<in> D \<longrightarrow> k_metadata K f w = (Inr meta, w') \<longrightarrow> md_modified meta = Inr t \<longrightarrow>
        (\<exists>v. ver w (ident f) \<le> v \<and> v \<le> ver w' (ident f) \<and> stat (ident f) v = (md_len meta, t)))"

lemma versioned_facts:
  assumes "versioned K temp ident D ver stat"
  shows "identifies K ident" and "temps_keep K temp (\<lambda>w. v \<le> ver w k)" and "reads_keep K (\<lambda>w. v \<le> ver w k)"
    and "inj (stat k)"
proof -
  show temps: "temps_keep K temp (\<lambda>w. v \<le> ver w k)" using assms unfolding versioned_def by blast
  show "reads_keep K (\<lambda>w. v \<le> ver w k)" by (rule temps_reads [OF temps])
qed (use assms in \<open>simp_all add: versioned_def del: split_paired_All\<close>)

text \<open>The version a holder was seen in.\<close>

definition seen :: "(u64 \<times> u64 \<Rightarrow> nat \<Rightarrow> u64 \<times> int) \<Rightarrow> located \<Rightarrow> holder_before \<Rightarrow> nat \<Rightarrow> bool" where
  "seen stat h b v \<longleftrightarrow> stat (file_of_located h) v = (hb_filesize b, hb_modified b)"

lemma seen_metadata:
  assumes "versioned K temp ident D ver stat" and "Located_open K fs h t = (Inr f, t')" and "file_of_located h \<in> D"
    and "sys_call (k_metadata K f) u = (Inr meta, u')"
    and "md_modified meta = Inr (hb_modified b)" and "md_len meta = hb_filesize b"
  shows "\<exists>v. seen stat h b v \<and> ver (world u) (file_of_located h) \<le> v \<and> v \<le> ver (world u') (file_of_located h)"
proof -
  have f: "ident f = file_of_located h" by (rule Located_open_ident [OF versioned_facts(1) [OF assms(1)] assms(2)])
  from assms(4) have "k_metadata K f (world u) = (Inr meta, world u')" by (auto simp: sys_call_Inr)
  with assms(1,3,5,6) f show ?thesis unfolding versioned_def seen_def by metis
qed

lemma HolderBefore_seen:
  assumes "versioned K temp ident D ver stat" and "file_of_located h \<in> D"
    and "HolderBefore_read K fs h s = (Inr b, s')"
  shows "\<exists>v. seen stat h b v \<and> v \<le> ver (world s') (file_of_located h)"
proof -
  from assms(3) obtain f t meta where "Located_open K fs h s = (Inr f, t)"
    "sys_call (k_metadata K f) t = (Inr meta, s')" "md_modified meta = Inr (hb_modified b)" "md_len meta = hb_filesize b"
    by (auto simp: HolderBefore_read_def bindE_Inr)
  from seen_metadata [OF assms(1) this(1) assms(2) this(2-)] show ?thesis by blast
qed

lemma finish_seen:
  assumes "versioned K temp ident D ver stat" and "file_of_located h \<in> D"
    and "finish_holder K fs h b s = (Inr (), s')"
  shows "\<exists>v. seen stat h b v \<and> ver (world s) (file_of_located h) \<le> v"
proof -
  let ?k = "file_of_located h"
  note temps = versioned_facts(2) [OF assms(1)] and reads = versioned_facts(3) [OF assms(1)]
  from assms(3) obtain f t t1 meta where f: "Located_open K fs h s = (Inr f, t)"
    and tail: "t1 = t \<or> (\<exists>at n. redirect_tail K fs (lc_path h) f at n t = (Inr (), t1))"
    and meta: "sys_call (k_metadata K f) t1 = (Inr meta, s')" "md_modified meta = Inr (hb_modified b)" "md_len meta = hb_filesize b"
    by (auto simp: finish_holder_def bindE_Inr Let_def split: if_splits) blast
  have "ver (world s) ?k \<le> ver (world t) ?k" by (rule preserves_end [OF reads_Located_open [OF reads] _ f]) simp
  also have "ver (world t) ?k \<le> ver (world t1) ?k"
    using tail
  proof (elim disjE exE)
    fix at n assume "redirect_tail K fs (lc_path h) f at n t = (Inr (), t1)"
    then show ?thesis by (rule preserves_end [OF temps_redirect_tail [OF temps], rotated]) simp
  qed simp
  finally have before: "ver (world s) ?k \<le> ver (world t1) ?k" .
  obtain v where v: "seen stat h b v" "ver (world t1) ?k \<le> v"
    using seen_metadata [OF assms(1) f assms(2) meta] by (elim exE conjE)
  from order_trans [OF before v(2)] v(1) show ?thesis by (intro exI conjI)
qed

text \<open>All holders, one after the other.\<close>

lemma before_seen:
  assumes "versioned K temp ident D ver stat"
  shows "mapE (HolderBefore_read K fs) hs s = (Inr bs, s') \<Longrightarrow> (h, b) \<in> set (zip hs bs) \<Longrightarrow>
    file_of_located h \<in> D \<Longrightarrow> \<exists>v. seen stat h b v \<and> v \<le> ver (world s') (file_of_located h)"
proof (induction hs arbitrary: s bs)
  case (Cons g hs)
  then obtain c t cs where c: "HolderBefore_read K fs g s = (Inr c, t)" and cs: "mapE (HolderBefore_read K fs) hs t = (Inr cs, s')"
    and bs: "bs = c # cs" by (auto simp: bindE_Inr)
  show ?case
  proof (cases "(h, b) = (g, c)")
    case True
    then obtain v where "seen stat h b v" "v \<le> ver (world t) (file_of_located h)"
      using HolderBefore_seen [OF assms Cons.prems(3)] c by blast
    moreover from this(2) have "v \<le> ver (world s') (file_of_located h)"
      by (rule preserves_end [OF preserves_mapE [OF reads_HolderBefore_read [OF versioned_facts(3) [OF assms]]] _ cs])
    ultimately show ?thesis by blast
  next
    case False
    then show ?thesis using Cons.IH [OF cs _ Cons.prems(3)] Cons.prems(2) bs by auto
  qed
qed simp

lemma finish_all_seen:
  assumes "versioned K temp ident D ver stat"
  shows "foldE (\<lambda>hb _. finish_holder K fs (fst hb) (snd hb)) hbs () s = (Inr (), s') \<Longrightarrow> (h, b) \<in> set hbs \<Longrightarrow>
    file_of_located h \<in> D \<Longrightarrow> \<exists>v. seen stat h b v \<and> ver (world s) (file_of_located h) \<le> v"
proof (induction hbs arbitrary: s)
  case (Cons x hbs)
  then obtain t where x: "finish_holder K fs (fst x) (snd x) s = (Inr (), t)"
    and rest: "foldE (\<lambda>hb _. finish_holder K fs (fst hb) (snd hb)) hbs () t = (Inr (), s')" by (auto simp: bindE_Inr)
  show ?case
  proof (cases "(h, b) = x")
    case True
    then show ?thesis using finish_seen [OF assms Cons.prems(3)] x by auto
  next
    case False
    then obtain v where v: "seen stat h b v" "ver (world t) (file_of_located h) \<le> v"
      using Cons.IH [OF rest _ Cons.prems(3)] Cons.prems(2) by auto
    have "ver (world s) (file_of_located h) \<le> ver (world t) (file_of_located h)"
      by (rule preserves_end [OF temps_finish_holder [OF versioned_facts(2) [OF assms]] _ x]) simp
    then show ?thesis using v order_trans by blast
  qed
qed simp


text \<open>In the small file system the file is never changed by anything else, and the temporaries change
  as they are made.\<close>

definition copy_version :: "copies \<Rightarrow> u64 \<times> u64 \<Rightarrow> nat" where
  "copy_version w k = (if k = (5, 256) then 0 else snd (snd w))"

lemma copy_versioned:
  "versioned (copy_kernel T) (\<lambda>_. True) (\<lambda>f. (5, if f = 0 then 256 else 257)) {(5, 256)} copy_version (\<lambda>_ v. (24, int v))"
proof -
  have "temps_keep (copy_kernel T) (\<lambda>_. True) (\<lambda>w. v \<le> copy_version w k)" for v k
    unfolding temps_keep_def
    by (intro conjI copy_reads) (auto simp: copy_kernel_simps copy_version_def split: prod.splits if_splits)
  then show ?thesis
    unfolding versioned_def
    by (intro conjI copy_identifies) (auto simp: copy_kernel_simps copy_version_def inj_def)
qed


end
