(* ===== verification/Smooth.thy ===== *)
theory Smooth
  imports Live
begin

text \<open>
  Rules for showing that a computation raises no error, next to those of the prelude for what one
  returns (\<open>safe\<close>): each call, loop and sequence of the model's monad, how the two join to a
  computation that succeeds, and the same rules for that (\<open>gives\<close>).
\<close>

section \<open>Computations that raise nothing\<close>

text \<open>A computation that keeps \<open>I\<close>, gives a value with \<open>Q\<close>, and does not end with an error. That it
  does not panic or run on is for \<open>safe\<close> to say.\<close>

definition smooth :: "('s \<Rightarrow> bool) \<Rightarrow> ('a \<Rightarrow> bool) \<Rightarrow> ('s, 'e, 'a) comp \<Rightarrow> bool" where
  "smooth I Q m \<longleftrightarrow> (\<forall>s. I s \<longrightarrow> wp m (\<lambda>x s. I s \<and> Q x) (\<lambda>q _. \<forall>e. q \<noteq> Raise e) s)"

named_theorems smooth_intros

lemma smooth_wp: "smooth I Q m \<Longrightarrow> I s \<Longrightarrow> wp m (\<lambda>x s. I s \<and> Q x) (\<lambda>q _. \<forall>e. q \<noteq> Raise e) s"
  by (simp add: smooth_def)

lemma smooth_weaken: "smooth I P m \<Longrightarrow> (\<And>x. P x \<Longrightarrow> Q x) \<Longrightarrow> smooth I Q m"
  by (auto simp: smooth_def intro: wp_mono)

lemma smooth_ret [smooth_intros]: "Q x \<Longrightarrow> smooth I Q (ret x)"
  by (simp add: smooth_def wp_simps)

lemma smooth_stop: "\<forall>e. q \<noteq> Raise e \<Longrightarrow> smooth I Q (stop q)"
  by (simp add: smooth_def wp_simps)

lemma smooth_unwrap [smooth_intros]: "(\<And>y. x = Some y \<Longrightarrow> Q y) \<Longrightarrow> smooth I Q (unwrap x)"
  by (cases x) (simp_all add: smooth_def wp_simps)

lemma smooth_bindE [smooth_intros]:
  assumes "smooth I P m" and "\<And>x. P x \<Longrightarrow> smooth I Q (f x)"
  shows "smooth I Q (bindE m f)"
  unfolding smooth_def wp_bindE
  by (intro allI impI) (rule wp_mono [OF smooth_wp [OF assms(1)]], simp_all add: smooth_wp [OF assms(2)])

lemma smooth_map_err [smooth_intros]: "smooth I Q m \<Longrightarrow> smooth I Q (map_err f m)"
  unfolding smooth_def wp_map_err by (auto elim!: wp_mono split: stop.splits)

lemma smooth_if [smooth_intros]:
  "(b \<Longrightarrow> smooth I Q m) \<Longrightarrow> (\<not> b \<Longrightarrow> smooth I Q n) \<Longrightarrow> smooth I Q (if b then m else n)"
  by simp

lemma smooth_foldE:
  assumes "\<And>x b. x \<in> set xs \<Longrightarrow> smooth I (\<lambda>_. True) (f x b)"
  shows "smooth I (\<lambda>_. True) (foldE f xs b)"
  using assms by (induction xs arbitrary: b) (auto intro!: smooth_intros)

lemma smooth_mapE:
  assumes "\<And>x. x \<in> set xs \<Longrightarrow> smooth I (\<lambda>y. y = g x) (f x)"
  shows "smooth I (\<lambda>ys. ys = map g xs) (mapE f xs)"
  using assms by (induction xs) (auto intro!: smooth_intros)

lemma smooth_sys_call:
  assumes "\<And>w. J w \<Longrightarrow> J (snd (f w))" and "\<And>w. J w \<Longrightarrow> \<exists>x. fst (f w) = Inr x \<and> Q x"
  shows "smooth (steady_in J) Q (sys_call f)"
  unfolding smooth_def
proof (intro allI impI)
  fix s :: "'a sys" assume "J (world s)"
  with assms [of "world s"] show "wp (sys_call f) (\<lambda>x s. J (world s) \<and> Q x) (\<lambda>q _. \<forall>e. q \<noteq> Raise e) s"
    by (cases "f (world s)") (auto simp: wp_simps)
qed

text \<open>With what \<open>safe\<close> says of it, its value is known, and it returns one.\<close>

lemma smooth_safe:
  assumes "safe I Q m" and "smooth I R m"
  shows "smooth I (\<lambda>x. Q x \<and> R x) m"
  unfolding smooth_def
proof (intro allI impI)
  fix s assume "I s"
  from wp_conj [OF safe_wp [OF assms(1) this] smooth_wp [OF assms(2) this]]
  show "wp m (\<lambda>x s. I s \<and> Q x \<and> R x) (\<lambda>q _. \<forall>e. q \<noteq> Raise e) s" by (rule wp_mono) auto
qed

lemma smooth_value: "safe I Q m \<Longrightarrow> smooth I R m \<Longrightarrow> smooth I Q m"
  by (rule smooth_weaken [OF smooth_safe]) auto

lemma smooth_keeps:
  assumes "smooth A Q m" and "preserves B m"
  shows "smooth (\<lambda>s. A s \<and> B s) Q m"
  unfolding smooth_def
proof (intro allI impI)
  fix s assume "A s \<and> B s"
  from wp_conj [OF smooth_wp [OF assms(1) conjunct1 [OF this]] preserves_wp [OF assms(2) conjunct2 [OF this]]]
  show "wp m (\<lambda>x s. (A s \<and> B s) \<and> Q x) (\<lambda>q _. \<forall>e. q \<noteq> Raise e) s" by (rule wp_mono) auto
qed

lemma wp_smooth:
  assumes "wp m Q (\<lambda>q s. F q s \<and> (\<exists>e. q = Raise e)) s" and "smooth I R m" and "I s"
  shows "wp m Q (\<lambda>_ _. False) s"
  by (rule wp_mono [OF wp_conj [OF assms(1) smooth_wp [OF assms(2,3)]]]) auto

section \<open>Computations that succeed\<close>

text \<open>From any state with \<open>I\<close> the computation returns a value with \<open>Q\<close>, and keeps \<open>I\<close>.\<close>

definition gives :: "('s \<Rightarrow> bool) \<Rightarrow> ('a \<Rightarrow> bool) \<Rightarrow> ('s, 'e, 'a) comp \<Rightarrow> bool" where
  "gives I Q m \<longleftrightarrow> (\<forall>s. I s \<longrightarrow> wp m (\<lambda>x s. I s \<and> Q x) (\<lambda>_ _. False) s)"

named_theorems gives_intros

lemma gives_wp: "gives I Q m \<Longrightarrow> I s \<Longrightarrow> wp m (\<lambda>x s. I s \<and> Q x) (\<lambda>_ _. False) s"
  by (simp add: gives_def)

lemma gives_end: "gives I Q m \<Longrightarrow> I s \<Longrightarrow> \<exists>x s'. m s = (Inr x, s') \<and> I s' \<and> Q x"
  by (drule (1) gives_wp) (auto simp: wp_def split: prod.splits sum.splits)

lemma gives_weaken: "gives I P m \<Longrightarrow> (\<And>x. P x \<Longrightarrow> Q x) \<Longrightarrow> gives I Q m"
  by (auto simp: gives_def intro: wp_mono)

lemma gives_ret [gives_intros]: "Q x \<Longrightarrow> gives I Q (ret x)"
  by (simp add: gives_def wp_simps)

lemma gives_getS: "gives I I getS"
  by (simp add: gives_def wp_simps)

lemma gives_modifyS: "(\<And>s. I s \<Longrightarrow> I (f s)) \<Longrightarrow> gives I (\<lambda>_. True) (modifyS f)"
  by (simp add: gives_def wp_simps)

lemma gives_unwrap: "x = Some y \<Longrightarrow> Q y \<Longrightarrow> gives I Q (unwrap x)"
  by (simp add: gives_def wp_simps)

lemma gives_bindE:
  assumes "gives I P m" and "\<And>x. P x \<Longrightarrow> gives I Q (f x)"
  shows "gives I Q (bindE m f)"
  unfolding gives_def wp_bindE
  by (intro allI impI) (rule wp_mono [OF gives_wp [OF assms(1)]], simp_all add: gives_wp [OF assms(2)])

lemma gives_matchE:
  assumes "gives I P m" and "\<And>x. P x \<Longrightarrow> gives I Q (ok x)"
  shows "gives I Q (matchE m ok err)"
  unfolding gives_def wp_matchE
  by (intro allI impI) (rule wp_mono [OF gives_wp [OF assms(1)]], simp_all add: gives_wp [OF assms(2)])

lemma gives_map_err [gives_intros]: "gives I Q m \<Longrightarrow> gives I Q (map_err f m)"
  unfolding gives_def wp_map_err by (auto elim!: wp_mono)

lemma gives_sys_call:
  assumes "preserves I (sys_call f)" and "\<And>s. I s \<Longrightarrow> \<exists>x. fst (f (world s)) = Inr x \<and> Q x"
  shows "gives I Q (sys_call f)"
  unfolding gives_def
proof (intro allI impI)
  fix s assume I: "I s"
  from assms(2) [OF this] obtain x where x: "fst (f (world s)) = Inr x" "Q x" by blast
  from preservesD [OF assms(1) I] x show "wp (sys_call f) (\<lambda>x s. I s \<and> Q x) (\<lambda>_ _. False) s"
    by (cases "f (world s)") (simp add: wp_simps sys_call_def)
qed

end
