(* ===== verification/Succeeds.thy ===== *)
theory Succeeds
  imports Rewrite Smooth
begin

text \<open>
  That a rewrite gets done (src/run.rs): on a kernel that refuses nothing, \<open>realloc_extent\<close> returns
  success, with every byte of every reference below the end of its file moved. It is the other half of
  \<open>Rewrite\<close>, which says what success means.
\<close>

section \<open>A kernel that refuses nothing\<close>

text \<open>The paths of the holders lead to them; metadata, reads inside a file and the inode's tree are
  had; a temporary can be made, is copied on write, and takes what is written to it. A dedupe of bytes
  that are the same makes progress, and one of less than a sector is done whole.\<close>

abbreviation below :: "resolve_flag set" where
  "below \<equiv> {RESOLVE_BENEATH, RESOLVE_NO_SYMLINKS, RESOLVE_NO_XDEV}"

text \<open>The bytes of a file in its last, partial sector that a reference to the extent has.\<close>

definition tail_cells :: "u64 \<Rightarrow> (u64 \<times> u64 \<Rightarrow> u64) \<Rightarrow> located \<Rightarrow> ((u64 \<times> u64) \<times> nat) set" where
  "tail_cells ss sz h = {(file_of_located h, b) | b. b < unat (sz (file_of_located h)) \<and>
      unat (sz (file_of_located h)) < (b div unat ss + 1) * unat ss \<and>
      (\<exists>r \<in> set (h_refs (lc_holder h)). unat (r_file_offset r) \<le> b \<and> b < unat (r_file_offset r) + unat (r_num_bytes r))}"

lemma tail_cells_within:
  assumes t: "unat t = unat (sz (file_of_located h)) div unat ss * unat ss" and ss: "ss \<noteq> 0"
    and refs: "\<forall>r \<in> set (h_refs (lc_holder h)). placed r \<and> aligned ss (r_file_offset r)"
  shows "tail_cells ss sz h \<subseteq>
    (if sz (file_of_located h) mod ss \<noteq> 0 \<and> list_ex (\<lambda>r. r_file_offset r \<le> t \<and> t < ref_end r) (h_refs (lc_holder h))
     then {(file_of_located h, b) | b. unat t \<le> b \<and> b < unat (sz (file_of_located h))} else {})"
proof
  fix c assume "c \<in> tail_cells ss sz h"
  then obtain b r where c: "c = (file_of_located h, b)" and b: "b < unat (sz (file_of_located h))"
    "unat (sz (file_of_located h)) < (b div unat ss + 1) * unat ss"
    and r: "r \<in> set (h_refs (lc_holder h))" "unat (r_file_offset r) \<le> b" "b < unat (r_file_offset r) + unat (r_num_bytes r)"
    by (auto simp: tail_cells_def)
  have ss': "0 < unat ss" using ss by (simp add: unat_gt_0)
  have sector: "b div unat ss = unat (sz (file_of_located h)) div unat ss"
  proof (rule antisym)
    show "b div unat ss \<le> unat (sz (file_of_located h)) div unat ss" using b(1) by (simp add: div_le_mono)
    show "unat (sz (file_of_located h)) div unat ss \<le> b div unat ss" using less_mult_imp_div_less [OF b(2)] by simp
  qed
  have "unat t \<le> b" unfolding t sector [symmetric] by simp
  moreover have "unat (r_file_offset r) \<le> unat t"
  proof -
    obtain k where k: "unat (r_file_offset r) = unat ss * k" using refs r(1) by (auto simp: aligned_def)
    then have "k \<le> b div unat ss" using r(2) ss' by (simp add: less_eq_div_iff_mult_less_eq mult.commute)
    then show ?thesis unfolding t k sector [symmetric] by (simp add: mult.commute)
  qed
  moreover have "t < ref_end r" using r refs \<open>unat t \<le> b\<close> by (simp add: word_less_nat_alt ref_reach)
  moreover have "sz (file_of_located h) mod ss \<noteq> 0"
  proof
    assume "sz (file_of_located h) mod ss = 0"
    then have "unat ss dvd unat (sz (file_of_located h))" by (simp add: dvd_eq_mod_eq_0 unat_mod [symmetric])
    from sector_below [OF ss' b(1) this] b(2) show False by simp
  qed
  ultimately show "c \<in> (if sz (file_of_located h) mod ss \<noteq> 0 \<and> list_ex (\<lambda>r. r_file_offset r \<le> t \<and> t < ref_end r) (h_refs (lc_holder h))
     then {(file_of_located h, b) | b. unat t \<le> b \<and> b < unat (sz (file_of_located h))} else {})"
    using b(1) r(1) by (auto simp: c list_ex_iff word_le_nat_alt)
qed

locale obliging =
  fixes K :: "('w, 'f) kernel" and fs :: "'f filesystem" and hs :: "located list"
    and temp :: "'f \<Rightarrow> bool" and J :: "'w \<Rightarrow> bool" and ident :: "'f \<Rightarrow> u64 \<times> u64" and D :: "(u64 \<times> u64) set"
    and content :: "u64 \<times> u64 \<Rightarrow> nat \<Rightarrow> u8" and sz :: "u64 \<times> u64 \<Rightarrow> u64" and mtime :: "u64 \<times> u64 \<Rightarrow> int"
    and points :: "'w \<Rightarrow> (u64 \<times> u64) \<times> nat \<Rightarrow> ('f \<times> nat) option" and temps :: "'w \<Rightarrow> 'f \<times> nat \<Rightarrow> u8"
  assumes staging: "staging K temp J ident D content sz points temps"
    and sector: "fs_sectorsize fs \<noteq> 0" "unat (fs_sectorsize fs) < 2 ^ 63"
    and known: "h \<in> set hs \<Longrightarrow> file_of_located h \<in> D"
    and named: "h \<in> set hs \<Longrightarrow> CHR 0x00 \<notin> set (lc_name h)"
    and leads: "h \<in> set hs \<Longrightarrow> J w \<Longrightarrow> \<exists>f. fst (k_openat2 K (fs_file fs) (if lc_name h = [] then ''.'' else lc_name h)
        {O_CLOEXEC, O_RDONLY, O_NOATIME} below w) = Inr f \<and> ident f = file_of_located h"
    and has_metadata: "J w \<Longrightarrow> ident f \<in> D \<Longrightarrow>
        \<exists>meta. fst (k_metadata K f w) = Inr meta \<and> md_modified meta = Inr (mtime (ident f))"
    and has_root: "J w \<Longrightarrow> ident f \<in> D \<Longrightarrow> \<exists>x. fst (k_ino_lookup K f 0 (FIRST_FREE_OBJECTID K) w) = Inr x"
    and reads: "J w \<Longrightarrow> ident f \<in> D \<Longrightarrow> unat at + n \<le> unat (sz (ident f)) \<Longrightarrow>
        \<exists>bytes. fst (k_read_exact_at K f at n w) = Inr bytes"
    and makes: "J w \<Longrightarrow> \<exists>f. fst (k_openat2 K (fs_file fs) ''.'' {O_CLOEXEC, O_RDWR, O_TMPFILE} below w) = Inr f"
    and cows: "J w \<Longrightarrow> temp f \<Longrightarrow> \<exists>flags. fst (k_get_flags K f w) = Inr flags \<and> flags AND FS_NOCOW_FL K = 0"
    and writes: "J w \<Longrightarrow> temp f \<Longrightarrow> fst (k_write_all_at K f bytes at w) = Inr ()"
    and positive: "\<not> sint (DEDUPE_RANGE_SAME K) < 0"
    and dedupes: "J w \<Longrightarrow> temp f \<Longrightarrow> ident dst \<in> D \<Longrightarrow> 0 < len \<Longrightarrow> unat at + unat len \<le> unat (sz (ident dst)) \<Longrightarrow>
        \<forall>i < unat len. temps w (f, unat so + i) = content (ident dst) (unat at + i) \<Longrightarrow>
        \<exists>n. fst (k_dedupe K f so len dst at w) = Inr (DEDUPE_RANGE_SAME K, n) \<and> 0 < n \<and>
          (len < fs_sectorsize fs \<longrightarrow> n = len)"
begin

lemmas view = staging_facts(1) [OF staging]
lemmas known_ident = staging_facts(5) [OF staging]
lemmas read_only = staging_facts(4) [OF staging]

lemma smooth_metadata:
  assumes "ident f \<in> D"
  shows "smooth (steady_in J) (\<lambda>meta. md_ino meta = snd (ident f) \<and> md_len meta = sz (ident f) \<and>
      md_modified meta = Inr (mtime (ident f))) (sys_call (k_metadata K f))"
proof -
  have "smooth (steady_in J) (\<lambda>meta. md_modified meta = Inr (mtime (ident f))) (sys_call (k_metadata K f))"
    by (rule smooth_sys_call) (use read_only has_metadata assms in \<open>auto simp: reads_keep_def\<close>)
  from smooth_safe [OF safe_metadata_ino [OF known_ident read_only] smooth_safe [OF safe_metadata_len [OF view assms] this]]
  show ?thesis .
qed

lemma smooth_own_root_id:
  assumes "ident f \<in> D"
  shows "smooth (steady_in J) (\<lambda>root. root = fst (ident f)) (own_root_id K f)"
proof -
  have "smooth (steady_in J) (\<lambda>_. True) (sys_call (k_ino_lookup K f 0 (FIRST_FREE_OBJECTID K)))"
    by (rule smooth_sys_call) (use read_only has_root assms in \<open>auto simp: reads_keep_def\<close>)
  then have "smooth (steady_in J) (\<lambda>_. True) (own_root_id K f)"
    unfolding own_root_id_def ino_lookup_args_def by (rule smooth_bindE) (auto intro!: smooth_ret split: prod.splits)
  then show ?thesis by (rule smooth_value [OF safe_own_root_id [OF known_ident read_only]])
qed

lemma smooth_open:
  assumes h: "h \<in> set hs"
  shows "smooth (steady_in J) (\<lambda>f. ident f = file_of_located h) (Located_open K fs h)"
proof -
  let ?p = "if lc_name h = [] then ''.'' else lc_name h"
  have "smooth (steady_in J) (\<lambda>f. ident f = file_of_located h)
      (sys_call (k_openat2 K (fs_file fs) ?p {O_CLOEXEC, O_RDONLY, O_NOATIME} below))"
    by (rule smooth_sys_call) (use read_only leads h in \<open>auto simp: reads_keep_def\<close>)
  moreover have "CHR 0x00 \<notin> set ?p" using named [OF h] by simp
  ultimately have "smooth (steady_in J) (\<lambda>f. ident f = file_of_located h)
      (open_beneath K (fs_file fs) (lc_name h) {O_RDONLY, O_NOATIME})"
    unfolding open_beneath_def Let_def by (simp only: if_False)
  moreover have "smooth (steady_in J) (\<lambda>f. ident f = file_of_located h) (bindE (sys_call (k_metadata K f)) (\<lambda>meta.
      if md_ino meta \<noteq> h_inode (lc_holder h) then raise (other_error ''no longer the file the extent tree names'')
      else bindE (own_root_id K f) (\<lambda>own.
           if own \<noteq> h_root (lc_holder h) then raise (other_error ''no longer the file the extent tree names'')
           else ret f)))" if f: "ident f = file_of_located h" for f
  proof -
    have D: "ident f \<in> D" using f known [OF h] by simp
    have "smooth (steady_in J) (\<lambda>f. ident f = file_of_located h) (bindE (own_root_id K f) (\<lambda>own.
           if own \<noteq> h_root (lc_holder h) then raise (other_error ''no longer the file the extent tree names'')
           else ret f))"
      by (rule smooth_bindE [OF smooth_own_root_id [OF D]]) (simp add: f smooth_ret)
    then show ?thesis
      by (intro smooth_bindE [OF smooth_metadata [OF D]]) (simp add: f)
  qed
  ultimately show ?thesis
    unfolding Located_open_def open_inode_def by (intro smooth_map_err) (rule smooth_bindE)
qed

text \<open>Reading what is live.\<close>

lemma smooth_read_into:
  assumes "ident f \<in> D" and "unat at + (hi - lo) \<le> unat (sz (ident f))"
  shows "smooth (steady_in J) (\<lambda>_. True) (read_into K f at lo hi buf)"
proof -
  have "smooth (steady_in J) (\<lambda>_. True) (sys_call (k_read_exact_at K f at (hi - lo)))"
    by (rule smooth_sys_call) (use read_only reads assms in \<open>auto simp: reads_keep_def\<close>)
  then show ?thesis
    unfolding read_into_def by (auto intro!: smooth_if smooth_stop smooth_bindE [where P = "\<lambda>_. True"] smooth_ret)
qed

lemma reach_within:
  fixes a e f l n o' t :: nat
  assumes "e \<le> a" and "\<not> e + min n (l - o') \<le> a" and "t = min f (e + min n (l - o'))"
  shows "o' + (a - e) + (t - a) \<le> l"
  using assms by linarith

lemma smooth_fill_loop:
  assumes "\<forall>rh \<in> set refs. placed (fst rh) \<and> snd rh \<in> set hs" and "start \<le> at"
  shows "smooth (steady_in J) (\<lambda>_. True) (fill_loop K fs start fin refs at buf)"
  using assms
proof (induction refs arbitrary: at buf)
  case Nil
  then show ?case by (simp add: smooth_ret)
next
  case (Cons rh refs)
  obtain r h where rh: "rh = (r, h)" by (cases rh)
  have placed: "placed r" and h: "h \<in> set hs" using Cons.prems(1) rh by simp_all
  have again: "smooth (steady_in J) (\<lambda>_. True) (fill_loop K fs start fin refs at buf)"
    if "start \<le> at" for at buf using Cons.prems that by (intro Cons.IH) auto
  show ?case
  proof (cases "fin \<le> at \<or> at < r_extent_offset r \<or> r_extent_offset r + r_num_bytes r \<le> at")
    case True
    then show ?thesis using again Cons.prems(2) by (auto simp: rh smooth_ret)
  next
    case False
    then have eo: "r_extent_offset r \<le> at" "at < r_extent_offset r + r_num_bytes r" and fin: "at < fin"
      by (simp_all add: not_less not_le)
    define fo where "fo = r_file_offset r + (at - r_extent_offset r)"
    define till where "till = min (min fin (r_extent_offset r + r_num_bytes r))
        (at + saturating_sub (sz (file_of_located h)) fo)"
    note reach = till_of_ref [where h = h and sz = sz, OF placed file_view_facts(3) [OF view] eo fin, folded fo_def, folded till_def]
    have rest: "smooth (steady_in J) (\<lambda>_. True)
        (bindE (map_err (Failure_new (lc_path h))
                 (read_into K f fo (unat (at - start)) (unat (till - start)) buf)) (fill_loop K fs start fin refs till))"
      if f: "ident f = file_of_located h" and on: "\<not> till \<le> at" for f
    proof -
      have "unat (at - start) = unat at - unat start" "unat (till - start) = unat till - unat start"
        "unat start \<le> unat at"
        using on Cons.prems(2) by (auto intro!: unat_sub_le simp: word_le_nat_alt)
      then have sub: "unat (till - start) - unat (at - start) = unat till - unat at" by simp
      have "unat fo + (unat till - unat at) \<le> unat (sz (file_of_located h))"
        unfolding reach(1)
        by (rule reach_within [where n = "unat (r_num_bytes r)" and f = "unat fin"])
           (use reach(2) reach(3) [OF on] on eo(1) in \<open>simp_all add: avail_end_def word_le_nat_alt\<close>)
      then have "unat fo + (unat (till - start) - unat (at - start)) \<le> unat (sz (ident f))"
        by (simp only: sub f)
      then have "smooth (steady_in J) (\<lambda>_. True) (read_into K f fo (unat (at - start)) (unat (till - start)) buf)"
        using f known [OF h] by (intro smooth_read_into) simp_all
      moreover have "start \<le> till" using on Cons.prems(2) by simp
      ultimately show ?thesis by (intro smooth_bindE [OF smooth_map_err] again)
    qed
    have "smooth (steady_in J) (\<lambda>_. True) (bindE (Located_open K fs h) (\<lambda>file.
        bindE (map_err (Failure_new (lc_path h)) (sys_call (k_metadata K file))) (\<lambda>meta.
        let till = min (min fin (r_extent_offset r + r_num_bytes r)) (at + saturating_sub (md_len meta) fo)
        in if till \<le> at then fill_loop K fs start fin refs at buf
           else bindE (map_err (Failure_new (lc_path h))
                        (read_into K file fo (unat (at - start)) (unat (till - start)) buf))
                  (fill_loop K fs start fin refs till))))"
    proof (rule smooth_bindE [OF smooth_open [OF h]])
      fix f assume f: "ident f = file_of_located h"
      then have D: "ident f \<in> D" using known [OF h] by simp
      show "smooth (steady_in J) (\<lambda>_. True) (bindE (map_err (Failure_new (lc_path h)) (sys_call (k_metadata K f))) (\<lambda>meta.
        let till = min (min fin (r_extent_offset r + r_num_bytes r)) (at + saturating_sub (md_len meta) fo)
        in if till \<le> at then fill_loop K fs start fin refs at buf
           else bindE (map_err (Failure_new (lc_path h))
                        (read_into K f fo (unat (at - start)) (unat (till - start)) buf))
                  (fill_loop K fs start fin refs till)))"
        by (rule smooth_bindE [OF smooth_map_err [OF smooth_metadata [OF D]]])
           (use rest [OF f] again Cons.prems(2) f in \<open>auto simp: till_def Let_def\<close>)
    qed
    with False show ?thesis unfolding fo_def by (simp add: rh Let_def)
  qed
qed

lemma smooth_read_liveranges:
  assumes "\<forall>rh \<in> set (sorted_refs hs). placed (fst rh)"
  shows "smooth (steady_in J) (\<lambda>_. True) (read_liveranges K fs e hs)"
proof -
  have refs: "\<forall>rh \<in> set (sorted_refs hs). placed (fst rh) \<and> snd rh \<in> set hs"
    using assms by (auto simp: set_sorted_refs)
  have fill: "smooth (steady_in J) (\<lambda>_. True) (fill K fs (sorted_refs hs) start fin buf)" for start fin buf
    unfolding fill_def by (rule smooth_fill_loop [OF refs order_refl])
  have "smooth (steady_in J) (\<lambda>_. True) (stretch_loop K fs (sorted_refs hs) fin n start copies)" for fin n start copies
  proof (induction n arbitrary: start copies)
    case (Suc n)
    then show ?case
      by (auto intro!: smooth_ret smooth_bindE [OF fill] smooth_bindE [OF smooth_unwrap [where Q = "\<lambda>_. True"]] split: prod.splits)
  qed (simp add: smooth_stop)
  then show ?thesis
    unfolding read_liveranges_def Let_def by (intro smooth_foldE)
qed

text \<open>Before and after.\<close>

lemma smooth_before:
  assumes "h \<in> set hs"
  shows "smooth (steady_in J) (\<lambda>b. b = \<lparr>hb_filesize = sz (file_of_located h), hb_modified = mtime (file_of_located h)\<rparr>)
     (HolderBefore_read K fs h)"
  unfolding HolderBefore_read_def modified_time_def
  by (rule smooth_bindE [OF smooth_open [OF assms]], rule smooth_bindE [OF smooth_map_err [OF smooth_metadata]])
     (auto simp: known [OF assms] intro!: smooth_bindE [where P = "\<lambda>t. t = mtime (file_of_located h)"] smooth_ret)

text \<open>Staging.\<close>

lemma smooth_stage: "smooth (steady_in J) temp (stage K fs p bytes)"
proof -
  note keep = staging_facts(3) [OF staging]
  have "smooth (steady_in J) temp (sys_call (k_openat2 K (fs_file fs) ''.'' {O_CLOEXEC, O_RDWR, O_TMPFILE} below))"
  proof (rule smooth_sys_call)
    fix w assume w: "J w"
    with keep show "J (snd (k_openat2 K (fs_file fs) ''.'' {O_CLOEXEC, O_RDWR, O_TMPFILE} below w))"
      by (simp add: temps_keep_def)
    from makes [OF w] obtain f where f: "fst (k_openat2 K (fs_file fs) ''.'' {O_CLOEXEC, O_RDWR, O_TMPFILE} below w) = Inr f" ..
    moreover from this keep have "temp f" unfolding temps_keep_def by (metis insertCI)
    ultimately show "\<exists>f. fst (k_openat2 K (fs_file fs) ''.'' {O_CLOEXEC, O_RDWR, O_TMPFILE} below w) = Inr f \<and> temp f" by blast
  qed
  then have beneath: "smooth (steady_in J) temp (open_beneath K (fs_file fs) [] {O_RDWR, O_TMPFILE})"
    by (simp add: open_beneath_def Let_def)
  have flags: "smooth (steady_in J) (\<lambda>flags. flags AND FS_NOCOW_FL K = 0) (get_flags K f)" if "temp f" for f
    unfolding get_flags_def
    by (rule smooth_sys_call) (use read_only cows that in \<open>auto simp: reads_keep_def\<close>)
  have "smooth (steady_in J) temp (temp_file K fs)"
    unfolding temp_file_def
    by (rule smooth_bindE [OF beneath], rule smooth_bindE [OF flags]) (auto intro!: smooth_ret)
  moreover have "smooth (steady_in J) (\<lambda>_. True) (sys_call (k_write_all_at K f bytes (fs_sectorsize fs)))" if "temp f" for f
    by (rule smooth_sys_call) (use keep writes that in \<open>auto simp: temps_keep_def\<close>)
  ultimately show ?thesis
    unfolding stage_def by (auto intro!: smooth_intros)
qed

text \<open>Redirecting: every dedupe asks for bytes that are the same, so it makes progress.\<close>

abbreviation holding :: "('f \<times> nat \<Rightarrow> u8) \<Rightarrow> 'w sys \<Rightarrow> bool" where
  "holding m s \<equiv> J (world s) \<and> temps (world s) = m"

lemma smooth_dedupe:
  assumes "temp f" and "ident dst \<in> D" and "0 < len" and "unat at + unat len \<le> unat (sz (ident dst))"
    and "\<forall>i < unat len. m (f, unat so + i) = content (ident dst) (unat at + i)"
  shows "smooth (holding m) (\<lambda>n. n \<noteq> 0 \<and> n \<le> len \<and> (len < fs_sectorsize fs \<longrightarrow> n = len)) (dedupe K f so len dst at)"
proof -
  have "smooth (steady_in (\<lambda>w. J w \<and> temps w = m))
      (\<lambda>x. fst x = DEDUPE_RANGE_SAME K \<and> snd x \<noteq> 0 \<and> snd x \<le> len \<and> (len < fs_sectorsize fs \<longrightarrow> snd x = len))
      (sys_call (k_dedupe K f so len dst at))"
  proof (rule smooth_sys_call)
    fix w assume w: "J w \<and> temps w = m"
    with assms(1) staging_facts(3) [OF staging] show "J (snd (k_dedupe K f so len dst at w)) \<and> temps (snd (k_dedupe K f so len dst at w)) = m"
      by (simp add: temps_keep_def staging_laws(9) [OF staging])
    obtain n where n: "fst (k_dedupe K f so len dst at w) = Inr (DEDUPE_RANGE_SAME K, n)" "0 < n"
      "len < fs_sectorsize fs \<longrightarrow> n = len"
      using dedupes [OF _ assms(1-4), of w so] w assms(5) by blast
    then have "k_dedupe K f so len dst at w = (Inr (DEDUPE_RANGE_SAME K, n), snd (k_dedupe K f so len dst at w))"
      by (simp add: prod_eq_iff)
    with staging_facts(2) [OF staging] have "n \<le> len" unfolding sharing_def by blast
    with n show "\<exists>x. fst (k_dedupe K f so len dst at w) = Inr x \<and> fst x = DEDUPE_RANGE_SAME K \<and> snd x \<noteq> 0 \<and> snd x \<le> len \<and>
        (len < fs_sectorsize fs \<longrightarrow> snd x = len)" by auto
  qed
  then show ?thesis
    unfolding dedupe_def by (rule smooth_bindE) (use positive in \<open>auto intro!: smooth_ret split: prod.splits\<close>)
qed

lemma smooth_chunk_loop:
  assumes f: "temp f" "ident dst = file_of_located h" and r: "placed r" "agrees D content data (r, h)"
    and fin: "unat fin \<le> unat (sz (file_of_located h))"
    and copied: "\<forall>x. unat start \<le> x \<and> x < unat till \<longrightarrow> m (f, unat (fs_sectorsize fs) + x - unat start) = data x"
    and "till \<le> r_extent_offset r + r_num_bytes r"
    and "start \<le> at" and "r_extent_offset r \<le> at" and "at \<le> r_extent_offset r + r_num_bytes r"
  shows "smooth (holding m) (\<lambda>_. True) (chunk_loop K fs p f dst start r fin till n at)"
  using assms(8-)
proof (induction n arbitrary: at)
  case (Suc n)
  let ?cursor = "r_file_offset r + (at - r_extent_offset r)" and ?src = "fs_sectorsize fs + at - start"
  let ?len = "min (till - at) (fin - ?cursor)"
  note pos = chunk_at [OF r(1) sector(2) Suc.prems]
  show ?case
  proof (cases "till \<le> at \<or> fin \<le> ?cursor")
    case True
    then show ?thesis by (auto simp: Let_def smooth_ret)
  next
    case False
    then have lt: "at < till" "?cursor < fin" by (simp_all add: not_le)
    have len: "unat ?len = min (unat till - unat at) (unat fin - unat ?cursor)"
      using lt by (simp add: unat_min unat_sub_le less_imp_le)
    have nats: "unat start \<le> unat at" "unat (r_extent_offset r) \<le> unat at" "unat at < unat till"
      "unat till \<le> unat (r_extent_offset r) + unat (r_num_bytes r)" "unat ?cursor < unat fin"
      using Suc.prems lt assms(7) by (simp_all add: word_le_nat_alt word_less_nat_alt ref_reach [OF r(1)])
    have same: "m (f, unat ?src + i) = content (ident dst) (unat ?cursor + i)" if "i < unat ?len" for i
    proof -
      have i: "unat at + i < unat till" using that unfolding len by linarith
      have within: "unat at - unat (r_extent_offset r) + i < unat (r_num_bytes r)" using i nats by linarith
      have "m (f, unat (fs_sectorsize fs) + (unat at + i) - unat start) = data (unat at + i)"
        using copied nats(1) i by simp
      moreover have "content (file_of_located h) (unat (r_file_offset r) + (unat at - unat (r_extent_offset r) + i))
          = data (unat (r_extent_offset r) + (unat at - unat (r_extent_offset r) + i))"
        using r(2) within unfolding agrees_def prod.case by blast
      ultimately show ?thesis using nats(1,2) unfolding pos f(2) by (simp add: add.assoc)
    qed
    have positive_len: "0 < ?len" using lt nats unfolding word_less_nat_alt len by simp
    have dedupe: "smooth (holding m) (\<lambda>d. d \<noteq> 0 \<and> d \<le> ?len) (map_err g (dedupe K f ?src ?len dst ?cursor))" for g
    proof (rule smooth_map_err, rule smooth_weaken [OF smooth_dedupe [OF f(1) _ positive_len]])
      show "ident dst \<in> D" using r(2) f(2) by (simp add: agrees_def)
      show "unat ?cursor + unat ?len \<le> unat (sz (ident dst))" using fin nats(5) unfolding len f(2) by simp
    qed (use same in auto)
    have on: "smooth (holding m) (\<lambda>_. True) (chunk_loop K fs p f dst start r fin till n (at + d))" if "d \<le> ?len" for d
    proof -
      have d: "unat at + unat d \<le> unat till" using that nats(3) unfolding word_le_nat_alt len by linarith
      have "unat (at + d) = unat at + unat d"
        using d nats r(1) by (intro unat_add_fits) (simp add: fits_def placed_def)
      with d nats show ?thesis
        by (intro Suc.IH) (simp_all add: word_le_nat_alt ref_reach [OF r(1)])
    qed
    show ?thesis
      using lt by (simp add: Let_def not_le [symmetric] del: not_le)
        (rule smooth_bindE [OF dedupe], simp add: on)
  qed
qed (simp add: smooth_stop)

lemma smooth_redirect_chunks:
  assumes h: "h \<in> set hs" and f: "temp f" and copied: "copied temps data (fs_sectorsize fs) f lr w" and m: "temps w = m"
    and refs: "\<forall>r \<in> set (h_refs (lc_holder h)). placed r \<and> agrees D content data (r, h)"
  shows "smooth (holding m) (\<lambda>_. True) (redirect_chunks K fs h f lr (sz (file_of_located h)))"
proof -
  have ref: "smooth (holding m) (\<lambda>_. True) (redirect_ref K fs p f dst lr (sz (file_of_located h)) r)"
    if dst: "ident dst = file_of_located h" and r: "r \<in> set (h_refs (lc_holder h))" for p dst r
  proof -
    let ?fin = "min (ref_end r) (sz (file_of_located h))" and ?till = "min (r_extent_offset r + r_num_bytes r) (lr_end lr)"
    let ?at = "max (r_extent_offset r) (lr_start lr)"
    have "smooth (holding m) (\<lambda>_. True) (chunk_loop K fs p f dst (lr_start lr) r ?fin ?till n ?at)" for n
    proof (cases "?till \<le> ?at")
      case True
      then show ?thesis by (cases n) (simp_all add: smooth_stop smooth_ret)
    next
      case False
      then have "?at \<le> r_extent_offset r + r_num_bytes r" by (auto simp: not_le)
      moreover have "\<forall>x. unat (lr_start lr) \<le> x \<and> x < unat ?till \<longrightarrow>
          m (f, unat (fs_sectorsize fs) + x - unat (lr_start lr)) = data x"
        using copied unfolding copied_def m [symmetric] by (simp add: unat_min)
      ultimately show ?thesis
        using refs r by (intro smooth_chunk_loop [OF f dst, where data = data]) (simp_all add: unat_min)
    qed
    then show ?thesis unfolding redirect_ref_def Let_def by (intro smooth_if smooth_ret TrueI)
  qed
  have "smooth (holding m) (\<lambda>d. ident d = file_of_located h) (Located_open K fs h)"
    by (rule smooth_keeps [OF smooth_open [OF h] reads_Located_open [OF staging_facts(7) [OF staging]]])
  then show ?thesis
    unfolding redirect_chunks_def by (rule smooth_bindE) (intro smooth_foldE ref)
qed

text \<open>The last partial sector of a file that has it from the extent.\<close>

lemma giving_smooth:
  assumes "smooth (steady_in J) Q m" and "preserves (\<lambda>s. giving J content points temps S (world s)) m"
  shows "smooth (\<lambda>s. giving J content points temps S (world s)) Q m"
proof -
  have "(\<lambda>s :: 'w sys. J (world s) \<and> giving J content points temps S (world s)) = (\<lambda>s. giving J content points temps S (world s))"
    by (auto simp: giving_def)
  with smooth_keeps [OF assms] show ?thesis by simp
qed

lemma stage_gives:
  assumes "giving J content points temps S (world t)"
  shows "wp (stage K fs p bytes)
    (\<lambda>f t. giving J content points temps S (world t) \<and> temp f \<and> holds_bytes temps f (unat (fs_sectorsize fs)) bytes (world t))
    (\<lambda>q _. \<forall>e. q \<noteq> Raise e) t"
proof -
  have "J (world t)" using assms by (simp add: giving_def)
  from wp_conj [OF stage_giving [OF staging assms] smooth_wp [OF smooth_stage this]] show ?thesis by (rule wp_mono) auto
qed

lemma tail_gives:
  assumes dst: "ident dst = file_of_located h" and h: "h \<in> set hs"
    and frm: "frm < upto_end" "upto_end = sz (file_of_located h)" "upto_end - frm < fs_sectorsize fs"
    and start: "giving J content points temps S (world s)"
  shows "wp (redirect_tail K fs p dst frm upto_end)
    (\<lambda>_ s'. giving J content points temps (S \<union> {(file_of_located h, b) | b. unat frm \<le> b \<and> b < unat upto_end}) (world s'))
    (\<lambda>q _. \<forall>e. q \<noteq> Raise e) s"
proof -
  let ?n = "unat (upto_end - frm)" and ?G = "\<lambda>s :: 'w sys. giving J content points temps S (world s)"
  let ?E = "\<lambda>q (_ :: 'w sys). \<forall>e. q \<noteq> Raise e"
  let ?goal = "\<lambda>_ s'. giving J content points temps (S \<union> {(file_of_located h, b) | b. unat frm \<le> b \<and> b < unat upto_end}) (world s')"
  have n: "?n = unat upto_end - unat frm" using frm(1) by (simp add: unat_sub_le less_imp_le)
  have upto_end: "unat frm + ?n = unat upto_end" using frm(1) by (simp add: n word_less_nat_alt)
  have D: "ident dst \<in> D" using dst known [OF h] by simp
  have read: "smooth ?G (\<lambda>bytes. bytes = map (\<lambda>i. content (ident dst) (unat frm + i)) [0..<?n])
      (map_err (Failure_new p) (read_into K dst frm 0 ?n (replicate ?n 0)))"
  proof -
    have "smooth (steady_in J) (\<lambda>_. True) (read_into K dst frm 0 ?n (replicate ?n 0))"
      by (rule smooth_read_into [OF D]) (simp add: dst upto_end frm(2) [symmetric])
    then have "smooth ?G (\<lambda>_. True) (read_into K dst frm 0 ?n (replicate ?n 0))"
      by (rule giving_smooth) (rule reads_read_into [OF reads_giving [OF staging]])
    from smooth_value [OF safe_read_into [OF giving_view [OF staging] _ _ D] this] show ?thesis
      by (intro smooth_map_err) simp
  qed
  have dedupe: "wp (map_err (Failure_new p) (dedupe K f (fs_sectorsize fs) (upto_end - frm) dst frm)) ?goal ?E t"
    if t: "?G t" and f: "temp f" and bytes: "holds_bytes temps f (unat (fs_sectorsize fs))
        (map (\<lambda>i. content (ident dst) (unat frm + i)) [0..<?n]) (world t)" for f t
  proof -
    have same: "\<forall>i < ?n. temps (world t) (f, unat (fs_sectorsize fs) + i) = content (ident dst) (unat frm + i)"
      using bytes by (simp add: holds_bytes_def)
    have "smooth (holding (temps (world t))) (\<lambda>n. n = upto_end - frm) (map_err (Failure_new p) (dedupe K f (fs_sectorsize fs) (upto_end - frm) dst frm))"
      by (rule smooth_map_err, rule smooth_weaken [OF smooth_dedupe [OF f D]])
         (use frm same upto_end in \<open>auto simp: dst word_gt_0\<close>)
    moreover have "holding (temps (world t)) t" using t by (simp add: giving_def)
    ultimately have "wp (map_err (Failure_new p) (dedupe K f (fs_sectorsize fs) (upto_end - frm) dst frm))
        (\<lambda>n s. holding (temps (world t)) s \<and> n = upto_end - frm) ?E t" by (rule smooth_wp)
    from wp_conj [OF dedupe_giving [OF staging f t same, where g = "Failure_new p"] this] show ?thesis
      by (rule wp_mono) (auto simp: upto_end dst)
  qed
  have rest: "wp (bindE (stage K fs p bytes) (\<lambda>f. bindE (map_err (Failure_new p)
      (dedupe K f (fs_sectorsize fs) (upto_end - frm) dst frm)) (\<lambda>_. ret ()))) ?goal ?E t"
    if t: "?G t" and bytes: "bytes = map (\<lambda>i. content (ident dst) (unat frm + i)) [0..<?n]" for bytes t
    unfolding wp_bindE wp_ret
    by (rule wp_mono [OF stage_gives [OF t]]) (use dedupe bytes in blast)+
  show ?thesis
    unfolding redirect_tail_def Let_def
    by (subst wp_bindE, rule wp_mono [OF smooth_wp [OF read start]]) (use rest in blast)+
qed

lemma finish_gives:
  assumes h: "h \<in> set hs"
    and refs: "\<forall>r \<in> set (h_refs (lc_holder h)). placed r \<and> aligned (fs_sectorsize fs) (r_file_offset r)"
    and start: "giving J content points temps S (world s)"
  shows "wp (finish_holder K fs h \<lparr>hb_filesize = sz (file_of_located h), hb_modified = mtime (file_of_located h)\<rparr>)
    (\<lambda>_ s'. giving J content points temps (S \<union> tail_cells (fs_sectorsize fs) sz h) (world s')) (\<lambda>_ _. False) s"
proof -
  let ?ss = "fs_sectorsize fs" and ?size = "sz (file_of_located h)"
  let ?before = "\<lparr>hb_filesize = ?size, hb_modified = mtime (file_of_located h)\<rparr>"
  let ?G = "\<lambda>S (s :: 'w sys). giving J content points temps S (world s)" and ?E = "\<lambda>q (_ :: 'w sys). \<forall>e. q \<noteq> Raise e"
  obtain t where t: "round_down ?size ?ss = Some t" "unat t = unat ?size div unat ?ss * unat ?ss"
    using round_down_Some [OF sector(1)] by blast
  have ss: "0 < unat ?ss" using sector(1) by (simp add: unat_gt_0)
  let ?tail = "?size mod ?ss \<noteq> 0 \<and> list_ex (\<lambda>r. r_file_offset r \<le> t \<and> t < ref_end r) (h_refs (lc_holder h))"
  have cells: "tail_cells ?ss sz h \<subseteq> (if ?tail then {(file_of_located h, b) | b. unat t \<le> b \<and> b < unat ?size} else {})"
    using t(2) sector(1) refs by (rule tail_cells_within)
  have left: "t < ?size" "?size - t < ?ss" if "?size mod ?ss \<noteq> 0"
  proof -
    have "0 < unat ?size mod unat ?ss" using that by (simp add: unat_mod [symmetric] unat_gt_0)
    moreover have "unat ?size = unat t + unat ?size mod unat ?ss" by (simp add: t(2))
    ultimately show lt: "t < ?size" by (simp add: word_less_nat_alt)
    have "unat (?size - t) = unat ?size mod unat ?ss"
      using less_imp_le [OF lt] \<open>unat ?size = unat t + unat ?size mod unat ?ss\<close> by (simp add: unat_sub_le)
    with ss show "?size - t < ?ss" by (simp add: word_less_nat_alt)
  qed
  have open_: "smooth (?G S) (\<lambda>f. ident f = file_of_located h) (Located_open K fs h)"
    by (rule giving_smooth [OF smooth_open [OF h] reads_Located_open [OF reads_giving [OF staging]]])
  have tail: "wp (if ?tail then redirect_tail K fs (lc_path h) f t ?size else ret ())
      (\<lambda>_. ?G (S \<union> tail_cells ?ss sz h)) ?E s'" if f: "ident f = file_of_located h" and s': "?G S s'" for f s'
  proof (cases ?tail)
    case True
    then have nz: "?size mod ?ss \<noteq> 0" by simp
    have "wp (redirect_tail K fs (lc_path h) f t ?size) (\<lambda>_. ?G (S \<union> tail_cells ?ss sz h)) ?E s'"
      by (rule wp_mono [OF tail_gives [OF f h left(1) [OF nz] refl left(2) [OF nz] s']])
         (use cells True in \<open>auto elim: giving_subset\<close>)
    with True show ?thesis by simp
  next
    case False
    from cells have "tail_cells ?ss sz h = {}" unfolding if_not_P [OF False] by blast
    then show ?thesis using s' unfolding if_not_P [OF False] by (simp add: wp_simps)
  qed
  let ?rest = "\<lambda>f. bindE (map_err (Failure_new (lc_path h)) (sys_call (k_metadata K f))) (\<lambda>meta.
      if ?size \<noteq> md_len meta then raise (Failure_modified (lc_path h) ''size changed during rewrite'')
      else bindE (modified_time (lc_path h) meta) (\<lambda>time.
           if mtime (file_of_located h) \<noteq> time then raise (Failure_modified (lc_path h) ''modified time changed during rewrite'')
           else ret ()))"
  have rest: "wp (?rest f) (\<lambda>_. ?G S') ?E s'" if f: "ident f = file_of_located h" and s': "?G S' s'" for f S' s'
  proof -
    have D: "ident f \<in> D" using f known [OF h] by simp
    have "smooth (steady_in J) (\<lambda>_. True) (?rest f)"
      by (rule smooth_bindE [OF smooth_map_err [OF smooth_metadata [OF D]]])
         (auto simp: f modified_time_def intro!: smooth_bindE [where P = "\<lambda>t. t = mtime (file_of_located h)"] smooth_ret)
    moreover have "preserves (?G S') (?rest f)"
      by (intro preserve reads_sys_call reads_modified_time reads_giving [OF staging])
    ultimately have "smooth (?G S') (\<lambda>_. True) (?rest f)" by (rule giving_smooth)
    from smooth_wp [OF this s'] show ?thesis by (rule wp_mono) auto
  qed
  have "wp (finish_holder K fs h ?before) (\<lambda>_. ?G (S \<union> tail_cells ?ss sz h)) ?E s"
    unfolding finish_holder_def holder_before.simps Let_def t(1)
    by (subst wp_bindE, rule wp_mono [OF smooth_wp [OF open_ start]], subst wp_bindE, subst wp_unwrap, simp only: option.case,
        subst wp_bindE, erule conjE, rule wp_mono [OF tail], assumption+, rule rest, assumption+)
  moreover have "wp (finish_holder K fs h ?before) (\<lambda>x s. ?G S s \<and> True) (\<lambda>q s. ?G S s \<and> (\<exists>e. q = Raise e)) s"
    by (rule safe_wp [OF finish_holder_giving [OF staging sector(1) known [OF h]] start])
  ultimately show ?thesis by (rule wp_mono [OF wp_conj]) auto
qed

text \<open>All copies.\<close>

abbreviation before_of :: "located \<Rightarrow> holder_before" where
  "before_of h \<equiv> \<lparr>hb_filesize = sz (file_of_located h), hb_modified = mtime (file_of_located h)\<rparr>"

lemma copy_gives:
  assumes refs: "\<forall>(r, h) \<in> set (sorted_refs hs). placed r \<and> agrees D content data (r, h) \<and> unat (r_num_bytes r) < rounds K"
    and hs: "hs \<noteq> []" and copy: "lr_start lr \<le> lr_end lr" "lr_bytes lr = map data [unat (lr_start lr)..<unat (lr_end lr)]"
    and start: "giving J content points temps S (world s)"
  shows "wp (redirect_all K fs (zip hs (map before_of hs)) lr)
    (\<lambda>_ s'. giving J content points temps (S \<union> ref_cells sz lr hs) (world s')) (\<lambda>_ _. False) s"
proof -
  let ?hbs = "zip hs (map before_of hs)" and ?E = "\<lambda>q (_ :: 'w sys). \<forall>e. q \<noteq> Raise e"
  have sizes: "list_all2 (\<lambda>h b. hb_filesize b = sz (file_of_located h)) hs (map before_of hs)"
    by (simp add: list_all2_conv_all_nth)
  have chunks: "wp (foldE (\<lambda>hb _. redirect_chunks K fs (fst hb) f lr (hb_filesize (snd hb))) ?hbs ()) (\<lambda>_ _. True) ?E t"
    if t: "giving J content points temps S (world t)" and f: "temp f"
      and bytes: "holds_bytes temps f (unat (fs_sectorsize fs)) (lr_bytes lr) (world t)" for f t
  proof -
    have "smooth (holding (temps (world t))) (\<lambda>_. True)
        (foldE (\<lambda>hb _. redirect_chunks K fs (fst hb) f lr (hb_filesize (snd hb))) ?hbs ())"
    proof (rule smooth_foldE)
      fix hb u assume "hb \<in> set ?hbs"
      then obtain h where hb: "hb = (h, before_of h)" and h: "h \<in> set hs" by (auto simp: zip_map2 set_zip in_set_conv_nth)
      have "\<forall>r \<in> set (h_refs (lc_holder h)). placed r \<and> agrees D content data (r, h)"
        using refs h by (auto simp: set_sorted_refs)
      from smooth_redirect_chunks [OF h f copied_staged [OF bytes copy(2)] refl this]
      show "smooth (holding (temps (world t))) (\<lambda>_. True) (redirect_chunks K fs (fst hb) f lr (hb_filesize (snd hb)))"
        by (simp add: hb)
    qed
    moreover have "holding (temps (world t)) t" using t by (simp add: giving_def)
    ultimately show ?thesis by (rule wp_mono [OF smooth_wp]) auto
  qed
  obtain p where p: "(case ?hbs of [] \<Rightarrow> None | (h, _) # _ \<Rightarrow> Some (lc_path h)) = Some p"
    using hs by (cases hs) auto
  have "wp (stage K fs p (lr_bytes lr)) (\<lambda>f. wp (foldE (\<lambda>hb _. redirect_chunks K fs (fst hb) f lr (hb_filesize (snd hb))) ?hbs ())
      (\<lambda>_ _. True) ?E) ?E s"
    by (rule wp_mono [OF stage_gives [OF start]]) (use chunks in blast)+
  then have "wp (redirect_all K fs ?hbs lr) (\<lambda>_ _. True) ?E s"
    unfolding redirect_all_def p by (simp add: wp_simps)
  from wp_conj [OF redirect_all_giving [OF staging refs sector(2) hs sizes copy start] this]
  show ?thesis by (rule wp_mono) auto
qed

end

section \<open>A rewrite is done\<close>

text \<open>And the extent is the holders' own, as the trees say while its bytes are where they are; once
  every byte of it below the end of its files has been given by a temporary, no holder has a file
  extent item into it any more.\<close>

locale rewriting = obliging K fs hs temp J ident D content sz mtime points temps
  for K :: "('w, 'f) kernel" and fs hs temp J ident D content sz mtime points temps +
  fixes e :: extent and data :: "nat \<Rightarrow> u8" and tree :: "'w \<Rightarrow> u64 \<Rightarrow> item list"
  assumes extent: "extent_ok e" "map lc_holder hs = holders e"
    and good: "refs_good (fs_sectorsize fs) D content data e"
    and offsets: "r \<in> set (e_refs e) \<Longrightarrow> aligned (fs_sectorsize fs) (r_file_offset r)"
    and enough: "r \<in> set (e_refs e) \<Longrightarrow> unat (r_num_bytes r) < rounds K"
    and serves: "J w \<Longrightarrow> serves K (tree w) w"
    and trees: "tree_ok (tree w t)" "length (tree w t) < rounds K"
    and frees: "J w \<Longrightarrow> (\<And>r b. r \<in> set (e_refs e) \<Longrightarrow> unat (r_file_offset r) \<le> b \<Longrightarrow>
          b < unat (r_file_offset r) + unat (r_num_bytes r) \<Longrightarrow> b < unat (sz (r_root r, r_inode r)) \<Longrightarrow>
          points w ((r_root r, r_inode r), b) \<noteq> None) \<Longrightarrow> h \<in> set hs \<Longrightarrow> \<not> holds_still K (tree w) e h"
begin

lemma refs_of_holders:
  "\<forall>(r, h) \<in> set (sorted_refs hs). placed r \<and> agrees D content data (r, h) \<and> unat (r_num_bytes r) < rounds K"
  using located_good [OF good extent(2)] located_refs(1) [OF extent(2)] enough by blast

lemma check_passes:
  assumes "serving K (tree w) s" and "\<forall>h \<in> set hs'. \<not> holds_still K (tree w) e h"
  shows "\<exists>p. foldE (\<lambda>h _. check_released K e h) hs' () s = (Inr (), s\<lparr>searchargs_pool := p\<rparr>)"
  using assms
proof (induction hs' arbitrary: s)
  case Nil
  have "s\<lparr>searchargs_pool := searchargs_pool s\<rparr> = s" by simp
  then have "\<exists>p. s\<lparr>searchargs_pool := p\<rparr> = s" by (rule exI)
  then show ?case by simp
next
  case (Cons h hs')
  have none: "\<not> holds_still K (tree w) e h" using Cons.prems(2) by simp
  obtain p where "inode_holds_extent K (h_root (lc_holder h)) (h_inode (lc_holder h))
      (first_offset (h_refs (lc_holder h))) (last_offset (h_refs (lc_holder h))) (e_disk_address e) s
        = (Inr False, s\<lparr>searchargs_pool := p\<rparr>)"
    and p: "serving K (tree w) (s\<lparr>searchargs_pool := p\<rparr>)"
    by (rule inode_holds_extent_exact [OF Cons.prems(1), of "h_root (lc_holder h)" "h_inode (lc_holder h)"
          "first_offset (h_refs (lc_holder h))" "last_offset (h_refs (lc_holder h))" "e_disk_address e"])
       (use none in \<open>simp add: holds_still_def\<close>)
  then have "check_released K e h s = (Inr (), s\<lparr>searchargs_pool := p\<rparr>)"
    by (simp add: check_released_def bindE_def map_err_def matchE_def ret_def)
  moreover obtain q where "foldE (\<lambda>h _. check_released K e h) hs' () (s\<lparr>searchargs_pool := p\<rparr>)
      = (Inr (), s\<lparr>searchargs_pool := p\<rparr>\<lparr>searchargs_pool := q\<rparr>)"
    using Cons.IH [OF p] Cons.prems(2) by auto
  ultimately show ?case by (auto simp: bindE_Inr)
qed

text \<open>Every byte of a reference below the end of its file is in a copy or in the file's tail.\<close>

lemma all_cells:
  assumes live: "live_copies data (fs_sectorsize fs) sz (sorted_refs hs) (e_live_ranges e) lrs"
    and r: "r \<in> set (e_refs e)" and b: "unat (r_file_offset r) \<le> b" "b < unat (r_file_offset r) + unat (r_num_bytes r)"
      "b < unat (sz (r_root r, r_inode r))"
  shows "((r_root r, r_inode r), b) \<in> (\<Union>lr \<in> set lrs. ref_cells sz lr hs) \<union> (\<Union>h \<in> set hs. tail_cells (fs_sectorsize fs) sz h)"
proof (cases "(b div unat (fs_sectorsize fs) + 1) * unat (fs_sectorsize fs) \<le> unat (sz (r_root r, r_inode r))")
  case True
  have "\<forall>r \<in> set (e_refs e). aligned (fs_sectorsize fs) (r_file_offset r)" using offsets by blast
  from cell_of_byte [OF live sector(1) extent good this r b(1,2) True] show ?thesis by blast
next
  case False
  obtain h where h: "(r, h) \<in> set (sorted_refs hs)" "file_of_located h = (r_root r, r_inode r)"
    using located_refs [OF extent(2)] r by blast
  then have "((r_root r, r_inode r), b) \<in> tail_cells (fs_sectorsize fs) sz h"
    using False b by (auto simp: tail_cells_def set_sorted_refs)
  moreover have "h \<in> set hs" using h(1) by (simp add: set_sorted_refs)
  ultimately show ?thesis by blast
qed

lemma wp_pool:
  "wp m Q E s \<Longrightarrow> preserves pool_ok m \<Longrightarrow> pool_ok s \<Longrightarrow> wp m (\<lambda>x t. Q x t \<and> pool_ok t) E s"
  by (drule (1) preserves_wp, drule (1) wp_conj) (auto elim: wp_mono)

lemma finish_all:
  assumes start: "giving J content points temps S (world s)" and sub: "set hs' \<subseteq> set hs"
  shows "wp (foldE (\<lambda>hb _. finish_holder K fs (fst hb) (snd hb)) (zip hs' (map before_of hs')) ())
    (\<lambda>_ s'. giving J content points temps (S \<union> (\<Union>h \<in> set hs'. tail_cells (fs_sectorsize fs) sz h)) (world s')) (\<lambda>_ _. False) s"
  using assms
proof (induction hs' arbitrary: S s)
  case Nil
  then show ?case by (simp add: wp_simps)
next
  case (Cons h hs')
  have h: "h \<in> set hs" using Cons.prems(2) by simp
  have refs: "\<forall>r \<in> set (h_refs (lc_holder h)). placed r \<and> aligned (fs_sectorsize fs) (r_file_offset r)"
    using refs_of_holders offsets located_refs(1) [OF extent(2)] h by (fastforce simp: set_sorted_refs)
  have rest: "wp (foldE (\<lambda>hb _. finish_holder K fs (fst hb) (snd hb)) (zip hs' (map before_of hs')) u)
      (\<lambda>_ s'. giving J content points temps (S \<union> (\<Union>h \<in> set (h # hs'). tail_cells (fs_sectorsize fs) sz h)) (world s'))
      (\<lambda>_ _. False) t" if "giving J content points temps (S \<union> tail_cells (fs_sectorsize fs) sz h) (world t)" for u t
    using Cons.IH [OF that] Cons.prems(2) by (simp add: Un_assoc)
  show ?case
    unfolding list.map zip_Cons_Cons foldE.simps wp_bindE fst_conv snd_conv
    by (rule wp_mono [OF finish_gives [OF h refs Cons.prems(1)] rest])
qed

lemma succeeds:
  assumes start: "giving J content points temps {} (world s)" and pool: "pool_ok s"
  shows "wp (realloc_extent K fs e hs)
    (\<lambda>_ s'. J (world s') \<and> faithful content points temps (world s') \<and>
      (\<forall>r \<in> set (e_refs e). \<forall>b. unat (r_file_offset r) \<le> b \<and> b < unat (r_file_offset r) + unat (r_num_bytes r) \<and>
        b < unat (sz (r_root r, r_inode r)) \<longrightarrow> given content points temps (world s') (r_root r, r_inode r) b))
    (\<lambda>_ _. False) s"
proof -
  let ?G = "\<lambda>S (s :: 'w sys). giving J content points temps S (world s)" and ?F = "\<lambda>_ (_ :: 'w sys). False"
  let ?live = "live_copies data (fs_sectorsize fs) sz (sorted_refs hs) (e_live_ranges e)"
  let ?all = "\<lambda>lrs. (\<Union>lr \<in> set lrs. ref_cells sz lr hs) \<union> (\<Union>h \<in> set hs. tail_cells (fs_sectorsize fs) sz h)"
  let ?done = "\<lambda>_ (s' :: 'w sys). J (world s') \<and> faithful content points temps (world s') \<and>
      (\<forall>r \<in> set (e_refs e). \<forall>b. unat (r_file_offset r) \<le> b \<and> b < unat (r_file_offset r) + unat (r_num_bytes r) \<and>
        b < unat (sz (r_root r, r_inode r)) \<longrightarrow> given content points temps (world s') (r_root r, r_inode r) b)"
  have J: "J (world t)" if "?G S t" for S t using that by (simp add: giving_def)
  have read: "wp (read_liveranges K fs e hs) (\<lambda>lrs t. (?G {} t \<and> ?live lrs) \<and> pool_ok t) ?F s"
  proof (rule wp_pool [OF _ pool_read_liveranges pool])
    have "\<forall>rh \<in> set (sorted_refs hs). placed (fst rh)" using refs_of_holders by auto
    from wp_smooth [OF safe_wp [OF read_liveranges_safe [OF giving_view [OF staging] sector(1) extent good] start]
        smooth_read_liveranges [OF this] J [OF start]]
    show "wp (read_liveranges K fs e hs) (\<lambda>lrs t. ?G {} t \<and> ?live lrs) ?F s" .
  qed
  have before: "wp (mapE (HolderBefore_read K fs) hs) (\<lambda>bs t. (?G {} t \<and> bs = map before_of hs) \<and> pool_ok t) ?F t"
    if t: "?G {} t" "pool_ok t" for t
  proof (rule wp_pool [OF _ preserves_mapE [OF pool_HolderBefore_read] t(2)])
    have "safe (?G {}) (list_all2 (\<lambda>h b. hb_filesize b = sz (file_of_located h)) hs) (mapE (HolderBefore_read K fs) hs)"
      by (rule safe_mapE_each) (intro HolderBefore_size [OF giving_view [OF staging]] known)
    note safe = safe_wp [OF this t(1)]
    have smooth: "smooth (steady_in J) (\<lambda>bs. bs = map before_of hs) (mapE (HolderBefore_read K fs) hs)"
      by (intro smooth_mapE smooth_before)
    from wp_conj [OF wp_smooth [OF safe smooth J [OF t(1)]] smooth_wp [OF smooth J [OF t(1)]]]
    show "wp (mapE (HolderBefore_read K fs) hs) (\<lambda>bs t. ?G {} t \<and> bs = map before_of hs) ?F t" by (rule wp_mono) auto
  qed
  have copies: "wp (foldE (\<lambda>lr _. redirect_all K fs (zip hs (map before_of hs)) lr) lrs ())
      (\<lambda>_ t. ?G (\<Union>lr \<in> set lrs. ref_cells sz lr hs) t \<and> pool_ok t) ?F t"
    if live: "?live lrs" and t: "?G {} t" "pool_ok t" for lrs t
  proof (rule wp_pool [OF _ preserves_foldE [OF pool_redirect_all] t(2)],
      rule wp_foldE [where I = "\<lambda>ys _. ?G (\<Union>lr \<in> set ys. ref_cells sz lr hs)"])
    fix ys lr zs and b :: unit and u
    assume lrs: "lrs = ys @ lr # zs" and I: "?G (\<Union>lr \<in> set ys. ref_cells sz lr hs) u"
    then have lr: "hs \<noteq> []" "lr_start lr \<le> lr_end lr" "lr_bytes lr = map data [unat (lr_start lr)..<unat (lr_end lr)]"
      using copies_have_holders [OF live, of lr] by simp_all
    show "wp (redirect_all K fs (zip hs (map before_of hs)) lr) (\<lambda>_. ?G (\<Union>lr \<in> set (ys @ [lr]). ref_cells sz lr hs)) ?F u"
      by (rule wp_mono [OF copy_gives [OF refs_of_holders lr I]]) (auto simp: Un_commute)
  qed (use t in simp)
  have finish: "wp (foldE (\<lambda>hb _. finish_holder K fs (fst hb) (snd hb)) (zip hs (map before_of hs)) ())
      (\<lambda>_ t. ?G (?all lrs) t \<and> pool_ok t) ?F t"
    if t: "?G (\<Union>lr \<in> set lrs. ref_cells sz lr hs) t" "pool_ok t" for lrs t
    by (rule wp_pool [OF finish_all [OF t(1) order_refl] preserves_foldE [OF pool_finish_holder] t(2)])
  have check: "wp (foldE (\<lambda>h _. check_released K e h) hs ()) ?done ?F t"
    if live: "?live lrs" and t: "?G (?all lrs) t" "pool_ok t" for lrs t
  proof -
    have moved: "points (world t) ((r_root r, r_inode r), b) \<noteq> None"
      if "r \<in> set (e_refs e)" "unat (r_file_offset r) \<le> b" "b < unat (r_file_offset r) + unat (r_num_bytes r)"
        "b < unat (sz (r_root r, r_inode r))" for r b
      using all_cells [OF live that] t(1) unfolding giving_def by blast
    have "\<forall>h \<in> set hs. \<not> holds_still K (tree (world t)) e h"
      using frees [OF J [OF t(1)] moved] by blast
    moreover have "serving K (tree (world t)) t"
      using serves [OF J [OF t(1)]] trees t(2) by (simp add: serving_def)
    ultimately obtain p where run: "foldE (\<lambda>h _. check_released K e h) hs () t = (Inr (), t\<lparr>searchargs_pool := p\<rparr>)"
      using check_passes by blast
    have f: "J (world t)" "faithful content points temps (world t)" using t(1) by (simp_all add: giving_def)
    then have "given content points temps (world t) k b" if "points (world t) (k, b) \<noteq> None" for k b
      using that unfolding faithful_def by blast
    with f moved have "?done () t" by blast
    then show ?thesis by (simp add: wp_def run)
  qed
  show ?thesis
    unfolding realloc_extent_def wp_bindE
    by (rule wp_mono [OF read], elim conjE, rule wp_mono [OF before], assumption, assumption, elim conjE, hypsubst,
        rule wp_mono [OF copies], assumption+, elim conjE, rule wp_mono [OF finish], assumption+, elim conjE,
        rule check, assumption+)
qed

end


section \<open>A file system that lets the extent go\<close>

text \<open>Its tree has the file's item into the extent as long as one of the file's 24 bytes is where it was.\<close>

definition held_item :: item where
  "held_item =
     (\<lparr>sh_transid = 9, sh_objectid = 256, sh_offset = 0, sh_type = 108, sh_len = 53\<rparr>,
      [9,0,0,0,0,0,0,0, 32,0,0,0,0,0,0,0, 0, 0, 0,0, 1, 0,0,1,0,0,0,0,0,
       32,0,0,0,0,0,0,0, 0,0,0,0,0,0,0,0, 32,0,0,0,0,0,0,0])"

definition held_tree :: "copies \<Rightarrow> u64 \<Rightarrow> item list" where
  "held_tree w t = (if t = 5 \<and> list_ex (\<lambda>b. fst w ((5, 256), b) = None) [0..<24] then [held_item] else [])"

lemma held_tree_fits: "tree_fits (held_tree w t)" and held_tree_ok: "tree_ok (held_tree w t)"
  and held_tree_short: "length (held_tree w t) \<le> 1"
  by (simp_all add: tree_fits_def tree_ok_def held_tree_def held_item_def BUF_SIZE_def MAX_ITEM_SIZE_def)

lemma held_at_first: "holds_still (copy_kernel held_tree) (held_tree copy_start) live_extent live_located"
proof -
  have "range_items (held_tree copy_start) 5 (256, 108, 0) (256, 108, 31) = [held_item]"
    by (simp add: range_items_def held_tree_def held_item_def copy_start_def item_key_def list_ex_iff exI [of _ 0])
  moreover have "map_option r_disk_address (file_extent_ref (copy_kernel held_tree) 5 256 (fst held_item) (snd held_item)) = Some 65536"
    by (simp add: file_extent_ref_def held_item_def Let_def read_struct_def le_field_def copy_kernel_simps)
  moreover from this obtain z where "file_extent_ref (copy_kernel held_tree) 5 256 (fst held_item) (snd held_item) = Some z"
    and z: "r_disk_address z = 65536" by auto
  moreover have "EXTENT_DATA_KEY (copy_kernel held_tree) = 108" by (simp add: copy_kernel_simps)
  ultimately have "extent_refs_in (copy_kernel held_tree) (held_tree copy_start) 5 256 0 31 = [z]"
    by (simp add: extent_refs_in_def List.map_filter_def)
  with z show ?thesis
    by (simp add: holds_still_def first_offset_def last_offset_def ref_end_def live_located_def)
qed

lemma copy_obliging:
  "obliging (copy_kernel T) copy_fs [live_located] (\<lambda>_. True) copy_steady (\<lambda>f. (5, if f = 0 then 256 else 257)) {(5, 256)}
     (\<lambda>_ _. 7) (\<lambda>_. 24) (\<lambda>_. 0) fst (fst \<circ> snd)"
  by unfold_locales
    (use copy_staging in \<open>auto simp: copy_kernel_simps live_located_def word_gt_0 split: prod.splits if_splits\<close>)

lemma held_tree_free:
  assumes "\<And>b. b < 24 \<Longrightarrow> fst w ((5, 256), b) \<noteq> None"
  shows "\<not> holds_still K (held_tree w) e h"
proof -
  have "held_tree w = (\<lambda>_. [])" using assms by (auto simp: held_tree_def list_ex_iff fun_eq_iff)
  then show ?thesis by (simp add: holds_still_def extent_refs_in_def range_items_def List.map_filter_def)
qed

interpretation copying: rewriting "copy_kernel held_tree" copy_fs "[live_located]" "\<lambda>_. True" copy_steady
  "\<lambda>f. (5, if f = 0 then 256 else 257)" "{(5, 256)}" "\<lambda>_ _. 7" "\<lambda>_. 24" "\<lambda>_. 0" fst "fst \<circ> snd" live_extent "\<lambda>_. 7" held_tree
proof (intro rewriting.intro copy_obliging rewriting_axioms.intro)
  have ref: "r_root live_ref = 5" "r_inode live_ref = 256" by (simp_all add: live_ref_def sample_ref_def)
  show "refs_good (fs_sectorsize copy_fs) {(5, 256)} (\<lambda>_ _. 7) (\<lambda>_. 7) live_extent"
    by (simp add: refs_good_def placed_def aligned_def ref)
  show "serves (copy_kernel held_tree) (held_tree w) w" for w
    by (rule serves_trees) (simp_all add: copy_kernel_simps held_tree_fits)
  show "length (held_tree w t) < rounds (copy_kernel held_tree)" for w t
    using held_tree_short [of w t] by (simp add: copy_kernel_def)
  show "\<not> holds_still (copy_kernel held_tree) (held_tree w) live_extent h"
    if "\<And>r b. r \<in> set (e_refs live_extent) \<Longrightarrow> unat (r_file_offset r) \<le> b \<Longrightarrow> b < unat (r_file_offset r) + unat (r_num_bytes r) \<Longrightarrow>
      b < unat (24 :: u64) \<Longrightarrow> fst w ((r_root r, r_inode r), b) \<noteq> None" for w h
    by (rule held_tree_free) (use that [of live_ref] in \<open>simp add: ref\<close>)
qed (auto simp: aligned_def held_tree_ok copy_kernel_def)


end
