(* ===== verification/Paths.thy ===== *)
theory Paths
  imports Smooth
begin

text \<open>
  What path a file is found by (src/kernel.rs: \<open>subvolume\<close>, \<open>find_subvolume\<close>, \<open>inode_path\<close>): the
  names on the way up the chain of root backreferences, each subvolume below its parent's, and the
  name the kernel has for the inode in its subvolume; and that a cache of subvolumes does not change it.
\<close>

section \<open>The path the trees give a subvolume\<close>

text \<open>\<open>dirs (p, d)\<close> is the path of directory \<open>d\<close> in subvolume \<open>p\<close>.\<close>

fun path_up :: "'z abi_scheme \<Rightarrow> (u64 \<Rightarrow> item list) \<Rightarrow> (u64 \<times> u64 \<Rightarrow> path) \<Rightarrow> nat \<Rightarrow> u64 \<Rightarrow> path option" where
  "path_up A tree dirs 0 root = None"
| "path_up A tree dirs (Suc n) root =
     (if root = FS_TREE_OBJECTID A then Some []
      else case parent_of A tree root of
        None \<Rightarrow> None
      | Some (p, d, name) \<Rightarrow>
          map_option (\<lambda>up. path_join (path_join up (dirs (p, d))) name) (path_up A tree dirs n p))"

definition subvolume_path ::
  "'z abi_scheme \<Rightarrow> (u64 \<Rightarrow> item list) \<Rightarrow> (u64 \<times> u64 \<Rightarrow> path) \<Rightarrow> (u64 \<Rightarrow> nat) \<Rightarrow> u64 \<Rightarrow> path option"
where
  "subvolume_path A tree dirs rank root = path_up A tree dirs (Suc (rank root)) root"

lemma path_up_enough:
  assumes "nested A tree rank"
  shows "rank root < n \<Longrightarrow> rank root < m \<Longrightarrow> path_up A tree dirs n root = path_up A tree dirs m root"
proof (induction n arbitrary: m root)
  case (Suc n)
  then obtain k where m: "m = Suc k" by (cases m) auto
  have "path_up A tree dirs n p = path_up A tree dirs k p"
    if "root \<noteq> FS_TREE_OBJECTID A" "parent_of A tree root = Some (p, d, name)" for p d name
  proof -
    from assms that have "rank p < rank root" unfolding nested_def by blast
    with Suc.prems m show ?thesis by (intro Suc.IH) simp_all
  qed
  then show ?case by (simp add: m split: option.split)
qed simp

lemma subvolume_path_step:
  assumes "nested A tree rank"
  shows "subvolume_path A tree dirs rank root =
     (if root = FS_TREE_OBJECTID A then Some []
      else case parent_of A tree root of
        None \<Rightarrow> None
      | Some (p, d, name) \<Rightarrow>
          map_option (\<lambda>up. path_join (path_join up (dirs (p, d))) name) (subvolume_path A tree dirs rank p))"
proof -
  have "path_up A tree dirs (rank root) p = path_up A tree dirs (Suc (rank p)) p"
    if "root \<noteq> FS_TREE_OBJECTID A" "parent_of A tree root = Some (p, d, name)" for p d name
    by (rule path_up_enough [OF assms]) (use assms that in \<open>auto simp: nested_def\<close>)
  then show ?thesis by (simp add: subvolume_path_def split: option.split)
qed

text \<open>The cache of subvolumes agrees with the trees.\<close>

definition remembers ::
  "'z abi_scheme \<Rightarrow> (u64 \<Rightarrow> item list) \<Rightarrow> (u64 \<times> u64 \<Rightarrow> path) \<Rightarrow> (u64 \<Rightarrow> nat) \<Rightarrow> 'w sys \<Rightarrow> bool"
where
  "remembers A tree dirs rank s \<longleftrightarrow>
     subvolumes s \<subseteq>\<^sub>m (\<lambda>root. Some (map_option (\<lambda>p. \<lparr>sv_path = p\<rparr>) (subvolume_path A tree dirs rank root)))"

section \<open>What the kernel says of names\<close>

text \<open>The buffer of \<open>BTRFS_IOC_INO_PATHS\<close>: how many names there are, and, where there is one, the
  offset of the first, which lies in the buffer.\<close>

definition first_name :: "u32 \<Rightarrow> u8 list \<Rightarrow> path option \<Rightarrow> bool" where
  "first_name n bytes name \<longleftrightarrow>
     (let data = take INO_PATH_DATA_SIZE bytes @ replicate (INO_PATH_DATA_SIZE - length bytes) 0
      in if n = 0 then name = None
         else le_nat (take 8 data) \<le> length data \<and>
              name = Some (bytes_path (cstr_bytes (drop (le_nat (take 8 data)) data))))"

abbreviation beneath :: "resolve_flag set" where
  "beneath \<equiv> {RESOLVE_BENEATH, RESOLVE_NO_SYMLINKS, RESOLVE_NO_XDEV}"

text \<open>A file system that stays as it is, on which every subvolume that has a path can be opened by it.\<close>

locale naming =
  fixes K :: "('w, 'f) kernel" and fs :: "'f filesystem" and J :: "'w \<Rightarrow> bool" and ident :: "'f \<Rightarrow> u64 \<times> u64"
    and tree :: "u64 \<Rightarrow> item list" and rank :: "u64 \<Rightarrow> nat" and dirs :: "u64 \<times> u64 \<Rightarrow> path"
    and names :: "u64 \<times> u64 \<Rightarrow> path option"
  assumes reads: "reads_keep K J"
    and identified: "identifies K ident"
    and serves: "J w \<Longrightarrow> serves K tree w"
    and trees: "tree_ok (tree t)" "length (tree t) < rounds K"
    and nests: "nested K tree rank" "rank root < rounds K"
    and looks: "J w \<Longrightarrow> parent_of K tree root = Some (p, d, name) \<Longrightarrow>
        \<exists>t bytes. fst (k_ino_lookup K (fs_file fs) p d w) = Inr (t, bytes) \<and> bytes_path (cstr_bytes bytes) = dirs (p, d)"
    and plain: "subvolume_path K tree dirs rank root = Some q \<Longrightarrow> CHR 0x00 \<notin> set q"
    and opens: "J w \<Longrightarrow> subvolume_path K tree dirs rank root = Some q \<Longrightarrow>
        \<exists>f. fst (k_openat2 K (fs_file fs) (if q = [] then ''.'' else q) {O_CLOEXEC, O_RDONLY, O_DIRECTORY} beneath w) = Inr f \<and>
          ident f = (root, FIRST_FREE_OBJECTID K)"
    and roots: "J w \<Longrightarrow> ident f = (root, FIRST_FREE_OBJECTID K) \<Longrightarrow>
        \<exists>meta x. fst (k_metadata K f w) = Inr meta \<and> fst (k_ino_lookup K f 0 (FIRST_FREE_OBJECTID K) w) = Inr x"
    and lists: "J w \<Longrightarrow> ident f = (root, FIRST_FREE_OBJECTID K) \<Longrightarrow>
        \<exists>n bytes. fst (k_ino_paths K f inode (16 + INO_PATH_DATA_SIZE) w) = Inr (n, bytes) \<and>
          first_name n bytes (names (root, inode))"
begin

abbreviation path_of :: "u64 \<Rightarrow> path option" where
  "path_of \<equiv> subvolume_path K tree dirs rank"

abbreviation found :: "path option \<Rightarrow> subvolume option" where
  "found \<equiv> map_option (\<lambda>p. \<lparr>sv_path = p\<rparr>)"

text \<open>The invariant: subvolumes that are known are known by their paths.\<close>

definition known :: "'w sys \<Rightarrow> bool" where
  "known s \<longleftrightarrow> J (world s) \<and> pool_ok s \<and> remembers K tree dirs rank s"

lemma known_call:
  assumes "preserves (\<lambda>s. J (world s)) (sys_call f)"
  shows "preserves known (sys_call f)"
  using assms by (auto simp: preserves_def known_def remembers_def sys_call_def pool_ok_def split: prod.splits sum.splits)

lemma gives_call:
  assumes "preserves (\<lambda>s. J (world s)) (sys_call f)" and "\<And>w. J w \<Longrightarrow> \<exists>x. fst (f w) = Inr x \<and> Q x"
  shows "gives known Q (sys_call f)"
  by (rule gives_sys_call [OF known_call [OF assms(1)]]) (use assms(2) in \<open>simp add: known_def\<close>)

lemma gives_open_subvolume:
  assumes "path_of root = Some p"
  shows "gives known (\<lambda>opened. \<exists>f. opened = Some f \<and> ident f = (root, FIRST_FREE_OBJECTID K))
    (open_subvolume K (fs_file fs) p root)"
proof -
  let ?p = "if p = [] then ''.'' else p"
  have "gives known (\<lambda>f. ident f = (root, FIRST_FREE_OBJECTID K))
      (sys_call (k_openat2 K (fs_file fs) ?p {O_CLOEXEC, O_RDONLY, O_DIRECTORY} beneath))"
    by (rule gives_call [OF reads_sys_call(4) [OF reads]]) (use opens [OF _ assms] in auto)
  moreover have "CHR 0x00 \<notin> set ?p" using plain [OF assms] by simp
  ultimately have opened: "gives known (\<lambda>f. ident f = (root, FIRST_FREE_OBJECTID K))
      (open_beneath K (fs_file fs) p {O_RDONLY, O_DIRECTORY})"
    unfolding open_beneath_def Let_def by (simp only: if_False)
  have "gives known (\<lambda>opened. \<exists>f. opened = Some f \<and> ident f = (root, FIRST_FREE_OBJECTID K))
      (bindE (own_root_id K f) (\<lambda>own. if own \<noteq> root then ret None
          else bindE (sys_call (k_metadata K f)) (\<lambda>meta.
               if md_ino meta \<noteq> FIRST_FREE_OBJECTID K then ret None else ret (Some f))))"
    if f: "ident f = (root, FIRST_FREE_OBJECTID K)" for f
  proof -
    have "\<exists>x. fst (k_ino_lookup K f 0 (FIRST_FREE_OBJECTID K) w) = Inr x \<and> fst x = root" if "J w" for w
      using roots [OF that f] identified f unfolding identifies_def
      by (cases "k_ino_lookup K f 0 (FIRST_FREE_OBJECTID K) w") fastforce
    then have root: "gives known (\<lambda>own. own = root) (own_root_id K f)"
      unfolding own_root_id_def ino_lookup_args_def
      by (intro gives_bindE [OF gives_call [OF reads_sys_call(2) [OF reads], where Q = "\<lambda>x. fst x = root"]])
         (auto intro!: gives_ret split: prod.splits)
    have "\<exists>meta. fst (k_metadata K f w) = Inr meta \<and> md_ino meta = FIRST_FREE_OBJECTID K" if "J w" for w
      using roots [OF that f] identified f unfolding identifies_def by (cases "k_metadata K f w") fastforce
    then have meta: "gives known (\<lambda>meta. md_ino meta = FIRST_FREE_OBJECTID K) (sys_call (k_metadata K f))"
      by (rule gives_call [OF reads_sys_call(10) [OF reads]])
    show ?thesis
      by (rule gives_bindE [OF root], simp, rule gives_bindE [OF meta]) (simp add: f gives_ret)
  qed
  then show ?thesis unfolding open_subvolume_def by (rule gives_matchE [OF opened])
qed

lemma gives_root_backref: "gives known (\<lambda>b. b = parent_of K tree root) (root_backref K root)"
  unfolding gives_def
proof (intro allI impI)
  fix s assume s: "known s"
  then have "serving K tree s" using serves trees by (simp add: known_def serving_def)
  then obtain p where "root_backref K root s = (Inr (parent_of K tree root), s\<lparr>searchargs_pool := p\<rparr>)"
    and "serving K tree (s\<lparr>searchargs_pool := p\<rparr>)"
    unfolding root_backref_def parent_of_def by (rule searching_fold)
  with s show "wp (root_backref K root) (\<lambda>b s. known s \<and> b = parent_of K tree root) (\<lambda>_ _. False) s"
    by (simp add: wp_def known_def remembers_def serving_def)
qed

text \<open>Up the chain of parents.\<close>

lemma gives_find_subvolume:
  assumes up: "\<And>p d name. root \<noteq> FS_TREE_OBJECTID K \<Longrightarrow> parent_of K tree root = Some (p, d, name) \<Longrightarrow>
      gives known (\<lambda>v. v = found (path_of p)) (subvolume_at K fs n p)"
  shows "gives known (\<lambda>v. v = found (path_of root)) (find_subvolume K fs n root)"
proof -
  have step: "path_of root = (if root = FS_TREE_OBJECTID K then Some []
      else case parent_of K tree root of None \<Rightarrow> None
        | Some (p, d, name) \<Rightarrow> map_option (\<lambda>up. path_join (path_join up (dirs (p, d))) name) (path_of p))"
    by (rule subvolume_path_step [OF nests(1)])
  have dir: "gives known (\<lambda>dir. dir = dirs (p, d)) (ino_lookup K (fs_file fs) p d)"
    if "parent_of K tree root = Some (p, d, name)" for p d name
    unfolding ino_lookup_def ino_lookup_args_def
    by (rule gives_bindE [OF gives_call [OF reads_sys_call(2) [OF reads],
          where Q = "\<lambda>x. bytes_path (cstr_bytes (snd x)) = dirs (p, d)"]])
       (use looks [OF _ that] in \<open>auto intro!: gives_ret split: prod.splits\<close>)
  have path: "gives known (\<lambda>p. p = path_of root)
     (if root = FS_TREE_OBJECTID K then ret (Some [])
            else bindE (root_backref K root) (\<lambda>backref.
                 case backref of
                   None \<Rightarrow> ret None
                 | Some (parent, dirid, name) \<Rightarrow>
                     bindE (subvolume_at K fs n parent) (\<lambda>parent_subvolume.
                     case parent_subvolume of
                       None \<Rightarrow> ret None
                     | Some sv \<Rightarrow>
                         bindE (ino_lookup K (fs_file fs) parent dirid) (\<lambda>dir.
                         ret (Some (path_join (path_join (sv_path sv) dir) name))))))"
  proof (cases "root = FS_TREE_OBJECTID K")
    case True
    then show ?thesis using step by (simp add: gives_ret)
  next
    case False
    then show ?thesis
      unfolding if_not_P [OF False]
    proof (intro gives_bindE [OF gives_root_backref], hypsubst, cases "parent_of K tree root")
      case (Some x)
      then obtain p d name where x: "parent_of K tree root = Some (p, d, name)" by (cases x) simp
      have "path_of root = map_option (\<lambda>up. path_join (path_join up (dirs (p, d))) name) (path_of p)"
        using step False x by simp
      then show "gives known (\<lambda>p. p = path_of root) (case parent_of K tree root of None \<Rightarrow> ret None
         | Some (parent, dirid, name) \<Rightarrow>
             bindE (subvolume_at K fs n parent) (\<lambda>parent_subvolume.
             case parent_subvolume of
               None \<Rightarrow> ret None
             | Some sv \<Rightarrow>
                 bindE (ino_lookup K (fs_file fs) parent dirid) (\<lambda>dir.
                 ret (Some (path_join (path_join (sv_path sv) dir) name)))))"
        unfolding x option.case prod.case
        by (intro gives_bindE [OF up [OF False x]], hypsubst, cases "path_of p")
           (simp_all add: gives_ret gives_bindE [OF dir [OF x]])
    qed (use step False in \<open>simp add: gives_ret\<close>)
  qed
  have opened: "gives known (\<lambda>v. v = found (path_of root)) (case path_of root of None \<Rightarrow> ret None
     | Some p \<Rightarrow> bindE (open_subvolume K (fs_file fs) p root) (\<lambda>opened.
         case opened of None \<Rightarrow> ret None | Some _ \<Rightarrow> ret (Some \<lparr>sv_path = p\<rparr>)))"
    by (cases "path_of root") (auto intro!: gives_ret gives_bindE [OF gives_open_subvolume])
  show ?thesis
    unfolding find_subvolume.simps by (rule gives_bindE [OF path]) (simp add: opened)
qed

lemma gives_subvolume_at: "rank root < n \<Longrightarrow> gives known (\<lambda>v. v = found (path_of root)) (subvolume_at K fs n root)"
proof (induction n arbitrary: root)
  case (Suc n)
  have find: "gives known (\<lambda>v. v = found (path_of root)) (find_subvolume K fs n root)"
    by (rule gives_find_subvolume) (use Suc nests(1) in \<open>fastforce simp: nested_def\<close>)
  have add: "gives known (\<lambda>_. True) (modifyS (\<lambda>s. s\<lparr>subvolumes := (subvolumes s)(root \<mapsto> found (path_of root))\<rparr>))"
    by (rule gives_modifyS) (auto simp: known_def remembers_def pool_ok_def map_le_def)
  show ?case
    unfolding subvolume_at.simps
  proof (rule gives_bindE [OF gives_getS])
    fix s assume s: "known s"
    show "gives known (\<lambda>v. v = found (path_of root)) (case subvolumes s root of Some v \<Rightarrow> ret v
       | None \<Rightarrow> bindE (find_subvolume K fs n root) (\<lambda>found.
           bindE (modifyS (\<lambda>s. s\<lparr>subvolumes := (subvolumes s)(root \<mapsto> found)\<rparr>)) (\<lambda>_. ret found)))"
    proof (cases "subvolumes s root")
      case None
      show ?thesis
        unfolding None option.case
        by (rule gives_bindE [OF find], hypsubst, rule gives_bindE [OF add], rule gives_ret, rule refl)
    next
      case (Some v)
      with s have "v = found (path_of root)" by (force simp: known_def remembers_def map_le_def)
      with Some show ?thesis by (simp add: gives_ret)
    qed
  qed
qed simp

text \<open>The name of an inode, below its subvolume.\<close>

lemma gives_inode_path:
  "gives known (\<lambda>p. p = (case path_of root of None \<Rightarrow> None | Some up \<Rightarrow> map_option (path_join up) (names (root, inode))))
     (inode_path K fs root inode)"
proof (cases "path_of root")
  case None
  then show ?thesis
    unfolding inode_path_def subvolume_of_def
    by (intro gives_bindE [OF gives_subvolume_at [OF nests(2)]]) (simp add: gives_ret)
next
  case (Some up)
  have list: "gives known (\<lambda>(n, bytes). first_name n bytes (names (root, inode)))
      (sys_call (k_ino_paths K f inode (16 + INO_PATH_DATA_SIZE)))" if "ident f = (root, FIRST_FREE_OBJECTID K)" for f
    by (rule gives_call [OF reads_sys_call(3) [OF reads]]) (use lists [OF _ that] in auto)
  show ?thesis
    unfolding inode_path_def subvolume_of_def
    by (rule gives_bindE [OF gives_subvolume_at [OF nests(2)]], simp add: Some,
        rule gives_bindE [OF gives_open_subvolume [OF Some]], elim exE conjE, simp,
        rule gives_bindE [OF list], assumption)
       (auto simp: first_name_def Let_def intro!: gives_ret)
qed

end

section \<open>A subvolume below the top\<close>

text \<open>Subvolume 7 is in the top-level subvolume, as \<open>x\<close> in its directory 258, which is \<open>d\<close>. Descriptors
  are the inodes they are on.\<close>

definition nest_tree :: "u64 \<Rightarrow> item list" where
  "nest_tree t = (if t = 1
     then [(\<lparr>sh_transid = 9, sh_objectid = 7, sh_offset = 5, sh_type = 144, sh_len = 19\<rparr>,
            [2,1,0,0,0,0,0,0, 0,0,0,0,0,0,0,0, 1,0, 120])]
     else [])"

definition nest_kernel :: "(unit, u64 \<times> u64) kernel" where
  "nest_kernel = (tree_kernel nest_tree)
     \<lparr>k_openat2 := (\<lambda>_ p _ _ w. (if p = ''.'' then Inr (5, 256) else if p = ''d/x'' then Inr (7, 256) else Inl (OsError 2), w)),
      k_metadata := (\<lambda>f w. (Inr \<lparr>md_ino = snd f, md_len = 0, md_is_dir = True, md_modified = Inr 0\<rparr>, w)),
      k_ino_lookup := (\<lambda>f t _ w. (Inr (if t = 0 then (fst f, []) else (t, [100, 47])), w)),
      k_ino_paths := (\<lambda>_ _ _ w. (Inr (1, [8, 0, 0, 0, 0, 0, 0, 0, 97, 0]), w))\<rparr>"

lemmas nest_kernel_simps = nest_kernel_def tree_kernel_def sample_kernel_simps

definition nest_fs :: "(u64 \<times> u64) filesystem" where
  "nest_fs = \<lparr>fs_file = (5, 256), fs_private = (5, 256), fs_mount = ''/mnt'', fs_sectorsize = 4096, fs_read_only = False\<rparr>"

definition nest_rank :: "u64 \<Rightarrow> nat" where
  "nest_rank root = (if root = 7 then 1 else 0)"

lemma nest_parent: "parent_of nest_kernel nest_tree root = (if root = 7 then Some (5, 258, ''x'') else None)"
proof -
  have "char_of (120 :: nat) = CHR ''x''" by code_simp
  then show ?thesis
    by (auto simp: parent_of_def range_items_def nest_tree_def item_key_def backref_of_def read_struct_def le_field_def
        bytes_path_def nest_kernel_simps Let_def)
qed

lemma nest_path: "subvolume_path nest_kernel nest_tree (\<lambda>_. ''d/'') nest_rank root =
    (if root = 5 then Some [] else if root = 7 then Some ''d/x'' else None)"
  by (simp add: subvolume_path_def nest_rank_def nest_parent path_join_def) (simp add: nest_kernel_simps)

lemma nest_calls:
  "k_openat2 nest_kernel f p fl r w = (if p = ''.'' then Inr (5, 256) else if p = ''d/x'' then Inr (7, 256) else Inl (OsError 2), w)"
  "k_metadata nest_kernel f w = (Inr \<lparr>md_ino = snd f, md_len = 0, md_is_dir = True, md_modified = Inr 0\<rparr>, w)"
  "k_ino_lookup nest_kernel f t i w = (Inr (if t = 0 then (fst f, []) else (t, [100, 47])), w)"
  "FIRST_FREE_OBJECTID nest_kernel = 256"
  by (simp_all add: nest_kernel_simps)

lemma nest_names: "char_of (100 :: nat) = CHR ''d''" "char_of (47 :: nat) = CHR ''/''"
  by code_simp+

interpretation nest: naming nest_kernel nest_fs "\<lambda>_. True" "\<lambda>f. f" nest_tree nest_rank "\<lambda>_. ''d/''" "\<lambda>_. Some ''a''"
proof
  show "serves nest_kernel nest_tree w" for w
    by (rule serves_trees) (simp_all add: nest_kernel_simps tree_fits_def nest_tree_def BUF_SIZE_def)
  show "tree_ok (nest_tree t)" for t by (simp add: tree_ok_def nest_tree_def MAX_ITEM_SIZE_def BUF_SIZE_def)
  show "length (nest_tree t) < rounds nest_kernel" for t by (simp add: nest_tree_def nest_kernel_simps)
  show "nested nest_kernel nest_tree nest_rank" by (simp add: nested_def nest_parent nest_rank_def)
  show "nest_rank root < rounds nest_kernel" for root by (simp add: nest_rank_def nest_kernel_simps)
  have "char_of (97 :: nat) = CHR ''a''" by code_simp
  then show "\<exists>n bytes. fst (k_ino_paths nest_kernel f inode (16 + INO_PATH_DATA_SIZE) w) = Inr (n, bytes) \<and>
      first_name n bytes (Some ''a'')" for f inode w
    by (simp add: nest_kernel_simps first_name_def Let_def INO_PATH_DATA_SIZE_def cstr_bytes_def bytes_path_def)
  show "reads_keep nest_kernel (\<lambda>_. True)" by (simp add: reads_keep_def)
qed (auto simp: nest_parent nest_path identifies_def nest_calls nest_names bytes_path_def cstr_bytes_def split: if_splits)


end
