(* ===== verification/Runner.thy ===== *)
theory Runner
  imports Redirect
begin

text \<open>
  The account of a run (\<open>Report\<close>, \<open>Runner\<close> of src/run.rs): one extent processed at a time, rewritten
  or, on a dry run, only counted; failures filed under what they mean, or handed back where nothing
  after them could succeed.

  \<open>rn_printed\<close> is what the runner has printed to standard output, line by line.
\<close>

section \<open>Failures, filed\<close>

text \<open>\<open>Report::failed\<close>: the error that ends the run, or the reason the extent is left alone.\<close>

definition Report_failed :: "('w, 'f) kernel \<Rightarrow> failure \<Rightarrow> report \<Rightarrow> (io_error + left_alone option) \<times> report" where
  "Report_failed K failure rp =
     (case fatal K (fl_error failure) of
        Some hint \<Rightarrow>
          (Inl (CustomError (kind_of (fl_error failure))
             (''stopped at '' @ fl_path failure @ '': '' @ show_error K (fl_error failure) @ '': '' @ hint)), rp)
      | None \<Rightarrow>
          (let entry = (fl_path failure, show_error K (fl_error failure))
           in (Inr (Some Failed),
               if kind_of (fl_error failure) = InvalidData then rp\<lparr>rp_modified := rp_modified rp @ [entry]\<rparr>
               else rp\<lparr>rp_skipped := rp_skipped rp @ [entry]\<rparr>)))"

text \<open>\<open>describe\<close>; \<open>None\<close> is the panic of \<open>holders[0]\<close>.\<close>

definition shared_with :: "nat \<Rightarrow> string" where
  "shared_with n =
     (if n = 0 then []
      else if n = 1 then '' (shared with 1 other file)''
      else '' (shared with '' @ show_nat n @ '' other files)'')"

definition describe :: "extent \<Rightarrow> located list \<Rightarrow> bool \<Rightarrow> string option" where
  "describe e hs applied =
     (case hs of
        [] \<Rightarrow> None
      | h # _ \<Rightarrow>
          (let copied = human (live_uncompressed_bytes e); freed = human (disk_free_bytes e);
               others = shared_with (length hs - 1)
           in Some (if applied
                    then lc_path h @ '': copied '' @ copied @ '', freed '' @ freed @ others
                    else lc_path h @ '': would copy '' @ copied @ '' to free '' @ freed @ others)))"

section \<open>The runner\<close>

text \<open>\<open>Options\<close> of src/lib.rs.\<close>

record options =
  op_path :: path
  op_apply :: bool

record runner =
  rn_options :: options
  rn_report :: report
  rn_printed :: "string list"

definition Runner_new :: "options \<Rightarrow> runner" where
  "Runner_new opts =
     \<lparr>rn_options = opts, rn_report = Report_default,
      rn_printed = (if op_apply opts then [''rewriting extents as they are found''] else [])\<rparr>"

definition count_rewritten :: "extent \<Rightarrow> report \<Rightarrow> report" where
  "count_rewritten e rp =
     rp\<lparr>rp_copied_bytes := rp_copied_bytes rp + live_uncompressed_bytes e,
        rp_freed_bytes := rp_freed_bytes rp + disk_free_bytes e,
        rp_rewritten := rp_rewritten rp @ [e_disk_address e]\<rparr>"

definition failed :: "('w, 'f) kernel \<Rightarrow> failure \<Rightarrow> runner \<Rightarrow> (io_error + left_alone option) \<times> runner" where
  "failed K failure rn =
     (let (result, rp) = Report_failed K failure (rn_report rn) in (result, rn\<lparr>rn_report := rp\<rparr>))"

text \<open>\<open>Runner::process\<close>. Its result is the source's \<open>io::Result<Option<LeftAlone>>\<close>, with the runner as
  it is left. The line of a dry run goes to the log, and is only made where that is shown.\<close>

definition Runner_process ::
  "('w, 'f) kernel \<Rightarrow> 'f filesystem \<Rightarrow> extent \<Rightarrow> runner \<Rightarrow> ('w, (io_error + left_alone option) \<times> runner) io"
where
  "Runner_process K fs e rn =
     matchE (locate_holders K fs e)
       (\<lambda>located.
          case located of
            Inl reason \<Rightarrow> ret (Inr (Some reason), rn)
          | Inr hs \<Rightarrow>
              matchE (if op_apply (rn_options rn) then realloc_extent K fs e hs else ret ())
                (\<lambda>_.
                   bindE (if op_apply (rn_options rn)
                          then bindE (unwrap (describe e hs True)) (\<lambda>line. ret [line])
                          else ret []) (\<lambda>lines.
                   ret (Inr None, rn\<lparr>rn_printed := rn_printed rn @ lines,
                                     rn_report := count_rewritten e (rn_report rn)\<rparr>)))
                (\<lambda>failure. ret (failed K failure rn)))
       (\<lambda>failure. ret (failed K failure rn))"

definition Runner_finish :: "runner \<Rightarrow> report \<times> string list" where
  "Runner_finish rn =
     (let rp = rn_report rn
      in if \<not> op_apply (rn_options rn) then (rp, rn_printed rn)
         else (rp, rn_printed rn
           @ [[], ''copied '' @ human (rp_copied_bytes rp) @ '' to free '' @ human (rp_freed_bytes rp) @ '' from ''
                  @ show_nat (length (rp_rewritten rp)) @ '' extents'']
           @ (if rp_skipped rp \<noteq> []
              then [show_nat (length (rp_skipped rp)) @ '' extents could not be rewritten''] else [])
           @ (if rp_modified rp \<noteq> []
              then [show_nat (length (rp_modified rp))
                    @ '' files were modified by something else while they were being rewritten''] else [])))"

section \<open>What is located\<close>

definition fit_to_rewrite :: "('w, 'f) kernel \<Rightarrow> ('f \<Rightarrow> u64 \<times> u64) \<Rightarrow> 'f filesystem \<Rightarrow> located \<Rightarrow> bool" where
  "fit_to_rewrite K ident fs l \<longleftrightarrow>
     lc_path l = path_join (fs_mount fs) (lc_name l) \<and>
     (\<exists>f flags meta fin t t' u u'. ident f = file_of_located l
        \<and> sys_call (k_get_flags K f) t = (Inr flags, t') \<and> flags AND FS_NOCOW_FL K = 0
        \<and> sys_call (k_metadata K f) u = (Inr meta, u')
        \<and> next_multiple_of (md_len meta) (fs_sectorsize fs) = Some fin
        \<and> (\<forall>r \<in> set (h_refs (lc_holder l)). ref_end r \<le> fin))"

lemma locate_loop_Inr:
  assumes "identifies K ident" and "locate_loop K fs hs located s = (Inr (Inr ls), s')"
  shows "\<exists>new. ls = located @ new \<and> map lc_holder new = hs \<and> list_all (fit_to_rewrite K ident fs) new"
  using assms(2)
proof (induction hs arbitrary: located s)
  case (Cons h hs)
  obtain name l f t0 t1 nocow t2 meta t3 fin where
    l: "l = \<lparr>lc_name = name, lc_path = display_path fs name, lc_holder = h\<rparr>"
    and opened: "Located_open K fs l t0 = (Inr f, t1)"
    and nocow: "is_nocow K f t1 = (Inr nocow, t2)" "\<not> nocow"
    and meta: "sys_call (k_metadata K f) t2 = (Inr meta, t3)"
    and fin: "next_multiple_of (md_len meta) (fs_sectorsize fs) = Some fin"
    and fits: "\<not> list_ex (\<lambda>r. fin < ref_end r) (h_refs h)"
    and rest: "locate_loop K fs hs (located @ [l]) t3 = (Inr (Inr ls), s')"
    using Cons.prems by (auto simp: matchE_Inr bindE_Inr Let_def split: option.splits if_splits)
  from nocow obtain flags where flags: "sys_call (k_get_flags K f) t1 = (Inr flags, t2)" "flags AND FS_NOCOW_FL K = 0"
    by (auto simp: is_nocow_def get_flags_def bindE_Inr)
  have "\<forall>r \<in> set (h_refs (lc_holder l)). ref_end r \<le> fin"
    using fits by (auto simp: l list_ex_iff not_less)
  moreover have "lc_path l = path_join (fs_mount fs) (lc_name l)" by (simp add: l display_path_def)
  ultimately have "fit_to_rewrite K ident fs l"
    unfolding fit_to_rewrite_def
    using Located_open_ident [OF assms(1) opened] flags meta fin by blast
  with Cons.IH [OF rest] l show ?case by auto
qed simp

text \<open>
  C20: An extent is only rewritten when every file that holds it can be, as it is found: the located
  files are its holders, all of them and in order; and each was opened, found to be the very inode
  the extent tree names, not to be nodatacow, and to reach, its size rounded up to a sector, the end
  of each of its references.
\<close>

theorem locate_holders_all:
  assumes "identifies K ident" and "locate_holders K fs e s = (Inr (Inr hs), s')"
  shows "map lc_holder hs = holders e \<and> list_all (fit_to_rewrite K ident fs) hs"
  using locate_loop_Inr [OF assms(1), of fs "holders e" "[]" s hs s'] assms(2)
  by (auto simp: locate_holders_def)

lemma holders_not_empty: "e_refs e \<noteq> [] \<Longrightarrow> holders e \<noteq> []"
  using arg_cong [OF concat_holder_refs [of e], of length] by auto

section \<open>What is reported\<close>

text \<open>
  Failures are filed by what they mean. Running out of space or quota, a filesystem gone
  read-only, an I/O error or corruption end the run, with an error of the same kind that names the
  file and says why, and nothing is filed; every other failure leaves its extent alone, and is filed
  once: under the modified files exactly when the file was found changed by someone else, as the
  kind \<open>InvalidData\<close> says, under the skipped ones otherwise.
\<close>

lemma Report_failed_files:
  "Report_failed K failure rp =
     (if raw_os_error (fl_error failure) \<in> Some ` {ENOSPC K, EDQUOT K, EROFS K, EIO K, EUCLEAN K}
      then (Inl (CustomError (kind_of (fl_error failure))
                  (''stopped at '' @ fl_path failure @ '': '' @ show_error K (fl_error failure) @ '': ''
                   @ the (fatal K (fl_error failure)))), rp)
      else (Inr (Some Failed),
            if kind_of (fl_error failure) = InvalidData
            then rp\<lparr>rp_modified := rp_modified rp @ [(fl_path failure, show_error K (fl_error failure))]\<rparr>
            else rp\<lparr>rp_skipped := rp_skipped rp @ [(fl_path failure, show_error K (fl_error failure))]\<rparr>))"
proof -
  have "raw_os_error (fl_error failure) \<in> Some ` {ENOSPC K, EDQUOT K, EROFS K, EIO K, EUCLEAN K}
      \<longleftrightarrow> fatal K (fl_error failure) \<noteq> None"
    by (auto simp: fatal_def split: option.splits)
  then show ?thesis by (auto simp: Report_failed_def Let_def split: option.splits)
qed

text \<open>What processing one extent adds to the account.\<close>

definition accounted :: "extent \<Rightarrow> runner \<Rightarrow> (io_error + left_alone option) \<times> runner \<Rightarrow> bool" where
  "accounted e rn x \<longleftrightarrow>
     (case x of (result, rn') \<Rightarrow>
        rn_options rn' = rn_options rn \<and>
        (case result of
           Inl _ \<Rightarrow> rn_report rn' = rn_report rn
         | Inr None \<Rightarrow> rn_report rn' = count_rewritten e (rn_report rn)
         | Inr (Some reason) \<Rightarrow>
             (if reason = Failed
              then \<exists>entry. rn_report rn' = (rn_report rn)\<lparr>rp_modified := rp_modified (rn_report rn) @ [entry]\<rparr>
                     \<or> rn_report rn' = (rn_report rn)\<lparr>rp_skipped := rp_skipped (rn_report rn) @ [entry]\<rparr>
              else rn_report rn' = rn_report rn)))"

lemma accounted_failed: "accounted e rn (failed K failure rn)"
  by (auto simp: accounted_def failed_def Report_failed_def Let_def split: option.splits)

lemma locate_loop_reason:
  "locate_loop K fs hs located s = (Inr (Inl reason), s') \<Longrightarrow> reason \<noteq> Failed"
  by (induction hs arbitrary: located s)
     (auto simp: matchE_Inr bindE_Inr Let_def split: option.splits if_splits)

lemma Runner_process_Inr:
  fixes K :: "('w, 'f) kernel"
  assumes "Runner_process K fs e rn s = (Inr x, s')"
  shows "accounted e rn x"
proof -
  let ?go = "\<lambda>hs. matchE (if op_apply (rn_options rn) then realloc_extent K fs e hs else ret ())
      (\<lambda>_. bindE (if op_apply (rn_options rn) then bindE (unwrap (describe e hs True)) (\<lambda>line. ret [line]) else ret []) (\<lambda>lines.
           ret (Inr None, rn\<lparr>rn_printed := rn_printed rn @ lines, rn_report := count_rewritten e (rn_report rn)\<rparr>)))
      (\<lambda>failure. ret (failed K failure rn)) :: ('w, _) io"
  from assms consider
    (reason) reason t where "locate_holders K fs e s = (Inr (Inl reason), t)" "x = (Inr (Some reason), rn)"
  | (holders) hs t where "?go hs t = (Inr x, s')"
  | (failed) failure where "x = failed K failure rn"
    unfolding Runner_process_def matchE_Inr [of "locate_holders K fs e"]
    by (elim disjE exE conjE) (auto split: sum.split_asm)
  then show ?thesis
  proof cases
    case reason
    then show ?thesis
      using locate_loop_reason [of K fs "holders e" "[]" s reason t]
      by (simp add: accounted_def locate_holders_def)
  next
    case holders
    then show ?thesis
      by (auto simp: matchE_Inr bindE_Inr accounted_failed) (simp_all add: accounted_def)
  qed (simp add: accounted_failed)
qed

text \<open>A dry run prints nothing here.\<close>

lemma Runner_process_silent:
  fixes K :: "('w, 'f) kernel"
  assumes "Runner_process K fs e rn s = (Inr (result, rn'), s')" and "\<not> op_apply (rn_options rn)"
  shows "rn_printed rn' = rn_printed rn"
proof -
  have failed: "rn_printed (snd (failed K failure rn)) = rn_printed rn" for failure
    by (simp add: failed_def split: prod.split)
  have any: "wp (locate_holders K fs e) (\<lambda>_ _. True) (\<lambda>_ _. True) s"
    by (simp add: wp_def split: prod.split sum.split)
  have "wp (Runner_process K fs e rn) (\<lambda>x _. rn_printed (snd x) = rn_printed rn) (\<lambda>_ _. True) s"
    unfolding Runner_process_def wp_matchE
  proof (rule wp_mono [OF any])
    fix located s'
    show "wp (case located of
            Inl reason \<Rightarrow> ret (Inr (Some reason), rn)
          | Inr hs \<Rightarrow>
              matchE (if op_apply (rn_options rn) then realloc_extent K fs e hs else ret ())
                (\<lambda>_. bindE (if op_apply (rn_options rn)
                          then bindE (unwrap (describe e hs True)) (\<lambda>line. ret [line])
                          else ret []) (\<lambda>lines.
                   ret (Inr None, rn\<lparr>rn_printed := rn_printed rn @ lines,
                                     rn_report := count_rewritten e (rn_report rn)\<rparr>)))
                (\<lambda>failure. ret (failed K failure rn)))
         (\<lambda>x _. rn_printed (snd x) = rn_printed rn) (\<lambda>_ _. True) s'"
      using assms(2) by (simp add: wp_simps split: sum.split)
  qed (simp add: wp_simps failed split: stop.split)
  from wp_ok [OF this assms(1)] show ?thesis by simp
qed

section \<open>What a run may touch\<close>

lemma reads_Runner_process:
  assumes "reads_keep K J" and "\<not> op_apply (rn_options rn)"
  shows "preserves (\<lambda>s. J (world s)) (Runner_process K fs e rn)"
  unfolding Runner_process_def
  by (intro preserve reads_locate_holders [OF assms(1)]) (use assms(2) in simp)

lemma temps_Runner_process:
  assumes "temps_keep K temp J"
  shows "preserves (\<lambda>s. J (world s)) (Runner_process K fs e rn)"
  unfolding Runner_process_def
  by (intro preserve reads_locate_holders temps_realloc_extent [OF assms] temps_reads [OF assms])

section \<open>The small file system, located\<close>

definition known_sys :: "unit sys" where
  "known_sys = (sample_sys ())\<lparr>subvolumes := [5 \<mapsto> Some \<lparr>sv_path = []\<rparr>]\<rparr>"

lemma live_more_calls:
  "k_openat2 live_kernel d p fl r w = (Inr (), w)" "k_ino_lookup live_kernel f t i w = (Inr (5, []), w)"
  "k_get_flags live_kernel f w = (Inr 0, w)"
  "k_ino_paths live_kernel f i n w = (Inr (1, [8, 0, 0, 0, 0, 0, 0, 0, 97, 0]), w)"
  "FIRST_FREE_OBJECTID live_kernel = 256"
  by (simp_all add: live_kernel_def file_kernel_simps)

lemma live_top: "open_subvolume live_kernel () [] 5 s = (Inr (Some ()), s)"
  by (simp add: open_subvolume_def open_beneath_def own_root_id_def ino_lookup_args_def matchE_def bindE_def sys_call_def
      live_calls live_more_calls Let_def ret_def)

lemma char_97: "char_of (97 :: nat) = CHR ''a''"
  by code_simp

lemma live_path: "inode_path live_kernel live_fs 5 256 known_sys = (Inr (Some ''a''), known_sys)"
proof -
  have "subvolume_of live_kernel live_fs 5 known_sys = (Inr (Some \<lparr>sv_path = []\<rparr>), known_sys)"
  proof -
    have "subvolume_at live_kernel live_fs (Suc n) 5 known_sys = (Inr (Some \<lparr>sv_path = []\<rparr>), known_sys)" for n
      by (simp add: bindE_def known_sys_def getS_def ret_def)
    then show ?thesis unfolding subvolume_of_def live_kernel_rounds .
  qed
  then show ?thesis
    by (simp add: inode_path_def bindE_def live_top sys_call_def live_more_calls INO_PATH_DATA_SIZE_def Let_def
       path_join_def bytes_path_def cstr_bytes_def char_97 ret_def)
qed

lemma live_locate: "locate_holders live_kernel live_fs live_extent known_sys = (Inr (Inr [live_located]), known_sys)"
proof -
  have l: "\<lparr>lc_name = ''a'', lc_path = display_path live_fs ''a'', lc_holder = lc_holder live_located\<rparr> = live_located"
    by (simp add: live_located_def display_path_def path_join_def live_fs_def file_fs_def)
  have nocow: "is_nocow live_kernel () s = (Inr False, s)" for s
    by (simp add: is_nocow_def get_flags_def bindE_def sys_call_def live_more_calls ret_def)
  have "h_root (lc_holder live_located) = 5" "h_inode (lc_holder live_located) = 256"
    "h_refs (lc_holder live_located) = [live_ref]" by (simp_all add: live_located_def)
  then show ?thesis
    by (simp add: locate_holders_def matchE_def live_path Let_def l bindE_def live_open map_err_def nocow sys_call_def live_calls
        next_multiple_of_def unwrap_def ref_end_def ret_def)
qed

lemma locate_holders_all_witness:
  "locate_holders live_kernel live_fs live_extent known_sys = (Inr (Inr [live_located]), known_sys)
     \<and> fit_to_rewrite live_kernel (\<lambda>_. (5, 256)) live_fs live_located"
  using locate_holders_all [OF file_view_facts(1) [OF live_view] live_locate] live_locate by simp

end
