(* ===== verification/Applied.thy ===== *)
theory Applied
  imports Succeeds Paths Runner
begin

text \<open>
  One extent of a run with --apply, from the extent tree's account of it to the line that is printed
  (\<open>Runner::process\<close> of src/run.rs): finding its holders by name (\<open>Paths\<close>), rewriting it (\<open>Succeeds\<close>) and
  reporting it (\<open>Runner\<close>) come together.
\<close>

section \<open>Keeping what the handle remembers\<close>

interpretation remembering: own_state "remembers A tree dirs rank"
  for A :: "'z abi_scheme" and tree dirs rank
  by unfold_locales (simp add: remembers_def)

lemma remembers_Located_open: "preserves (remembers A tree dirs rank) (Located_open K fs h)"
  unfolding Located_open_def open_inode_def open_beneath_def own_root_id_def ino_lookup_args_def Let_def
  by (intro preserve remembering.preserves_sys_call)

lemma gives_steady:
  assumes "safe (steady_in J) P m" and "smooth (steady_in J) Q m" and "\<And>s. I s \<Longrightarrow> J (world s)" and "preserves I m"
  shows "gives I (\<lambda>x. P x \<and> Q x) m"
  unfolding gives_def
proof (intro allI impI)
  fix s assume I: "I s"
  have J: "J (world s)" by (rule assms(3) [OF I])
  from wp_conj [OF wp_conj [OF safe_wp [OF assms(1) J] smooth_wp [OF assms(2) J]] preserves_wp [OF assms(4) I]]
  show "wp m (\<lambda>x s. I s \<and> P x \<and> Q x) (\<lambda>_ _. False) s" by (rule wp_mono) auto
qed

section \<open>An extent that can be rewritten\<close>

text \<open>How a holder is located: by the path the trees and the kernel give it.\<close>

definition located_at :: "'f filesystem \<Rightarrow> (holder \<Rightarrow> path) \<Rightarrow> holder \<Rightarrow> located" where
  "located_at fs pth h = \<lparr>lc_name = pth h, lc_path = display_path fs (pth h), lc_holder = h\<rparr>"

text \<open>Its files have paths, are copied on write, and reach, rounded up to a sector, the ends of its
  references; and on what is found there a rewrite gets done. Before anything moves the file system is
  as \<open>N\<close> says, with the trees \<open>tree0\<close>.\<close>

locale rewritable =
  rw: rewriting K fs "map (located_at fs pth) (holders e)" temp J ident D content sz mtime points temps e data tree +
  nm: naming K fs N ident tree0 rank dirs names
  for K :: "('w, 'f) kernel" and fs pth temp J ident D content sz mtime points temps e data tree N tree0 rank dirs names +
  assumes start: "N w \<Longrightarrow> J w"
    and has_path: "h \<in> set (holders e) \<Longrightarrow>
        (case subvolume_path K tree0 dirs rank (h_root h) of
           None \<Rightarrow> None | Some up \<Rightarrow> map_option (path_join up) (names (h_root h, h_inode h))) = Some (pth h)"
    and copies: "N w \<Longrightarrow> ident f \<in> D \<Longrightarrow> \<exists>flags. fst (k_get_flags K f w) = Inr flags \<and> flags AND FS_NOCOW_FL K = 0"
    and within: "h \<in> set (holders e) \<Longrightarrow> r \<in> set (h_refs h) \<Longrightarrow>
        next_multiple_of (sz (h_root h, h_inode h)) (fs_sectorsize fs) = Some n \<Longrightarrow> ref_end r \<le> n"
    and some_refs: "e_refs e \<noteq> []"
begin

lemma known_start: "nm.known s \<Longrightarrow> J (world s)"
  by (simp add: nm.known_def start)

lemma gives_open:
  assumes "h \<in> set (holders e)"
  shows "gives nm.known (\<lambda>f. ident f = (h_root h, h_inode h)) (Located_open K fs (located_at fs pth h))"
proof -
  let ?l = "located_at fs pth h"
  have l: "?l \<in> set (map (located_at fs pth) (holders e))" using assms by simp
  have "preserves nm.known (Located_open K fs ?l)"
    unfolding nm.known_def preserves_def
    using preservesD [OF reads_Located_open [OF nm.reads]] preservesD [OF pool_Located_open] preservesD [OF remembers_Located_open]
    by blast
  from gives_steady [OF safe_Located_open [OF rw.known_ident rw.read_only] rw.smooth_open [OF l] known_start this]
  show ?thesis by (rule gives_weaken) (simp_all add: located_at_def)
qed

lemma file_known: "h \<in> set (holders e) \<Longrightarrow> (h_root h, h_inode h) \<in> D"
  using rw.known [of "located_at fs pth h"] by (simp add: located_at_def)

lemma gives_nocow:
  assumes "ident f \<in> D"
  shows "gives nm.known (\<lambda>nocow. \<not> nocow) (is_nocow K f)"
  unfolding is_nocow_def get_flags_def
  by (rule gives_bindE [OF nm.gives_call [OF reads_sys_call(11) [OF nm.reads] copies [OF _ assms]]]) (simp_all add: gives_ret)

lemma gives_metadata:
  assumes "ident f \<in> D"
  shows "gives nm.known (\<lambda>meta. md_len meta = sz (ident f)) (sys_call (k_metadata K f))"
  by (rule gives_weaken [OF gives_steady [OF safe_metadata_len [OF rw.view assms] rw.smooth_metadata [OF assms] known_start
        nm.known_call [OF reads_sys_call(10) [OF nm.reads]]]]) simp_all

lemma gives_locate_loop:
  "set hs \<subseteq> set (holders e) \<Longrightarrow>
     gives nm.known (\<lambda>r. r = Inr (located @ map (located_at fs pth) hs)) (locate_loop K fs hs located)"
proof (induction hs arbitrary: located)
  case (Cons h hs)
  then have h: "h \<in> set (holders e)" by simp
  let ?l = "located_at fs pth h"
  have path: "gives nm.known (\<lambda>p. p = Some (pth h)) (inode_path K fs (h_root h) (h_inode h))"
    by (rule gives_weaken [OF nm.gives_inode_path]) (simp add: has_path [OF h])
  obtain n where n: "next_multiple_of (sz (h_root h, h_inode h)) (fs_sectorsize fs) = Some n"
    using rw.sector by (simp add: next_multiple_of_def)
  have fits: "\<not> list_ex (\<lambda>r. n < ref_end r) (h_refs h)"
    using within [OF h _ n] by (auto simp: list_ex_iff not_less)
  have l: "\<lparr>lc_name = pth h, lc_path = display_path fs (pth h), lc_holder = h\<rparr> = ?l" by (simp add: located_at_def)
  have rest: "gives nm.known (\<lambda>r. r = Inr (located @ map (located_at fs pth) (h # hs)))
      (bindE (map_err E (is_nocow K f)) (\<lambda>nocow.
         if nocow then ret (Inl NoDataCow)
         else bindE (map_err E (sys_call (k_metadata K f))) (\<lambda>meta.
              bindE (unwrap (next_multiple_of (md_len meta) (fs_sectorsize fs))) (\<lambda>fin.
              if list_ex (\<lambda>r. fin < ref_end r) (h_refs h) then ret (Inl PastEnd)
              else locate_loop K fs hs (located @ [?l])))))"
    if f: "ident f = (h_root h, h_inode h)" for f E
  proof -
    have D: "ident f \<in> D" using file_known [OF h] f by simp
    have "gives nm.known (\<lambda>r. r = Inr (located @ map (located_at fs pth) (h # hs))) (locate_loop K fs hs (located @ [?l]))"
      using Cons.IH [of "located @ [?l]"] Cons.prems by simp
    then have "gives nm.known (\<lambda>r. r = Inr (located @ map (located_at fs pth) (h # hs)))
        (bindE (unwrap (next_multiple_of (md_len meta) (fs_sectorsize fs))) (\<lambda>fin.
              if list_ex (\<lambda>r. fin < ref_end r) (h_refs h) then ret (Inl PastEnd)
              else locate_loop K fs hs (located @ [?l])))" if "md_len meta = sz (ident f)" for meta
      by (intro gives_bindE [OF gives_unwrap [where Q = "\<lambda>y. y = n"]]) (use that f n fits in simp_all)
    from gives_bindE [OF gives_map_err [OF gives_metadata [OF D]] this] show ?thesis
      by (intro gives_bindE [OF gives_map_err [OF gives_nocow [OF D]]]) simp
  qed
  show ?case
    unfolding locate_loop.simps
    by (rule gives_matchE [OF path], hypsubst, unfold option.case Let_def l, rule gives_bindE [OF gives_open [OF h]], rule rest)
qed (simp add: gives_ret)

lemma gives_located: "gives nm.known (\<lambda>r. r = Inr (map (located_at fs pth) (holders e))) (locate_holders K fs e)"
  unfolding locate_holders_def using gives_locate_loop [of "holders e" "[]"] by simp

text \<open>Finding the holders leaves what is shared, and what temporaries hold, as they were.\<close>

lemma faithful_located:
  assumes "locate_holders K fs e s = (r, s')" and "faithful content points temps (world s)"
  shows "faithful content points temps (world s')"
proof -
  note locating = preserves_end [OF reads_locate_holders _ assms(1)]
  have "points (world s') = points (world s)" "temps (world s') = temps (world s)"
    by (rule locating [OF staging_facts(6) [OF rw.staging]], rule refl, rule locating [OF staging_facts(7) [OF rw.staging]], rule refl)
  with assms(2) show ?thesis by (simp add: faithful_def given_def)
qed

end


section \<open>The small file system, located and rewritten\<close>

lemma copy_located: "map (located_at copy_fs (\<lambda>_. ''a'')) (holders live_extent) = [live_located]"
  by (simp add: located_at_def live_located_def display_path_def path_join_def copy_fs_def)

lemma copy_path: "subvolume_path (copy_kernel held_tree) (held_tree copy_start) (\<lambda>_. []) (\<lambda>_. 0) root =
    (if root = 5 then Some [] else None)"
proof -
  have "parent_of (copy_kernel held_tree) (held_tree copy_start) root = None"
    by (simp add: parent_of_def range_items_def held_tree_def copy_kernel_simps)
  then show ?thesis by (simp add: subvolume_path_def) (simp add: copy_kernel_simps)
qed

lemma copy_more_calls:
  "O_TMPFILE \<notin> fl \<Longrightarrow> k_openat2 (copy_kernel T) d p fl r w = (Inr 0, w)"
  "k_ino_lookup (copy_kernel T) f t i w = (Inr (5, []), w)" "FIRST_FREE_OBJECTID (copy_kernel T) = 256"
  by (simp_all add: copy_kernel_simps split: prod.split)

lemma copy_naming:
  "naming (copy_kernel held_tree) copy_fs (\<lambda>w. w = copy_start) (\<lambda>f. (5, if f = 0 then 256 else 257)) (held_tree copy_start)
     (\<lambda>_. 0) (\<lambda>_. []) (\<lambda>_. Some ''a'')"
proof
  have parent: "parent_of (copy_kernel held_tree) (held_tree copy_start) root = None" for root
    by (simp add: parent_of_def range_items_def held_tree_def copy_kernel_simps)
  then show "nested (copy_kernel held_tree) (held_tree copy_start) (\<lambda>_. 0)" by (simp add: nested_def)
  show "\<exists>t bytes. fst (k_ino_lookup (copy_kernel held_tree) (fs_file copy_fs) p d w) = Inr (t, bytes) \<and>
      bytes_path (cstr_bytes bytes) = []" if "parent_of (copy_kernel held_tree) (held_tree copy_start) root = Some (p, d, name)"
    for w root p d name using that parent by simp
  show "reads_keep (copy_kernel held_tree) (\<lambda>w. w = copy_start)" by (rule copy_reads)
  show "serves (copy_kernel held_tree) (held_tree copy_start) w" if "w = copy_start" for w
    unfolding that by (rule serves_trees) (simp_all add: copy_kernel_simps held_tree_fits)
  show "length (held_tree copy_start t) < rounds (copy_kernel held_tree)" for t
    using held_tree_short [of copy_start t] by (simp add: copy_kernel_def)
  show "\<exists>n bytes. fst (k_ino_paths (copy_kernel held_tree) f inode (16 + INO_PATH_DATA_SIZE) w) = Inr (n, bytes) \<and>
      first_name n bytes (Some ''a'')" for f inode w
    by (simp add: copy_kernel_def first_name_def Let_def INO_PATH_DATA_SIZE_def cstr_bytes_def bytes_path_def char_97)
  show "0 < rounds (copy_kernel held_tree)" by (simp add: copy_kernel_def)
qed (auto simp: copy_path held_tree_ok copy_identifies copy_calls copy_more_calls split: if_splits)

interpretation applying: rewritable "copy_kernel held_tree" copy_fs "\<lambda>_. ''a''" "\<lambda>_. True" copy_steady
  "\<lambda>f. (5, if f = 0 then 256 else 257)" "{(5, 256)}" "\<lambda>_ _. 7" "\<lambda>_. 24" "\<lambda>_. 0" fst "fst \<circ> snd" live_extent "\<lambda>_. 7" held_tree
  "\<lambda>w. w = copy_start" "held_tree copy_start" "\<lambda>_. 0" "\<lambda>_. []" "\<lambda>_. Some ''a''"
proof (intro rewritable.intro copy_naming rewritable_axioms.intro)
  show "rewriting (copy_kernel held_tree) copy_fs (map (located_at copy_fs (\<lambda>_. ''a'')) (holders live_extent)) (\<lambda>_. True) copy_steady
     (\<lambda>f. (5, if f = 0 then 256 else 257)) {(5, 256)} (\<lambda>_ _. 7) (\<lambda>_. 24) (\<lambda>_. 0) fst (fst \<circ> snd) live_extent (\<lambda>_. 7) held_tree"
    unfolding copy_located by (rule copying.rewriting_axioms)
  show "copy_steady w" if "w = copy_start" for w using that by (simp add: copy_steady_def copy_start_def)
  show "\<exists>flags. fst (k_get_flags (copy_kernel held_tree) f w) = Inr flags \<and> flags AND FS_NOCOW_FL (copy_kernel held_tree) = 0" for f w
    by (simp add: copy_kernel_simps)
qed (auto simp: copy_path path_join_def live_located_def next_multiple_of_def ref_end_def)


end
