(* ===== verification/Driver.thy ===== *)
theory Driver
  imports Runner
begin

text \<open>
  The whole run: \<open>run\<close> of src/lib.rs, which scans the filesystem and processes each extent as the
  scan hands it over, and \<open>main\<close> of src/main.rs around it.

  A run returns the source's \<open>io::Result\<close> together with the lines printed to standard output. An
  error that the walk or an extent ends the run with is kept in the scanner, as in the source.
\<close>

section \<open>The run\<close>

text \<open>One extent of the \<open>while\<close> loop: whether the loop goes on, and the scanner and runner it leaves.\<close>

definition run_extent ::
  "('w, 'f) kernel \<Rightarrow> 'f filesystem \<Rightarrow> extent \<Rightarrow> scanner \<Rightarrow> runner \<Rightarrow> ('w, bool \<times> scanner \<times> runner) io"
where
  "run_extent K fs e sc rn =
     (if disk_free_bytes e = 0 then ret (True, sc, rn)
      else
        (case not_worth_rewriting e of
           Some reason \<Rightarrow> ret (True, count_left_alone reason (Some e) sc, rn)
         | None \<Rightarrow>
             bindE (Scanner_resolve_again K e sc) (\<lambda>(again, sc).
             case again of
               None \<Rightarrow> ret (True, sc, rn)
             | Some e \<Rightarrow>
                 if disk_free_bytes e = 0 then ret (True, sc, rn)
                 else
                   (case not_worth_rewriting e of
                      Some reason \<Rightarrow> ret (True, count_left_alone reason (Some e) sc, rn)
                    | None \<Rightarrow>
                        bindE (Runner_process K fs e rn) (\<lambda>(result, rn).
                        case result of
                          Inr None \<Rightarrow> ret (True, sc, rn)
                        | Inr (Some reason) \<Rightarrow> ret (True, count_left_alone reason (Some e) sc, rn)
                        | Inl err \<Rightarrow> ret (False, (count_left_alone Failed (Some e) sc)\<lparr>sc_error := Some err\<rparr>, rn))))))"

fun run_loop ::
  "('w, 'f) kernel \<Rightarrow> 'f filesystem \<Rightarrow> nat \<Rightarrow> scanner \<Rightarrow> runner \<Rightarrow> ('w, scanner \<times> runner) io"
where
  "run_loop K fs 0 sc rn = stop NoReturn"
| "run_loop K fs (Suc n) sc rn =
     bindE (Scanner_next K sc) (\<lambda>(next, sc).
     case next of
       None \<Rightarrow> ret (sc, rn)
     | Some e \<Rightarrow>
         bindE (run_extent K fs e sc rn) (\<lambda>(go_on, sc, rn).
         if go_on then run_loop K fs n sc rn else ret (sc, rn)))"

text \<open>What follows the loop.\<close>

definition run_end ::
  "('w, 'f) kernel \<Rightarrow> options \<Rightarrow> 'f filesystem \<Rightarrow> scanner \<Rightarrow> runner
     \<Rightarrow> ('w, (io_error + scan_stats \<times> report) \<times> string list) io"
where
  "run_end K opts fs sc rn =
     (let (report, printed) = Runner_finish rn
      in case sc_error sc of
           Some e \<Rightarrow> ret (Inl e, printed)
         | None \<Rightarrow>
             matchE (if op_apply opts then sync K fs else ret ())
               (\<lambda>_. ret (Inr (sc_stats sc, report), printed))
               (\<lambda>e. ret (Inl e, printed)))"

definition run ::
  "('w, 'f) kernel \<Rightarrow> options \<Rightarrow> ('w, (io_error + scan_stats \<times> report) \<times> string list) io"
where
  "run K opts =
     matchE (Filesystem_open K (op_path opts))
       (\<lambda>fs.
          if op_apply opts \<and> fs_read_only fs
          then ret (Inl (other_error ''mounted read-only: --apply needs the filesystem mounted read-write''), [])
          else
            matchE (Scanner_new K fs)
              (\<lambda>sc.
                 bindE (run_loop K fs (rounds K) sc (Runner_new opts)) (\<lambda>(sc, rn). run_end K opts fs sc rn))
              (\<lambda>e. ret (Inl e, [])))
       (\<lambda>e. ret (Inl e, []))"

section \<open>The program\<close>

text \<open>The levels of the \<open>log\<close> crate, most severe first.\<close>

datatype level = Error | Warn | Info | Debug | Trace

fun level_rank :: "level \<Rightarrow> nat" where
  "level_rank Error = 1"
| "level_rank Warn = 2"
| "level_rank Info = 3"
| "level_rank Debug = 4"
| "level_rank Trace = 5"

text \<open>\<open>Logger\<close>: the lines a record puts on standard error, for the maximum level set.\<close>

definition Logger_enabled :: "level \<Rightarrow> level \<Rightarrow> string \<Rightarrow> bool" where
  "Logger_enabled most level target \<longleftrightarrow>
     level_rank level \<le> level_rank most \<and> take (length ''btrealloc'') target = ''btrealloc''"

definition Logger_log :: "level \<Rightarrow> level \<Rightarrow> string \<Rightarrow> string \<Rightarrow> string list" where
  "Logger_log most level target message =
     (if \<not> Logger_enabled most level target then []
      else (case level of
              Error \<Rightarrow> [''error: '' @ message]
            | Warn \<Rightarrow> [''warning: '' @ message]
            | _ \<Rightarrow> [message]))"

text \<open>\<open>parse_options\<close>: the maximum level to log at, and the options, of what clap makes of the command
  line. The thread pool is set up from \<open>ar_jobs\<close>, which nothing here depends on.\<close>

record args =
  ar_path :: path
  ar_apply :: bool
  ar_verbose :: bool
  ar_jobs :: "nat option"

definition max_level :: "args \<Rightarrow> level" where
  "max_level args = (if ar_verbose args then Info else Warn)"

definition parse_options :: "args \<Rightarrow> options" where
  "parse_options args = \<lparr>op_path = ar_path args, op_apply = ar_apply args\<rparr>"

text \<open>How the program ends: whether the exit code is success, what it has printed to standard output,
  and what \<open>main\<close> itself has logged.\<close>

record ending =
  en_success :: bool
  en_stdout :: "string list"
  en_stderr :: "string list"

text \<open>\<open>main\<close>, for a user id.\<close>

definition main :: "('w, 'f) kernel \<Rightarrow> u32 \<Rightarrow> args \<Rightarrow> ('w, ending) io" where
  "main K euid args =
     (let opts = parse_options args; log_error = Logger_log (max_level args) Error ''btrealloc''
      in if euid \<noteq> 0
         then ret \<lparr>en_success = False, en_stdout = [],
                   en_stderr = log_error ''btrealloc must be run as root, it relies on btrfs ioctls''\<rparr>
         else
           bindE (run K opts) (\<lambda>(result, printed).
           let scanning = (''Scanning: '' @ op_path opts) # printed
           in case result of
                Inl e \<Rightarrow> ret \<lparr>en_success = False, en_stdout = scanning,
                              en_stderr = log_error (op_path opts @ '': '' @ show_error K e)\<rparr>
              | Inr (stats, report) \<Rightarrow>
                  ret \<lparr>en_success = True,
                       en_stdout = scanning @
                         (if op_apply opts then report_left_alone stats
                          else [[]] @ report_lines stats report
                            @ [[], ''Nothing written. Run with --apply to reallocate extents.'']),
                       en_stderr = []\<rparr>))"

section \<open>What a run may touch\<close>

text \<open>What keeps a property whichever extent is processed keeps it for the whole run.\<close>

lemma reads_Scanner_next:
  assumes "reads_keep K J"
  shows "preserves (\<lambda>s. J (world s)) (Scanner_next K sc)"
proof -
  have "preserves (\<lambda>s. J (world s)) (Scanner_next_loop K n sc)" for n
  proof (induction n arbitrary: sc)
    case (Suc n)
    then show ?case
      by (auto simp: Let_def split: option.splits sum.splits resolved.splits
          intro!: preserve reads_walk_next [OF assms])
  qed (simp add: preserve)
  then show ?thesis by (simp add: Scanner_next_def)
qed

lemma reads_Scanner_resolve_again:
  "reads_keep K J \<Longrightarrow> preserves (\<lambda>s. J (world s)) (Scanner_resolve_again K e sc)"
  unfolding Scanner_resolve_again_def by (intro preserve reads_resolve_again)

text \<open>How the processing of one extent can go.\<close>

definition after_process :: "extent \<Rightarrow> scanner \<Rightarrow> io_error + left_alone option \<Rightarrow> bool \<times> scanner" where
  "after_process e sc result =
     (case result of
        Inr None \<Rightarrow> (True, sc)
      | Inr (Some reason) \<Rightarrow> (True, count_left_alone reason (Some e) sc)
      | Inl err \<Rightarrow> (False, (count_left_alone Failed (Some e) sc)\<lparr>sc_error := Some err\<rparr>))"

lemma run_extent_cases:
  fixes K :: "('w, 'f) kernel"
  assumes "run_extent K fs e sc rn s = (Inr (go_on, sc', rn'), s')"
  obtains
    (none_free) "disk_free_bytes e = 0" "go_on" "sc' = sc" "rn' = rn" "s' = s"
  | (early) reason where "disk_free_bytes e \<noteq> 0" "not_worth_rewriting e = Some reason" "go_on"
      "sc' = count_left_alone reason (Some e) sc" "rn' = rn" "s' = s"
  | (lost) err where "disk_free_bytes e \<noteq> 0" "resolve_again K e s = (Inl (Raise err), s')" "go_on"
      "sc' = leave_unresolved K (e_disk_address e) err (Some e) sc" "rn' = rn"
  | (emptied) e' where "disk_free_bytes e \<noteq> 0" "resolve_again K e s = (Inr e', s')" "disk_free_bytes e' = 0" "go_on"
      "sc' = sc" "rn' = rn"
  | (no_longer_worth) e' reason where "disk_free_bytes e \<noteq> 0" "resolve_again K e s = (Inr e', s')" "disk_free_bytes e' \<noteq> 0"
      "not_worth_rewriting e' = Some reason" "go_on" "sc' = count_left_alone reason (Some e') sc" "rn' = rn"
  | (processed) e' t result where "disk_free_bytes e \<noteq> 0" "not_worth_rewriting e = None"
      "resolve_again K e s = (Inr e', t)" "disk_free_bytes e' \<noteq> 0" "not_worth_rewriting e' = None"
      "Runner_process K fs e' rn t = (Inr (result, rn'), s')" "after_process e' sc result = (go_on, sc')"
proof (cases "disk_free_bytes e = 0 \<or> not_worth_rewriting e \<noteq> None")
  case True
  show thesis
  proof (cases "disk_free_bytes e = 0")
    case True
    show thesis by (rule none_free; use True assms in \<open>simp add: run_extent_def\<close>)
  next
    case False
    with True obtain reason where reason: "not_worth_rewriting e = Some reason" by blast
    show thesis by (rule early [of reason]; use reason False assms in \<open>simp add: run_extent_def\<close>)
  qed
next
  case False
  with assms obtain again sc1 t where "Scanner_resolve_again K e sc s = (Inr (again, sc1), t)"
    and rest: "(case again of
               None \<Rightarrow> ret (True, sc1, rn)
             | Some e \<Rightarrow>
                 if disk_free_bytes e = 0 then ret (True, sc1, rn)
                 else
                   (case not_worth_rewriting e of
                      Some reason \<Rightarrow> ret (True, count_left_alone reason (Some e) sc1, rn)
                    | None \<Rightarrow>
                        bindE (Runner_process K fs e rn) (\<lambda>(result, rn).
                        case result of
                          Inr None \<Rightarrow> ret (True, sc1, rn)
                        | Inr (Some reason) \<Rightarrow> ret (True, count_left_alone reason (Some e) sc1, rn)
                        | Inl err \<Rightarrow> ret (False, (count_left_alone Failed (Some e) sc1)\<lparr>sc_error := Some err\<rparr>, rn)))) t
       = (Inr (go_on, sc', rn'), s')"
    by (auto simp: run_extent_def bindE_Inr)
  then consider (err) err where "resolve_again K e s = (Inl (Raise err), t)" "again = None"
      "sc1 = leave_unresolved K (e_disk_address e) err (Some e) sc"
    | (again) e' where "resolve_again K e s = (Inr e', t)" "again = Some e'" "sc1 = sc"
    by (auto simp: Scanner_resolve_again_def matchE_Inr)
  then show thesis
  proof cases
    case err
    show thesis by (rule lost [of err]; use err False rest in simp)
  next
    case (again e')
    show thesis
    proof (cases "disk_free_bytes e' = 0 \<or> not_worth_rewriting e' \<noteq> None")
      case stop: True
      show thesis
      proof (cases "disk_free_bytes e' = 0")
        case True
        show thesis by (rule emptied [of e']; use True again False rest in simp)
      next
        case free: False
        with stop obtain reason where "not_worth_rewriting e' = Some reason" by blast
        with free again False rest no_longer_worth [of e' reason] show thesis by simp
      qed
    next
      case proc: False
      with again rest obtain result rn1 t' where process: "Runner_process K fs e' rn t = (Inr (result, rn1), t')"
        and "((case result of
               Inr None \<Rightarrow> ret (True, sc, rn1)
             | Inr (Some reason) \<Rightarrow> ret (True, count_left_alone reason (Some e') sc, rn1)
             | Inl err \<Rightarrow> ret (False, (count_left_alone Failed (Some e') sc)\<lparr>sc_error := Some err\<rparr>, rn1)) :: ('w, _) io) t'
           = (Inr (go_on, sc', rn'), s')"
        by (auto simp: bindE_Inr)
      then have "rn1 = rn'" "t' = s'" "after_process e' sc result = (go_on, sc')"
        by (auto simp: after_process_def split: sum.split_asm option.split_asm)
      with process have "Runner_process K fs e' rn t = (Inr (result, rn'), s')" by simp
      with \<open>after_process e' sc result = _\<close> again False proc show thesis by (intro processed [of e' t result]) simp_all
    qed
  qed
qed

lemma run_extent_options:
  assumes "run_extent K fs e sc rn s = (Inr (go_on, sc', rn'), s')"
  shows "rn_options rn' = rn_options rn"
  using assms
proof (cases rule: run_extent_cases)
  case (processed e' t result)
  then show ?thesis using Runner_process_Inr [OF processed(6)] by (simp add: accounted_def)
qed simp_all

lemma preserves_run_extent:
  assumes "reads_keep K J"
    and "\<And>e. preserves (\<lambda>s. J (world s)) (Runner_process K fs e rn)"
  shows "preserves (\<lambda>s. J (world s)) (run_extent K fs e sc rn)"
  unfolding run_extent_def by (intro preserve assms reads_Scanner_resolve_again)

lemma preserves_run_loop:
  assumes "reads_keep K J"
    and process: "\<And>e rn. rn_options rn = opts \<Longrightarrow> preserves (\<lambda>s. J (world s)) (Runner_process K fs e rn)"
  shows "rn_options rn = opts \<Longrightarrow> preserves (\<lambda>s. J (world s)) (run_loop K fs n sc rn)"
proof (induction n arbitrary: sc rn)
  case (Suc n)
  have one: "preserves (\<lambda>s. J (world s)) (bindE (run_extent K fs e sc' rn) (\<lambda>(go_on, sc, rn).
      if go_on then run_loop K fs n sc rn else ret (sc, rn)))" for e sc'
    by (rule preserves_bindE_val [OF preserves_run_extent [OF assms(1) process [OF Suc.prems]]])
       (auto intro!: preserve Suc.IH simp: Suc.prems dest: run_extent_options)
  then show ?case
    unfolding run_loop.simps
    by (intro preserves_bindE reads_Scanner_next [OF assms(1)] preserves_prod preserves_option preserves_ret one)
qed (simp add: preserve)

lemma preserves_run:
  assumes "reads_keep K J"
    and "\<And>fs e rn. rn_options rn = opts \<Longrightarrow> preserves (\<lambda>s. J (world s)) (Runner_process K fs e rn)"
  shows "preserves (\<lambda>s. J (world s)) (run K opts)"
proof -
  have "rn_options (Runner_new opts) = opts" by (simp add: Runner_new_def)
  then show ?thesis
    unfolding run_def run_end_def Scanner_new_def sync_def Let_def
    by (intro preserve reads_Filesystem_open reads_walk_start reads_sys_call assms(1)
          preserves_run_loop [OF assms])
qed

lemma preserves_main:
  assumes "preserves I (run K (parse_options args))"
  shows "preserves I (main K euid args)"
  unfolding main_def Let_def by (intro preserve assms)

text \<open>
  C9: A dry run changes nothing: without \<open>--apply\<close> the program leaves alone whatever only
  setting flags, writing, deduping and creating a temporary file can change; it makes none of
  these calls, whatever it finds and however it ends.
\<close>

theorem dry_run_changes_nothing:
  assumes "reads_keep K J" and "\<not> ar_apply args" and "J (world s)"
  shows "J (world (snd (main K euid args s)))"
  by (rule preservesD [where I = "\<lambda>s. J (world s)", OF preserves_main [OF preserves_run [OF assms(1)]]])
     (use assms in \<open>auto intro!: reads_Runner_process simp: parse_options_def\<close>)

text \<open>
  C8: A run writes to nothing but temporary files: with \<open>--apply\<close> or without, the only files the
  program changes the flags of, writes to, or dedupes from are ones it opened with \<open>O_TMPFILE\<close>, so
  whatever such calls keep is kept by the whole program: as a dedupe shares only equal bytes, the
  contents of every named file.
\<close>

theorem run_writes_only_temporaries:
  assumes "temps_keep K temp J" and "J (world s)"
  shows "J (world (snd (main K euid args s)))"
  by (rule preservesD [where I = "\<lambda>s. J (world s)", OF preserves_main [OF preserves_run [OF temps_reads [OF assms(1)]
        temps_Runner_process [OF assms(1)]]]]) (use assms(2) in simp)

section \<open>A kernel that keeps note of writes\<close>

text \<open>For the witnesses: a descriptor says whether it is of a temporary file, and the state whether a
  temporary file, and whether any other, has been written to, given flags, or deduped from.\<close>

definition marking_kernel :: "(bool \<times> bool, bool) kernel" where
  "marking_kernel = (tree_kernel small_tree)
     \<lparr>k_open := (\<lambda>_ w. (Inr False, w)), k_clone_mount := (\<lambda>_ w. (Inr False, w)),
      k_openat2 := (\<lambda>_ _ fl _ (a, b). (Inr (O_TMPFILE \<in> fl), (a \<or> O_TMPFILE \<in> fl, b))),
      k_fstatfs := (\<lambda>_ w. (Inr \<lparr>sf_type = 0x9123683E, sf_bsize = 4096, sf_flags = 0\<rparr>, w)),
      k_fs_info := (\<lambda>_ _ w. (Inr (2, 10), w)), k_syncfs := (\<lambda>_ w. (Inr (), w)),
      k_metadata := (\<lambda>_ w. (Inr \<lparr>md_ino = 256, md_len = 0, md_is_dir = True, md_modified = Inr 0\<rparr>, w)),
      k_ino_lookup := (\<lambda>_ _ _ w. (Inr (5, []), w)), k_get_flags := (\<lambda>_ w. (Inr 0, w)),
      k_read_exact_at := (\<lambda>_ _ n w. (Inr (replicate n 0), w)),
      k_set_flags := (\<lambda>f _ (a, b). (Inr (), (a \<or> f, b \<or> \<not> f))),
      k_write_all_at := (\<lambda>f _ _ (a, b). (Inr (), (a \<or> f, b \<or> \<not> f))),
      k_dedupe := (\<lambda>f _ len _ _ (a, b). (Inr (0, len), (a \<or> f, b \<or> \<not> f)))\<rparr>"

lemmas marking_kernel_simps = marking_kernel_def tree_kernel_def sample_kernel_simps

lemma marking_keeps:
  "reads_keep marking_kernel (\<lambda>w. w = (False, False))" "temps_keep marking_kernel (\<lambda>f. f) (\<lambda>w. \<not> snd w)"
  by (simp_all add: temps_keep_def reads_keep_def marking_kernel_simps)

definition sample_args :: "bool \<Rightarrow> args" where
  "sample_args writing = \<lparr>ar_path = ''/mnt'', ar_apply = writing, ar_verbose = False, ar_jobs = None\<rparr>"

lemma dry_run_changes_nothing_witness:
  "world (snd (main marking_kernel 0 (sample_args False) (sample_sys (False, False)))) = (False, False)"
  using dry_run_changes_nothing [OF marking_keeps(1), of "sample_args False" "sample_sys (False, False)" 0]
  by (simp add: sample_args_def)

lemma run_writes_only_temporaries_witness:
  "\<not> snd (world (snd (main marking_kernel 0 (sample_args True) (sample_sys (False, False)))))"
  using run_writes_only_temporaries [OF marking_keeps(2), of "sample_sys (False, False)" 0 "sample_args True"] by simp

end
