(* ===== verification/Accounts.thy ===== *)
theory Accounts
  imports Driver
begin

text \<open>
  What a finished run reports, as an account of the extents it found: each is counted once, and once
  has one outcome. The report's sums are the sums over these outcomes.
\<close>

section \<open>Outcomes\<close>

text \<open>What became of an extent the scan handed over, with the extent as it was last resolved: it had
  nothing to reclaim, it was left alone, or it was rewritten.\<close>

datatype outcome = Passed extent | LeftFor left_alone extent | Rewritten extent

fun seen :: "outcome \<Rightarrow> extent" where
  "seen (Passed e) = e"
| "seen (LeftFor _ e) = e"
| "seen (Rewritten e) = e"

definition resolved_from :: "('w, 'f) kernel \<Rightarrow> extent \<Rightarrow> extent \<Rightarrow> bool" where
  "resolved_from K e e' \<longleftrightarrow> (\<exists>s s'. resolve_again K e s = (Inr e', s'))"

fun outcome_of :: "('w, 'f) kernel \<Rightarrow> extent \<times> outcome \<Rightarrow> bool" where
  "outcome_of K (e, Passed e') \<longleftrightarrow> (e' = e \<or> resolved_from K e e') \<and> disk_free_bytes e' = 0"
| "outcome_of K (e, LeftFor reason e') \<longleftrightarrow> (e' = e \<or> resolved_from K e e') \<and> disk_free_bytes e \<noteq> 0 \<and> disk_free_bytes e' \<noteq> 0"
| "outcome_of K (e, Rewritten e') \<longleftrightarrow> resolved_from K e e' \<and> worth_rewriting e \<and> worth_rewriting e'
     \<and> disk_free_bytes e \<noteq> 0 \<and> disk_free_bytes e' \<noteq> 0"

definition left_of :: "outcome \<Rightarrow> (left_alone \<times> extent option) option" where
  "left_of oc = (case oc of LeftFor reason e \<Rightarrow> Some (reason, Some e) | _ \<Rightarrow> None)"

definition rewritten_of :: "outcome \<Rightarrow> extent option" where
  "rewritten_of oc = (case oc of Rewritten e \<Rightarrow> Some e | _ \<Rightarrow> None)"

abbreviation rewritten :: "(extent \<times> outcome) list \<Rightarrow> extent list" where
  "rewritten trail \<equiv> List.map_filter rewritten_of (map snd trail)"

definition is_failed :: "outcome \<Rightarrow> bool" where
  "is_failed oc \<longleftrightarrow> (case oc of LeftFor reason _ \<Rightarrow> reason = Failed | _ \<Rightarrow> False)"

section \<open>The account\<close>

definition scanned :: "('w, 'f) kernel \<Rightarrow> (extent \<times> outcome) list \<Rightarrow> (left_alone \<times> extent option) list \<Rightarrow> scan_stats \<Rightarrow> bool" where
  "scanned K trail lefts stats \<longleftrightarrow>
     list_all (outcome_of K) trail
     \<and> filter (\<lambda>x. snd x \<noteq> None) lefts = List.map_filter left_of (map snd trail)
     \<and> list_all (\<lambda>x. fst x \<in> {Changed, Unresolved}) (filter (\<lambda>x. snd x = None) lefts)
     \<and> stats = \<lparr>ss_extents = of_nat (length trail), ss_totals = fold Totals_add (map fst trail) Totals_ZERO,
                ss_left_alone = fold (\<lambda>x. LeftAloneStats_add (fst x) (snd x)) lefts LeftAloneStats_ZERO\<rparr>"

definition reported :: "(extent \<times> outcome) list \<Rightarrow> report \<Rightarrow> bool" where
  "reported trail rp \<longleftrightarrow>
     rp_rewritten rp = map e_disk_address (rewritten trail)
     \<and> rp_copied_bytes rp = sum_list (map live_uncompressed_bytes (rewritten trail))
     \<and> rp_freed_bytes rp = sum_list (map disk_free_bytes (rewritten trail))
     \<and> length (rp_skipped rp) + length (rp_modified rp) = length (filter is_failed (map snd trail))"

lemma scanned_unresolved:
  assumes "scanned K trail lefts stats"
  shows "scanned K trail (lefts @ map (\<lambda>err. (unresolved_reason err, None)) errs)
     (stats\<lparr>ss_left_alone := left_unresolved errs (ss_left_alone stats)\<rparr>)"
proof -
  have "left_unresolved errs t = fold (\<lambda>x. LeftAloneStats_add (fst x) (snd x)) (map (\<lambda>err. (unresolved_reason err, None)) errs) t" for t
    by (induction errs arbitrary: t) (simp_all add: left_unresolved_def)
  moreover have "list_all (\<lambda>x. fst x = Changed \<or> fst x = Unresolved) (map (\<lambda>err. (unresolved_reason err, None)) errs)"
    by (induction errs) (simp_all add: unresolved_reason_def)
  moreover have "filter (\<lambda>x. snd x \<noteq> None) (map (\<lambda>err. (unresolved_reason err, None)) errs) = []"
    by (simp add: filter_empty_conv)
  ultimately show ?thesis using assms by (simp add: scanned_def)
qed

lemma scanned_outcome:
  assumes "scanned K trail lefts stats" and "outcome_of K (e, oc)"
  shows "scanned K (trail @ [(e, oc)]) (lefts @ (case left_of oc of None \<Rightarrow> [] | Some x \<Rightarrow> [x]))
     \<lparr>ss_extents = ss_extents stats + 1, ss_totals = Totals_add e (ss_totals stats),
      ss_left_alone = (case left_of oc of None \<Rightarrow> ss_left_alone stats
                       | Some x \<Rightarrow> LeftAloneStats_add (fst x) (snd x) (ss_left_alone stats))\<rparr>"
  using assms by (cases oc) (auto simp: scanned_def map_filter_append left_of_def)

lemma reported_rewritten:
  "reported trail rp \<Longrightarrow> reported (trail @ [(e, Rewritten e')]) (count_rewritten e' rp)"
  by (simp add: reported_def count_rewritten_def map_filter_append rewritten_of_def is_failed_def)

lemma reported_other:
  assumes "reported trail rp" and "rewritten_of oc = None"
    and "if is_failed oc
         then \<exists>entry. rp' = rp\<lparr>rp_modified := rp_modified rp @ [entry]\<rparr> \<or> rp' = rp\<lparr>rp_skipped := rp_skipped rp @ [entry]\<rparr>
         else rp' = rp"
  shows "reported (trail @ [(e, oc)]) rp'"
  using assms by (auto simp: reported_def map_filter_append split: if_splits)

section \<open>Through the loop\<close>

lemma not_worth_not_failed: "not_worth_rewriting e = Some reason \<Longrightarrow> reason \<noteq> Failed"
  by (auto simp: not_worth_rewriting_def Let_def split: if_splits)

lemma reported_accounted:
  assumes "reported trail (rn_report rn)" and "accounted e' rn (result, rn')"
  shows "result = Inr None \<Longrightarrow> reported (trail @ [(e, Rewritten e')]) (rn_report rn')"
    and "result = Inr (Some reason) \<Longrightarrow> reported (trail @ [(e, LeftFor reason e')]) (rn_report rn')"
proof -
  show "reported (trail @ [(e, Rewritten e')]) (rn_report rn')" if "result = Inr None"
    using assms that by (simp add: accounted_def reported_rewritten)
  show "reported (trail @ [(e, LeftFor reason e')]) (rn_report rn')" if "result = Inr (Some reason)"
    by (rule reported_other [OF assms(1)])
       (use assms(2) that in \<open>auto simp: accounted_def is_failed_def rewritten_of_def split: if_splits\<close>)
qed

text \<open>One extent: the scanner has counted it, and \<open>sc\<close> is what it returned it with.\<close>

lemma run_extent_accounts:
  fixes K :: "('w, 'f) kernel"
  assumes run: "run_extent K fs e sc rn s = (Inr (go_on, sc', rn'), s')" and fine: "sc_error sc' = None"
    and before: "scanned K trail lefts stats" "reported trail (rn_report rn)"
    and counted: "sc_stats sc = \<lparr>ss_extents = ss_extents stats + 1, ss_totals = Totals_add e (ss_totals stats),
                               ss_left_alone = ss_left_alone stats\<rparr>"
  shows "\<exists>oc. scanned K (trail @ [(e, oc)]) (lefts @ (case left_of oc of None \<Rightarrow> [] | Some x \<Rightarrow> [x])) (sc_stats sc')
           \<and> reported (trail @ [(e, oc)]) (rn_report rn')"
proof -
  let ?ok = "\<lambda>oc. outcome_of K (e, oc) \<and> sc_stats sc' = (sc_stats sc)\<lparr>ss_left_alone := (case left_of oc of
        None \<Rightarrow> ss_left_alone stats
      | Some x \<Rightarrow> LeftAloneStats_add (fst x) (snd x) (ss_left_alone stats))\<rparr>
      \<and> reported (trail @ [(e, oc)]) (rn_report rn')"
  have other: "reported (trail @ [(e, oc)]) (rn_report rn)" if "rewritten_of oc = None" "\<not> is_failed oc" for oc
    using reported_other [OF before(2) that(1)] that(2) by simp
  have "\<exists>oc. ?ok oc"
    using run
  proof (cases rule: run_extent_cases)
    case none_free
    then show ?thesis
      using other [of "Passed e"] counted
      by (intro exI [of _ "Passed e"]) (simp add: left_of_def rewritten_of_def is_failed_def)
  next
    case (early reason)
    then show ?thesis
      using other [of "LeftFor reason e"] counted not_worth_not_failed [OF early(2)]
      by (intro exI [of _ "LeftFor reason e"]) (simp add: left_of_def rewritten_of_def is_failed_def count_left_alone_def)
  next
    case (lost err)
    have alive: "fatal K err = None"
    proof (rule ccontr)
      assume "fatal K err \<noteq> None"
      then obtain hint where "fatal K err = Some hint" by blast
      from leave_unresolved_simps(2) [OF this, of "e_disk_address e" "Some e" sc] fine lost(4) show False by simp
    qed
    have "unresolved_reason err \<noteq> Failed" by (simp add: unresolved_reason_def)
    then show ?thesis
      using lost other [of "LeftFor (unresolved_reason err) e"] counted leave_unresolved_simps(1) [OF alive, of "e_disk_address e" "Some e" sc]
      by (intro exI [of _ "LeftFor (unresolved_reason err) e"])
         (simp add: left_of_def rewritten_of_def is_failed_def count_left_alone_def)
  next
    case (emptied e')
    then show ?thesis
      using other [of "Passed e'"] counted
      by (intro exI [of _ "Passed e'"]) (auto simp: left_of_def rewritten_of_def is_failed_def resolved_from_def)
  next
    case (no_longer_worth e' reason)
    then show ?thesis
      using other [of "LeftFor reason e'"] counted not_worth_not_failed [OF no_longer_worth(4)]
      by (intro exI [of _ "LeftFor reason e'"])
         (auto simp: left_of_def rewritten_of_def is_failed_def count_left_alone_def resolved_from_def)
  next
    case (processed e' t result)
    note acc = reported_accounted [OF before(2) Runner_process_Inr [OF processed(6)], where e = e]
    have from_e: "resolved_from K e e'" using processed(3) by (auto simp: resolved_from_def)
    show ?thesis
    proof (cases result)
      case (Inl err)
      with processed(7) fine show ?thesis by (auto simp: after_process_def)
    next
      case (Inr r)
      show ?thesis
      proof (cases r)
        case None
        with Inr processed from_e acc(1) counted show ?thesis
          by (intro exI [of _ "Rewritten e'"]) (simp add: after_process_def left_of_def worth_rewriting_def)
      next
        case (Some reason)
        with Inr processed from_e acc(2) counted show ?thesis
          by (intro exI [of _ "LeftFor reason e'"]) (auto simp: after_process_def left_of_def count_left_alone_def)
      qed
    qed
  qed
  then obtain oc where "?ok oc" by blast
  with scanned_outcome [OF before(1), of e oc] counted show ?thesis by auto
qed

text \<open>An error is not forgotten.\<close>

lemma run_loop_fine:
  fixes K :: "('w, 'f) kernel"
  assumes "(if go_on then run_loop K fs n sc rn else ret (sc, rn)) s = (Inr (sc', rn'), s')" and "sc_error sc' = None"
  shows "sc_error sc = None"
proof (rule ccontr)
  assume bad: "sc_error sc \<noteq> None"
  have "sc_error sc' \<noteq> None"
  proof (cases "go_on \<and> n \<noteq> 0 \<and> rounds K \<noteq> 0")
    case True
    then obtain m k where "n = Suc m" "rounds K = Suc k" by (meson not0_implies_Suc)
    with assms(1) bad True show ?thesis by (auto simp: bindE_Inr Scanner_next_def)
  next
    case False
    with assms(1) bad show ?thesis by (cases n; cases go_on) (auto simp: bindE_Inr Scanner_next_def)
  qed
  with assms(2) show False by simp
qed

lemma run_extent_goes_on:
  assumes "run_extent K fs e sc rn s = (Inr (go_on, sc', rn'), s')" and "sc_error sc' = None"
  shows "go_on"
  using assms(1)
proof (cases rule: run_extent_cases)
  case (processed e' t result)
  with assms(2) show ?thesis
    by (auto simp: after_process_def split: sum.split_asm option.split_asm)
qed

lemma run_loop_accounts:
  fixes K :: "('w, 'f) kernel"
  assumes "run_loop K fs n sc rn s = (Inr (sc', rn'), s')" and "sc_error sc' = None"
    and "scanned K trail lefts (sc_stats sc)" and "reported trail (rn_report rn)"
  shows "\<exists>trail lefts. scanned K trail lefts (sc_stats sc') \<and> reported trail (rn_report rn')"
  using assms
proof (induction n arbitrary: sc rn s trail lefts)
  case (Suc n)
  obtain nxt sc1 t where nxt: "Scanner_next K sc s = (Inr (nxt, sc1), t)"
    and rest: "((case nxt of
       None \<Rightarrow> ret (sc1, rn)
     | Some e \<Rightarrow>
         bindE (run_extent K fs e sc1 rn) (\<lambda>(go_on, sc, rn).
         if go_on then run_loop K fs n sc rn else ret (sc, rn))) :: ('w, _) io) t = (Inr (sc', rn'), s')"
    using Suc.prems(1) by (auto simp: bindE_Inr)
  from nxt obtain errs where one: "case nxt of
        Some e \<Rightarrow> sc_error sc1 = None \<and>
          sc_stats sc1 = \<lparr>ss_extents = ss_extents (sc_stats sc) + 1, ss_totals = Totals_add e (ss_totals (sc_stats sc)),
                          ss_left_alone = left_unresolved errs (ss_left_alone (sc_stats sc))\<rparr>
      | None \<Rightarrow> sc_stats sc1 = (sc_stats sc)\<lparr>ss_left_alone := left_unresolved errs (ss_left_alone (sc_stats sc))\<rparr>"
    unfolding Scanner_next_def by (blast dest: Scanner_next_loop_counts)
  note unresolved = scanned_unresolved [OF Suc.prems(3), of errs]
  show ?case
  proof (cases nxt)
    case None
    with rest one unresolved Suc.prems(4) show ?thesis by auto
  next
    case (Some e)
    from rest Some obtain go_on sc2 rn2 t2 where ext: "run_extent K fs e sc1 rn t = (Inr (go_on, sc2, rn2), t2)"
      and more: "(if go_on then run_loop K fs n sc2 rn2 else ret (sc2, rn2)) t2 = (Inr (sc', rn'), s')"
      by (auto simp: bindE_Inr)
    have fine: "sc_error sc2 = None" by (rule run_loop_fine [OF more Suc.prems(2)])
    obtain oc where "scanned K (trail @ [(e, oc)])
        ((lefts @ map (\<lambda>err. (unresolved_reason err, None)) errs) @ (case left_of oc of None \<Rightarrow> [] | Some x \<Rightarrow> [x])) (sc_stats sc2)"
      and "reported (trail @ [(e, oc)]) (rn_report rn2)"
      using run_extent_accounts [OF ext fine unresolved Suc.prems(4)] one Some by auto
    with more fine Suc.IH [OF _ Suc.prems(2)] Suc.prems(2) show ?thesis
      by (cases go_on) auto
  qed
qed simp

section \<open>The report adds up\<close>

lemma left_unreachable:
  "b_unreachable_bytes (LeftAloneStats_total (fold (\<lambda>x. LeftAloneStats_add (fst x) (snd x)) lefts LeftAloneStats_ZERO)) =
     sum_list (map (\<lambda>x. b_unreachable_bytes (left_entry x)) (filter (\<lambda>x. snd x \<noteq> None) lefts))"
proof -
  have zero: "la_reasons LeftAloneStats_ZERO = replicate (length LeftAlone_ALL) 0"
    by (simp add: LeftAloneStats_ZERO_def Bucket_ZERO_zero)
  have "b_unreachable_bytes (sum_list (map left_entry xs)) = sum_list (map (\<lambda>x. b_unreachable_bytes (left_entry x)) xs)" for xs
    by (induction xs) simp_all
  moreover have "sum_list (map (\<lambda>x. b_unreachable_bytes (left_entry x)) xs) =
      sum_list (map (\<lambda>x. b_unreachable_bytes (left_entry x)) (filter (\<lambda>x. snd x \<noteq> None) xs))" for xs
    by (induction xs) (auto simp: left_entry_def Bucket_ZERO_def)
  ultimately show ?thesis by (simp add: total_sum by_reason.rows_from_zero(2) [OF zero])
qed

text \<open>How much less, or more, was found unreachable when the extents were resolved again.\<close>

lemma trail_unreachable:
  assumes "list_all (outcome_of K) trail"
    and "list_all (\<lambda>x. disk_free_bytes (seen (snd x)) = disk_free_bytes (fst x)) trail"
  shows "sum_list (map disk_free_bytes (map fst trail)) =
     sum_list (map disk_free_bytes (rewritten trail))
     + sum_list (map (\<lambda>x. b_unreachable_bytes (left_entry x)) (List.map_filter left_of (map snd trail)))"
  using assms
proof (induction trail)
  case (Cons x trail)
  obtain e oc where "x = (e, oc)" by (cases x)
  with Cons show ?case
    by (cases oc) (auto simp: rewritten_of_def left_of_def left_entry_def extent_entry_def ac_simps)
qed simp

lemma account_adds_up:
  assumes "scanned K trail lefts stats" and "reported trail rp"
    and "list_all (\<lambda>x. disk_free_bytes (seen (snd x)) = disk_free_bytes (fst x)) trail"
  shows "tt_unreachable_bytes (ss_totals stats) =
     rp_freed_bytes rp + b_unreachable_bytes (LeftAloneStats_total (ss_left_alone stats))"
proof -
  have "tt_unreachable_bytes Totals_ZERO = 0" by (simp add: Totals_ZERO_def)
  then show ?thesis
    using assms trail_unreachable [of K trail]
    by (simp add: scanned_def reported_def totals_sums left_unreachable del: map_map)
qed

lemma run_end_Inr:
  assumes "run_end K opts fs sc rn t = (Inr (Inr (stats, rp), printed), s')"
  shows "sc_error sc = None" and "stats = sc_stats sc" and "Runner_finish rn = (rp, printed)"
    and "if op_apply opts then sync K fs t = (Inr (), s') else s' = t"
proof -
  obtain rp1 printed1 where fin: "Runner_finish rn = (rp1, printed1)" by (cases "Runner_finish rn")
  show fine: "sc_error sc = None"
    using assms by (cases "sc_error sc") (simp_all add: run_end_def fin)
  show "stats = sc_stats sc" "Runner_finish rn = (rp, printed)"
    "if op_apply opts then sync K fs t = (Inr (), s') else s' = t"
    using assms fine by (auto simp: run_end_def fin matchE_Inr split: if_splits)
qed

lemma run_Inr:
  fixes K :: "('w, 'f) kernel"
  assumes "run K opts s = (Inr (Inr (stats, rp), printed), s')"
  obtains fs s1 sc s2 sc' rn' t where "Filesystem_open K (op_path opts) s = (Inr fs, s1)"
    "\<not> (op_apply opts \<and> fs_read_only fs)" "Scanner_new K fs s1 = (Inr sc, s2)"
    "run_loop K fs (rounds K) sc (Runner_new opts) s2 = (Inr (sc', rn'), t)"
    "run_end K opts fs sc' rn' t = (Inr (Inr (stats, rp), printed), s')"
  using assms by (auto simp: run_def matchE_Inr bindE_Inr split: if_split_asm)

lemma run_account:
  assumes "run K opts s = (Inr (Inr (stats, rp), printed), s')"
  obtains trail lefts where "scanned K trail lefts stats" "reported trail rp"
proof -
  from assms obtain fs s1 sc s2 sc' rn' t where new: "Scanner_new K fs s1 = (Inr sc, s2)"
    and loop: "run_loop K fs (rounds K) sc (Runner_new opts) s2 = (Inr (sc', rn'), t)"
    and fin: "run_end K opts fs sc' rn' t = (Inr (Inr (stats, rp), printed), s')"
    by (rule run_Inr)
  note fin = run_end_Inr [OF fin]
  have "sc_stats sc = ScanStats_ZERO" using new by (auto simp: Scanner_new_def bindE_Inr)
  then have "scanned K [] [] (sc_stats sc)" by (simp add: scanned_def ScanStats_ZERO_def)
  moreover have "reported [] (rn_report (Runner_new opts))"
    by (simp add: reported_def Runner_new_def Report_default_def)
  moreover have "rp = rn_report rn'" using fin(3) by (auto simp: Runner_finish_def Let_def split: if_splits)
  ultimately show thesis using run_loop_accounts [OF loop fin(1)] fin(2) that by blast
qed

text \<open>
  C18: The report of a run that succeeds adds up. There is one outcome for every extent the scan
  handed over: it had nothing to reclaim, or it is in the table of those left alone, in one row, as
  it was last resolved, or it was worth it and was rewritten and is in the sums of the report. The
  scan's totals are over all of them; the table holds nothing else but extents that could not be
  resolved, with no bytes; there is one entry under skipped or modified for each that failed. So
  unless resolving an extent again changed how much of it is unreachable, the unreachable bytes are
  exactly those reclaimable and those left alone.
\<close>

theorem run_adds_up:
  assumes "run K opts s = (Inr (Inr (stats, rp), printed), s')"
  shows "\<exists>trail lefts. scanned K trail lefts stats \<and> reported trail rp
     \<and> (list_all (\<lambda>x. disk_free_bytes (seen (snd x)) = disk_free_bytes (fst x)) trail \<longrightarrow>
          tt_unreachable_bytes (ss_totals stats) =
          rp_freed_bytes rp + b_unreachable_bytes (LeftAloneStats_total (ss_left_alone stats)))"
proof -
  obtain trail lefts where "scanned K trail lefts stats" "reported trail rp"
    by (rule run_account [OF assms])
  with account_adds_up [OF this] show ?thesis by blast
qed

lemma run_loop_silent:
  fixes K :: "('w, 'f) kernel"
  assumes "run_loop K fs n sc rn s = (Inr (sc', rn'), s')" and "\<not> op_apply (rn_options rn)"
  shows "rn_printed rn' = rn_printed rn \<and> rn_options rn' = rn_options rn"
  using assms
proof (induction n arbitrary: sc rn s)
  case (Suc n)
  obtain nxt sc1 t where "((case nxt of
       None \<Rightarrow> ret (sc1, rn)
     | Some e \<Rightarrow>
         bindE (run_extent K fs e sc1 rn) (\<lambda>(go_on, sc, rn).
         if go_on then run_loop K fs n sc rn else ret (sc, rn))) :: ('w, _) io) t = (Inr (sc', rn'), s')"
    using Suc.prems(1) by (auto simp: bindE_Inr)
  note rest = this
  show ?case
  proof (cases nxt)
    case None
    with rest show ?thesis by simp
  next
    case (Some e)
    from rest Some obtain go_on sc2 rn2 t2 where ext: "run_extent K fs e sc1 rn t = (Inr (go_on, sc2, rn2), t2)"
      and more: "(if go_on then run_loop K fs n sc2 rn2 else ret (sc2, rn2)) t2 = (Inr (sc', rn'), s')"
      by (auto simp: bindE_Inr)
    have "rn_printed rn2 = rn_printed rn"
      using ext
    proof (cases rule: run_extent_cases)
      case (processed e' u result)
      show ?thesis by (rule Runner_process_silent [OF processed(6) Suc.prems(2)])
    qed simp_all
    with more Suc.IH [of sc2 rn2 t2] Suc.prems(2) run_extent_options [OF ext] show ?thesis
      by (cases go_on) simp_all
  qed
qed simp


section \<open>A run over the small file system\<close>

definition small_extent :: extent where
  "small_extent = the (from_refs [small_ref])"

lemma small_from_refs: "from_refs [small_ref] = Some small_extent"
  by (simp add: small_extent_def from_refs_def)

lemma small_not_worth: "disk_free_bytes small_extent \<noteq> 0" "not_worth_rewriting small_extent = Some TooLittleToFree"
proof -
  have "disk_free_bytes small_extent = 4096" by code_simp
  then show "disk_free_bytes small_extent \<noteq> 0" "not_worth_rewriting small_extent = Some TooLittleToFree"
    by (simp_all add: not_worth_rewriting_def MIN_RECLAIM_BYTES_def)
qed

lemma small_resolved:
  assumes "serving small_kernel small_tree s" and "last_snapshots s = Map.empty"
  shows "\<exists>s'. resolve_unresolved small_kernel
      \<lparr>u_disk_address = 65536, u_item = small_extent_item, u_backrefs = Files [small_data_ref]\<rparr> s
    = (Inr (ResolvedExtent small_extent), s') \<and> serving small_kernel small_tree s'"
proof -
  obtain p where collect: "collect small_kernel 65536 8192 [small_data_ref] s = (Inr [small_ref], s\<lparr>searchargs_pool := p\<rparr>)"
    and ok: "serving small_kernel small_tree (s\<lparr>searchargs_pool := p\<rparr>)"
    using collect_run [OF assms(1), where disk_address = 65536 and disk_bytes = 8192 and data_refs = "[small_data_ref]"]
    by (auto simp: small_refs_of Let_def small_count)
  obtain s1 where "last_snapshot small_kernel 5 (s\<lparr>searchargs_pool := p\<rparr>) = (Inr 3, s1)"
    by (rule last_snapshot_run [OF ok _ small_snapshot]) (simp add: assms(2))
  then have resolve: "resolve small_kernel 65536 small_extent_item (Files [small_data_ref]) s = (Inr [small_ref], s1)"
    using collect
    by (simp add: resolve_def matchE_def may_be_shared_def bindE_def small_extent_item_def)
       (simp add: small_ref_def ret_def)
  then have "serving small_kernel small_tree s1"
    using wp_ok [OF safe_wp [OF safe_resolve [OF small_steady] assms(1)] resolve] by blast
  with resolve show ?thesis
    by (simp add: resolve_unresolved_def matchE_def bindE_def unwrap_def small_from_refs ret_def)
qed

lemma small_first:
  "\<exists>w s'. walk_next small_kernel small_walk (sample_sys ()) = (Inr (Some (Inr (ResolvedExtent small_extent)), w), s')
     \<and> serving small_kernel small_tree s' \<and> remaining small_kernel small_tree w = []
     \<and> items_left small_kernel small_tree w < rounds small_kernel"
proof -
  let ?u = "\<lparr>u_disk_address = 65536, u_item = small_extent_item, u_backrefs = Files [small_data_ref]\<rparr>"
  obtain batch nxt s1 where batch: "extent_batch small_kernel 0 10 (sample_sys ()) = (Inr (batch, nxt), s1)"
    and ok: "serving small_kernel small_tree s1"
    and rest: "case nxt of None \<Rightarrow> [?u] = batch
       | Some a \<Rightarrow> (\<exists>i \<in> set (small_tree 2). 0 \<le> address i \<and> address i < a) \<and>
           [?u] = batch @ extents_from small_kernel 10 (small_tree 2) a"
  proof -
    have two: "EXTENT_TREE_OBJECTID small_kernel = 2" by (simp add: btrfs_abi_def)
    from extent_batch_run [OF small_serving, of 0 10] show thesis
      unfolding two small_extents using that by blast
  qed
  have above: "extents_from small_kernel 10 (small_tree 2) a = []" if "65536 < a" for a :: u64
  proof -
    have "{b \<in> addresses small_kernel (small_tree 2). a \<le> b} = {}"
      using that by (auto simp: addresses_def small_tree_def extent_item_257_def)
    then show ?thesis by (simp only: extents_from_def) simp
  qed
  have b: "batch = [?u]" and rem: "remaining small_kernel small_tree \<lparr>w_next = nxt, w_generation = 10, w_batch = []\<rparr> = []"
    using rest above
    by (auto simp: remaining_def small_tree_def extent_item_257_def split: option.splits)
  obtain s2 where res: "resolve_unresolved small_kernel ?u s1 = (Inr (ResolvedExtent small_extent), s2)"
    "serving small_kernel small_tree s2"
    using small_resolved [OF ok extent_batch_forgets [OF batch]] by blast
  have "walk_next_loop small_kernel (Suc (Suc n)) small_walk (sample_sys ()) =
      (Inr (Some (Inr (ResolvedExtent small_extent)), \<lparr>w_next = nxt, w_generation = 10, w_batch = []\<rparr>), s2)" for n
    using batch res(1) by (simp add: small_walk_def matchE_def bindE_def b ret_def)
  from this [of 8] have "walk_next small_kernel small_walk (sample_sys ()) =
      (Inr (Some (Inr (ResolvedExtent small_extent)), \<lparr>w_next = nxt, w_generation = 10, w_batch = []\<rparr>), s2)"
    by (simp add: walk_next_def del: walk_next_loop.simps)
  moreover have "items_left small_kernel small_tree \<lparr>w_next = nxt, w_generation = 10, w_batch = []\<rparr> < rounds small_kernel"
    by (auto simp: items_left_def small_tree_def split: option.split)
  ultimately show ?thesis using res(2) rem by blast
qed

lemma small_run_loop:
  "\<exists>sc s'. run_loop small_kernel fs (Suc (Suc n)) small_scanner rn (sample_sys ()) = (Inr (sc, rn), s') \<and> sc_error sc = None"
proof -
  obtain w s1 where first: "walk_next small_kernel small_walk (sample_sys ()) =
      (Inr (Some (Inr (ResolvedExtent small_extent)), w), s1)"
    and ok: "serving small_kernel small_tree s1" "remaining small_kernel small_tree w = []"
    "items_left small_kernel small_tree w < rounds small_kernel"
    using small_first by blast
  obtain w' s2 where second: "walk_next small_kernel w s1 = (Inr (None, w'), s2)"
  proof -
    obtain r w' s2 where "walk_next small_kernel w s1 = (Inr (r, w'), s2)" and "case r of
       None \<Rightarrow> remaining small_kernel small_tree w = [] \<and> w_batch w' = [] \<and> w_next w' = None
     | Some (Inr x) \<Rightarrow> remaining small_kernel small_tree w = res_address x # remaining small_kernel small_tree w' \<and>
         w_generation w' = w_generation w \<and> items_left small_kernel small_tree w' \<le> items_left small_kernel small_tree w
     | Some (Inl e) \<Rightarrow> False"
      using walk_next_loop_run [OF small_steady ok(1,3)] unfolding walk_next_def by blast
    with ok(2) that show thesis by (auto split: option.split_asm sum.split_asm)
  qed
  have "Scanner_next_loop small_kernel (Suc n) small_scanner (sample_sys ()) = (Inr (Some small_extent, small_scanner
      \<lparr>sc_walk := w, sc_stats := ScanStats_ZERO\<lparr>ss_extents := 1, ss_totals := Totals_add small_extent Totals_ZERO\<rparr>\<rparr>), s1)" for n
    using first by (simp add: small_scanner_def bindE_def ret_def ScanStats_ZERO_def)
  from this [of 9] have next1: "Scanner_next small_kernel small_scanner (sample_sys ()) = (Inr (Some small_extent, small_scanner
      \<lparr>sc_walk := w, sc_stats := ScanStats_ZERO\<lparr>ss_extents := 1, ss_totals := Totals_add small_extent Totals_ZERO\<rparr>\<rparr>), s1)"
    by (simp add: Scanner_next_def del: Scanner_next_loop.simps)
  have "Scanner_next_loop small_kernel (Suc n) sc s1 = (Inr (None, sc\<lparr>sc_walk := w'\<rparr>), s2)"
    if "sc_walk sc = w" "sc_error sc = None" for n sc
    using second that by (simp add: bindE_def ret_def)
  from this [of _ 9] have next2: "Scanner_next small_kernel sc s1 = (Inr (None, sc\<lparr>sc_walk := w'\<rparr>), s2)"
    if "sc_walk sc = w" "sc_error sc = None" for sc
    using that by (simp add: Scanner_next_def del: Scanner_next_loop.simps)
  show ?thesis
    using next1 small_not_worth
    by (simp add: bindE_def run_extent_def ret_def count_left_alone_def) (simp add: small_scanner_def next2 ret_def)
qed

lemma small_run:
  "\<exists>stats rp printed s'. run small_kernel \<lparr>op_path = ''/mnt'', op_apply = b\<rparr> (sample_sys ()) =
     (Inr (Inr (stats, rp), printed), s')"
proof -
  have opened: "Filesystem_open small_kernel ''/mnt'' (sample_sys ()) = (Inr file_fs, sample_sys ())"
    by (simp add: Filesystem_open_def bindE_def sys_call_def small_kernel_simps Let_def is_power_of_two_def
        own_root_id_def ino_lookup_args_def ret_def map_err_def matchE_def open_beneath_def modifyS_def
        file_fs_def ST_RDONLY_def upt_rec sample_sys_def)
  have synced: "sync small_kernel file_fs s = (Inr (), s)" for s
    by (simp add: sync_def sys_call_def small_kernel_simps)
  have "generation small_kernel file_fs s = (Inr 10, s)" for s
    by (simp add: generation_def bindE_def sys_call_def small_kernel_simps ret_def)
  with synced have new: "Scanner_new small_kernel file_fs s = (Inr small_scanner, s)" for s
    by (simp add: Scanner_new_def walk_def bindE_def ret_def small_scanner_def small_walk_def)
  let ?opts = "\<lparr>op_path = ''/mnt'', op_apply = b\<rparr>"
  obtain sc s' where loop: "run_loop small_kernel file_fs (rounds small_kernel) small_scanner (Runner_new ?opts) (sample_sys ()) =
      (Inr (sc, Runner_new ?opts), s')" "sc_error sc = None"
    using small_run_loop [of file_fs 8 "Runner_new ?opts"] by auto
  have "\<not> fs_read_only file_fs" by (simp add: file_fs_def)
  with opened new loop synced show ?thesis
    by (cases b) (simp_all add: run_def run_end_def matchE_def bindE_def ret_def Let_def split: prod.split)
qed

lemma run_adds_up_witness:
  "\<exists>stats rp printed s' trail lefts.
     run small_kernel \<lparr>op_path = ''/mnt'', op_apply = False\<rparr> (sample_sys ()) = (Inr (Inr (stats, rp), printed), s')
     \<and> scanned small_kernel trail lefts stats \<and> reported trail rp"
proof -
  obtain stats rp printed s' where run: "run small_kernel \<lparr>op_path = ''/mnt'', op_apply = False\<rparr> (sample_sys ()) =
      (Inr (Inr (stats, rp), printed), s')"
    using small_run by blast
  from run_adds_up [OF run] run show ?thesis by blast
qed


end
