(* ===== verification/Panics.thy ===== *)
theory Panics
  imports Driver
begin

text \<open>
  No run of the program panics, whatever the kernel answers: every index, slice, division and
  \<open>unwrap\<close> of the modelled code is in bounds. What protects them is checked early and once: the sector
  size is a power of two since the filesystem was opened, and an extent has a reference since it was
  resolved.
\<close>

section \<open>The scan\<close>

lemma calm_items: "calm (case items K args each b of Inl e \<Rightarrow> raise e | Inr x \<Rightarrow> ret x)"
  by (cases "items K args each b") (simp_all add: calm_intros)

lemma calm_extent_batch [calm_intros]: "calm (extent_batch K frm gen)"
  unfolding extent_batch_def batch_search_def tally_at_def Let_def
  by (intro calm_intros calm_items)

lemma calm_resolve_unresolved [calm_intros]: "calm (resolve_unresolved K u)"
  unfolding resolve_unresolved_def
proof (rule calm_matchE [OF calm_resolve])
  fix refs s s' assume "resolve K (u_disk_address u) (u_item u) (u_backrefs u) s = (Inr refs, s')"
  then have "from_refs refs \<noteq> None" using from_refs_here [OF resolve_here] by blast
  then show "calm (bindE (unwrap (from_refs refs)) (\<lambda>e. ret (ResolvedExtent e)))"
    by (intro calm_bind calm_unwrap calm_ret)
qed (rule calm_ret)

lemma calm_walk_next [calm_intros]: "calm (walk_next K w)"
proof -
  have "calm (walk_next_loop K n w)" for n
  proof (induction n arbitrary: w)
    case (Suc n)
    show ?case unfolding walk_next_loop.simps by (intro calm_intros Suc.IH)
  qed (simp add: calm_stop)
  then show ?thesis by (simp add: walk_next_def)
qed

lemma calm_walk [calm_intros]: "calm (walk K fs)"
  unfolding walk_def sync_def generation_def by (intro calm_intros) simp_all

lemma calm_Scanner_next [calm_intros]: "calm (Scanner_next K sc)"
proof -
  have "calm (Scanner_next_loop K n sc)" for n
  proof (induction n arbitrary: sc)
    case (Suc n)
    show ?case
      by (auto simp: Let_def split: option.splits sum.splits resolved.splits intro!: calm_intros Suc.IH)
  qed (simp add: calm_stop)
  then show ?thesis by (simp add: Scanner_next_def)
qed

lemma calm_Scanner_resolve_again [calm_intros]: "calm (Scanner_resolve_again K e sc)"
  unfolding Scanner_resolve_again_def by (intro calm_intros)

section \<open>Reaching files\<close>

lemma calm_open_subvolume [calm_intros]: "calm (open_subvolume K topdir p root)"
  unfolding open_subvolume_def by (intro calm_intros) simp

lemma calm_find_subvolume:
  "(\<And>root. calm (subvolume_at K fs n root)) \<Longrightarrow> calm (find_subvolume K fs n root)"
  unfolding find_subvolume.simps root_backref_def ino_lookup_def ino_lookup_args_def
  by (intro calm_intros)

lemma calm_subvolume [calm_intros]: "calm (subvolume_of K fs root)"
proof -
  have "calm (subvolume_at K fs n root)" for n
  proof (induction n arbitrary: root)
    case (Suc n)
    then show ?case unfolding subvolume_at.simps by (intro calm_intros calm_find_subvolume)
  qed (simp add: calm_stop)
  then show ?thesis by (simp add: subvolume_of_def)
qed

lemma calm_inode_path [calm_intros]: "calm (inode_path K fs root inode)"
  unfolding inode_path_def Let_def by (intro calm_intros) simp

lemma calm_is_nocow [calm_intros]: "calm (is_nocow K f)"
  unfolding is_nocow_def get_flags_def by (intro calm_intros)

lemma calm_temp_file [calm_intros]: "calm (temp_file K fs)"
  unfolding temp_file_def get_flags_def set_flags_def by (intro calm_intros) simp

lemma calm_dedupe [calm_intros]: "calm (dedupe K src so len dest at)"
  unfolding dedupe_def by (intro calm_intros) simp_all

lemma calm_Located_open [calm_intros]: "calm (Located_open K fs h)"
  unfolding Located_open_def by (intro calm_intros)

lemma calm_stage [calm_intros]: "calm (stage K fs p bytes)"
  unfolding stage_def by (intro calm_intros)

lemma calm_modified_time [calm_intros]: "calm (modified_time p meta)"
  unfolding modified_time_def by (intro calm_intros) simp

lemma calm_HolderBefore_read [calm_intros]: "calm (HolderBefore_read K fs h)"
  unfolding HolderBefore_read_def by (intro calm_intros)

lemma calm_inode_holds_extent [calm_intros]: "calm (inode_holds_extent K root inode frm till a)"
  unfolding inode_holds_extent_def search_extent_refs_def by (intro calm_intros)

lemma calm_check_released [calm_intros]: "calm (check_released K e h)"
  unfolding check_released_def Failure_other_def by (intro calm_intros) simp

section \<open>Rounding to sectors\<close>

lemma calm_round_down: "m \<noteq> 0 \<Longrightarrow> calm (unwrap (round_down n m))"
  by (simp add: round_down_def calm_unwrap)

lemma calm_next_multiple_of: "m \<noteq> 0 \<Longrightarrow> calm (unwrap (next_multiple_of n m))"
  by (simp add: next_multiple_of_def calm_unwrap)

lemma calm_locate_holders:
  assumes "fs_sectorsize fs \<noteq> 0"
  shows "calm (locate_holders K fs e)"
proof -
  have "calm (locate_loop K fs hs located)" for hs located
  proof (induction hs arbitrary: located)
    case (Cons h hs)
    show ?case
      unfolding locate_loop.simps Let_def
      by (intro calm_intros calm_next_multiple_of [OF assms] Cons.IH) simp_all
  qed (simp add: calm_ret)
  then show ?thesis by (simp add: locate_holders_def)
qed

section \<open>Slices\<close>

lemma calm_read_into: "lo \<le> hi \<Longrightarrow> hi \<le> length buf \<Longrightarrow> calm (read_into K f at lo hi buf)"
  unfolding read_into_def by (auto intro!: calm_intros)

lemma read_into_length:
  "read_into K f at lo hi buf s = (Inr buf', s') \<Longrightarrow> length buf' = length buf"
  by (auto simp: read_into_def bindE_Inr overwrite_def split: if_splits)

lemma calm_fill:
  assumes "start \<le> at" and "length buf = unat (fin - start)"
  shows "calm (fill_loop K fs start fin refs at buf)"
  using assms
proof (induction refs arbitrary: at buf)
  case (Cons rh refs)
  obtain r h where rh: "rh = (r, h)" by (cases rh)
  have reads: "calm (bindE (map_err (Failure_new (lc_path h)) (read_into K f fo (unat (at - start)) (unat (till - start)) buf))
      (fill_loop K fs start fin refs till))" if "at < till" "till \<le> fin" for f fo till
  proof (rule calm_bindE)
    have "start \<le> till" using Cons.prems(1) that(1) by simp
    then show "calm (map_err (Failure_new (lc_path h)) (read_into K f fo (unat (at - start)) (unat (till - start)) buf))"
      using that Cons.prems
      by (intro calm_map_err calm_read_into) (auto simp: unat_sub_le word_le_nat_alt word_less_nat_alt)
    fix buf' s s' assume "map_err (Failure_new (lc_path h))
        (read_into K f fo (unat (at - start)) (unat (till - start)) buf) s = (Inr buf', s')"
    then have "length buf' = length buf" by (simp add: read_into_length)
    then show "calm (fill_loop K fs start fin refs till buf')"
      using \<open>start \<le> till\<close> Cons.prems(2) by (intro Cons.IH) simp_all
  qed
  have body: "calm (if till \<le> at then fill_loop K fs start fin refs at buf
      else bindE (map_err (Failure_new (lc_path h)) (read_into K f fo (unat (at - start)) (unat (till - start)) buf))
             (fill_loop K fs start fin refs till))" if "till \<le> fin" for f fo till
    using reads that Cons by (intro calm_if) simp_all
  show ?case
    unfolding rh fill_loop.simps Let_def
    by (rule calm_if [OF calm_ret], rule calm_if [OF Cons.IH [OF Cons.prems]],
        rule calm_bind [OF calm_Located_open], rule calm_bind [OF calm_map_err [OF calm_sys_call]], rule body)
       (simp add: min.coboundedI1)
qed (simp add: calm_ret)

lemma calm_read_liveranges:
  assumes "fs_sectorsize fs \<noteq> 0"
  shows "calm (read_liveranges K fs e hs)"
proof -
  have "calm (stretch_loop K fs refs fin n start copies)" for refs fin n start copies
  proof (induction n arbitrary: start copies)
    case (Suc n)
    have "calm (fill K fs refs start fin (replicate (unat (fin - start)) 0))"
      unfolding fill_def by (rule calm_fill) simp_all
    then show ?case
      unfolding stretch_loop.simps by (intro calm_intros calm_round_down [OF assms] Suc.IH)
  qed (simp add: calm_stop)
  then show ?thesis unfolding read_liveranges_def Let_def by (intro calm_intros)
qed

section \<open>Rewriting\<close>

lemma calm_redirect_tail [calm_intros]: "calm (redirect_tail K fs p f frm filesize)"
  unfolding redirect_tail_def Let_def by (intro calm_intros calm_read_into) simp_all

lemma calm_chunk_loop [calm_intros]: "calm (chunk_loop K fs p temp f start r fin till n at)"
proof (induction n arbitrary: at)
  case (Suc n)
  then show ?case unfolding chunk_loop.simps Let_def by (intro calm_intros) simp_all
qed (simp add: calm_stop)

lemma calm_redirect_chunks [calm_intros]: "calm (redirect_chunks K fs h temp lr filesize)"
  unfolding redirect_chunks_def redirect_ref_def Let_def by (intro calm_intros)

lemma calm_redirect_all: "hbs \<noteq> [] \<Longrightarrow> calm (redirect_all K fs hbs lr)"
  unfolding redirect_all_def by (intro calm_intros calm_unwrap) (auto split: list.split)

lemma calm_finish_holder: "fs_sectorsize fs \<noteq> 0 \<Longrightarrow> calm (finish_holder K fs h before)"
  unfolding finish_holder_def Let_def Failure_modified_def
  by (intro calm_intros calm_round_down) simp_all

lemma mapE_length: "mapE f xs s = (Inr ys, s') \<Longrightarrow> length ys = length xs"
  by (induction xs arbitrary: ys s) (auto simp: bindE_Inr)

lemma calm_realloc_extent:
  assumes "fs_sectorsize fs \<noteq> 0" and "hs \<noteq> []"
  shows "calm (realloc_extent K fs e hs)"
  unfolding realloc_extent_def
proof (rule calm_bind [OF calm_read_liveranges [OF assms(1)]], rule calm_bindE)
  fix liveranges before s s' assume "mapE (HolderBefore_read K fs) hs s = (Inr before, s')"
  with assms(2) have "zip hs before \<noteq> []" by (auto dest!: mapE_length)
  then show "calm (bindE (foldE (\<lambda>lr _. redirect_all K fs (zip hs before) lr) liveranges ()) (\<lambda>_.
     bindE (foldE (\<lambda>hb _. finish_holder K fs (fst hb) (snd hb)) (zip hs before) ()) (\<lambda>_.
     foldE (\<lambda>h _. check_released K e h) hs ())))"
    by (intro calm_intros calm_redirect_all calm_finish_holder assms(1))
qed (intro calm_intros)

section \<open>The run\<close>

lemma located_not_empty:
  assumes "e_refs e \<noteq> []" and "locate_holders K fs e s = (Inr (Inr hs), s')"
  shows "hs \<noteq> []"
proof -
  have "length ls = length located + length hs'" if "locate_loop K fs hs' located t = (Inr (Inr ls), t')" for hs' located ls t t'
    using that
    by (induction hs' arbitrary: located t)
       (auto simp: matchE_Inr bindE_Inr Let_def split: option.splits if_splits)
  from this [of "holders e" "[]" s hs s'] assms(2) holders_not_empty [OF assms(1)] show ?thesis
    by (auto simp: locate_holders_def)
qed

lemma calm_Runner_process:
  assumes "fs_sectorsize fs \<noteq> 0" and "e_refs e \<noteq> []"
  shows "calm (Runner_process K fs e rn)"
  unfolding Runner_process_def
proof (rule calm_matchE [OF calm_locate_holders [OF assms(1)]], rule calm_sum)
  fix located hs s s' assume "locate_holders K fs e s = (Inr located, s')" "located = Inr hs"
  then have hs: "hs \<noteq> []" using located_not_empty [OF assms(2)] by simp
  then have "describe e hs True \<noteq> None" by (cases hs) (simp_all add: describe_def Let_def)
  then show "calm (matchE (if op_apply (rn_options rn) then realloc_extent K fs e hs else ret ())
                (\<lambda>_. bindE (if op_apply (rn_options rn)
                          then bindE (unwrap (describe e hs True)) (\<lambda>line. ret [line])
                          else ret []) (\<lambda>lines.
                   ret (Inr None, rn\<lparr>rn_printed := rn_printed rn @ lines,
                                     rn_report := count_rewritten e (rn_report rn)\<rparr>)))
                (\<lambda>failure. ret (failed K failure rn)))"
    by (intro calm_intros calm_realloc_extent [OF assms(1) hs] calm_unwrap)
qed (rule calm_ret)+

lemma Scanner_resolve_again_refs:
  assumes "Scanner_resolve_again K e sc s = (Inr (Some e', sc'), s')"
  shows "e_refs e' \<noteq> []"
  using assms wp_ok [OF resolve_again_wp [of K e s]]
  by (auto simp: Scanner_resolve_again_def matchE_Inr)

lemma calm_run_extent:
  assumes "fs_sectorsize fs \<noteq> 0"
  shows "calm (run_extent K fs e sc rn)"
  unfolding run_extent_def
proof (rule calm_if [OF calm_ret], rule calm_option, rule calm_bindE [OF calm_Scanner_resolve_again], rule calm_prod)
  fix x s s' again sc' assume "Scanner_resolve_again K e sc s = (Inr x, s')" "x = (again, sc')"
  then have refs: "again = Some e' \<Longrightarrow> e_refs e' \<noteq> []" for e'
    using Scanner_resolve_again_refs by blast
  show "calm (case again of
               None \<Rightarrow> ret (True, sc', rn)
             | Some e \<Rightarrow>
                 if disk_free_bytes e = 0 then ret (True, sc', rn)
                 else
                   (case not_worth_rewriting e of
                      Some reason \<Rightarrow> ret (True, count_left_alone reason (Some e) sc', rn)
                    | None \<Rightarrow>
                        bindE (Runner_process K fs e rn) (\<lambda>(result, rn).
                        case result of
                          Inr None \<Rightarrow> ret (True, sc', rn)
                        | Inr (Some reason) \<Rightarrow> ret (True, count_left_alone reason (Some e) sc', rn)
                        | Inl err \<Rightarrow> ret (False, (count_left_alone Failed (Some e) sc')\<lparr>sc_error := Some err\<rparr>, rn))))"
    by (intro calm_intros calm_Runner_process [OF assms] refs)
qed (rule calm_ret)+

lemma calm_run_loop:
  assumes "fs_sectorsize fs \<noteq> 0"
  shows "calm (run_loop K fs n sc rn)"
proof (induction n arbitrary: sc rn)
  case (Suc n)
  then show ?case unfolding run_loop.simps by (intro calm_intros calm_run_extent [OF assms])
qed (simp add: calm_stop)

lemma power_of_two_not_zero: "\<not> is_power_of_two 0"
  by code_simp

lemma Filesystem_open_sector:
  assumes "Filesystem_open K p s = (Inr fs, s')"
  shows "fs_sectorsize fs \<noteq> 0"
  using assms power_of_two_not_zero by (auto simp: Filesystem_open_def Let_def bindE_Inr split: if_splits)

lemma calm_run: "calm (run K opts)"
  unfolding run_def
proof (rule calm_matchE [OF calm_Filesystem_open], rule calm_if [OF calm_ret])
  fix fs s s' assume "Filesystem_open K (op_path opts) s = (Inr fs, s')"
  note sector = Filesystem_open_sector [OF this]
  have "calm (Scanner_new K fs)" unfolding Scanner_new_def by (intro calm_intros)
  moreover have "calm (run_end K opts fs sc rn)" for sc rn
    unfolding run_end_def sync_def Let_def by (intro calm_intros)
  ultimately show "calm (matchE (Scanner_new K fs)
      (\<lambda>sc. bindE (run_loop K fs (rounds K) sc (Runner_new opts)) (\<lambda>(sc, rn). run_end K opts fs sc rn))
      (\<lambda>e. ret (Inl e, [])))"
    by (intro calm_intros calm_run_loop [OF sector])
qed (rule calm_ret)

section \<open>Rows of the tables\<close>

text \<open>The tables of the scan have a row for each size class and for each reason.\<close>

definition tables_ok :: "scan_stats \<Rightarrow> bool" where
  "tables_ok stats \<longleftrightarrow> length (tt_buckets (ss_totals stats)) = 64
     \<and> length (la_reasons (ss_left_alone stats)) = length LeftAlone_ALL"

lemma length_Totals_add [simp]: "length (tt_buckets (Totals_add e t)) = length (tt_buckets t)"
  by (simp add: Totals_add_def Let_def)

lemma length_LeftAloneStats_add [simp]: "length (la_reasons (LeftAloneStats_add reason e t)) = length (la_reasons t)"
  by (simp add: LeftAloneStats_add_def Let_def)

lemma length_left_unresolved [simp]: "length (la_reasons (left_unresolved errs t)) = length (la_reasons t)"
  by (induction errs arbitrary: t) (simp_all add: left_unresolved_def)

lemma tables_ok_counted:
  "tables_ok (sc_stats sc) \<Longrightarrow> tables_ok (sc_stats (count_left_alone reason e sc))"
  "tables_ok (sc_stats sc) \<Longrightarrow> tables_ok (sc_stats (leave_unresolved K a err e sc))"
  by (simp_all add: tables_ok_def count_left_alone_def leave_unresolved_def split: option.split)

lemma tables_ok_next:
  assumes "tables_ok (sc_stats sc)" and "Scanner_next K sc s = (Inr (r, sc'), s')"
  shows "tables_ok (sc_stats sc')"
  using assms Scanner_next_loop_counts [of K "rounds K" sc s r sc' s']
  by (auto simp: tables_ok_def Scanner_next_def split: option.split_asm)

lemma tables_ok_extent:
  assumes "tables_ok (sc_stats sc)" and "run_extent K fs e sc rn s = (Inr (go_on, sc', rn'), s')"
  shows "tables_ok (sc_stats sc')"
  using assms(2)
proof (cases rule: run_extent_cases)
  case (processed e' t result)
  with assms(1) tables_ok_counted(1) [OF assms(1)] show ?thesis
    by (auto simp: after_process_def split: sum.split_asm option.split_asm)
qed (simp_all add: assms(1) tables_ok_counted)



section \<open>Errors\<close>

text \<open>\<open>firm m\<close>: \<open>m\<close> passes no error up with \<open>?\<close>; what has gone wrong is in what it returns.\<close>

definition firm :: "('s, 'e, 'a) comp \<Rightarrow> bool" where
  "firm m \<longleftrightarrow> (\<forall>s e. fst (m s) \<noteq> Inl (Raise e))"

lemma firm_ret: "firm (ret x)"
  by (simp add: firm_def ret_def)

lemma firm_no_return: "firm (stop NoReturn)"
  by (simp add: firm_def stop_def)

lemma firm_unwrap: "firm (unwrap x)"
  by (simp add: firm_def unwrap_def ret_def stop_def split: option.split)

lemma firm_bindE: "firm m \<Longrightarrow> (\<And>x. firm (f x)) \<Longrightarrow> firm (bindE m f)"
  by (auto simp: firm_def bindE_def split: prod.split sum.split) (metis fst_conv)

lemma firm_matchE: "(\<And>x. firm (ok x)) \<Longrightarrow> (\<And>e. firm (err e)) \<Longrightarrow> firm (matchE m ok err)"
  by (auto simp: firm_def matchE_def split: prod.split sum.split stop.split)

lemma firm_mapE: "(\<And>x. firm (f x)) \<Longrightarrow> firm (mapE f xs)"
  by (induction xs) (auto intro!: firm_bindE firm_ret)

lemma firm_cases:
  "(b \<Longrightarrow> firm m) \<Longrightarrow> (\<not> b \<Longrightarrow> firm n) \<Longrightarrow> firm (if b then m else n)"
  "firm m \<Longrightarrow> (\<And>y. firm (f y)) \<Longrightarrow> firm (case o' of None \<Rightarrow> m | Some y \<Rightarrow> f y)"
  "(\<And>y. firm (g y)) \<Longrightarrow> (\<And>y. firm (f y)) \<Longrightarrow> firm (case u of Inl y \<Rightarrow> g y | Inr y \<Rightarrow> f y)"
  "(\<And>a b. firm (h a b)) \<Longrightarrow> firm (case p of (a, b) \<Rightarrow> h a b)"
  "firm m \<Longrightarrow> (\<And>y ys. firm (k y ys)) \<Longrightarrow> firm (case l of [] \<Rightarrow> m | y # ys \<Rightarrow> k y ys)"
  "(\<And>e. firm (f' e)) \<Longrightarrow> (\<And>a e. firm (h' a e)) \<Longrightarrow>
     firm (case r of ResolvedExtent e \<Rightarrow> f' e | ResolvedLeftAlone a e \<Rightarrow> h' a e)"
  by (auto split: option.split sum.split prod.split list.split resolved.split)

lemmas firm_intros = firm_ret firm_no_return firm_unwrap firm_bindE firm_matchE firm_mapE firm_cases

lemma firm_walk_next: "firm (walk_next K w)"
proof -
  have "firm (walk_next_loop K n w)" for n
    by (induction n arbitrary: w) (auto simp: resolve_unresolved_def intro!: firm_intros)
  then show ?thesis by (simp add: walk_next_def)
qed

lemma firm_Scanner_next: "firm (Scanner_next K sc)"
proof -
  have "firm (Scanner_next_loop K n sc)" for n
    by (induction n arbitrary: sc) (auto simp: Let_def intro!: firm_intros firm_walk_next)
  then show ?thesis by (simp add: Scanner_next_def)
qed

lemma firm_run_extent: "firm (run_extent K fs e sc rn)"
  unfolding run_extent_def Scanner_resolve_again_def Runner_process_def by (intro firm_intros)

lemma firm_run_loop: "firm (run_loop K fs n sc rn)"
  by (induction n arbitrary: sc rn) (auto intro!: firm_intros firm_Scanner_next firm_run_extent)

lemma firm_run: "firm (run K opts)"
  unfolding run_def run_end_def Let_def by (intro firm_intros firm_run_loop)

lemma main_ends: "fst (main K euid args s) = Inl NoReturn \<or> (\<exists>x. fst (main K euid args s) = Inr x)"
proof -
  have "calm (main K euid args)" "firm (main K euid args)"
    unfolding main_def Let_def by (intro calm_intros calm_run firm_intros firm_run)+
  then have "fst (main K euid args s) \<noteq> Inl Panic" "fst (main K euid args s) \<noteq> Inl (Raise e)" for e
    by (auto simp: calm_def firm_def)
  then show ?thesis by (metis stop.exhaust sum.exhaust)
qed


end
