(* ===== verification/Parallel.thy ===== *)
theory Parallel
  imports Walk
begin

text \<open>
  The walk hands its batches to a thread pool (\<open>into_par_iter\<close> in \<open>ExtentWalk::next\<close>, src/kernel.rs).
  Resolving shares the handle's pool of search buffers and its table of last snapshots between the
  threads. On a filesystem that stays as it is neither shows in a result: what an extent resolves to
  is a function of the trees and of what the backreference walk finds, whatever was resolved before
  it, and so a batch gives the same in whatever order its extents are taken.
\<close>

section \<open>Batches taken in any order\<close>

text \<open>The elements of \<open>xs\<close> handled in the order of their places in \<open>order\<close>, and the results collected in
  the order of \<open>xs\<close>.\<close>

definition par_map :: "nat list \<Rightarrow> ('x \<Rightarrow> ('s, 'e, 'y) comp) \<Rightarrow> 'x list \<Rightarrow> ('s, 'e, 'y list) comp" where
  "par_map order f xs =
     bindE (mapE (\<lambda>i. bindE (f (xs ! i)) (\<lambda>y. ret (i, y))) order) (\<lambda>ys.
     ret (map (\<lambda>i. the (map_of ys i)) [0..<length xs]))"

text \<open>A computation that, from every state with a property, keeps it and has one outcome.\<close>

definition determined :: "('s \<Rightarrow> bool) \<Rightarrow> ('s, 'e, 'a) comp \<Rightarrow> 'e stop + 'a \<Rightarrow> bool" where
  "determined I m v \<longleftrightarrow> (\<forall>s. I s \<longrightarrow> (\<exists>s'. m s = (v, s') \<and> I s'))"

lemma determinedI: "(\<And>s. I s \<Longrightarrow> \<exists>s'. m s = (v, s') \<and> I s') \<Longrightarrow> determined I m v"
  by (simp add: determined_def)

lemma determinedD: "determined I m v \<Longrightarrow> I s \<Longrightarrow> \<exists>s'. m s = (v, s') \<and> I s'"
  by (simp add: determined_def)

lemma determined_ret: "determined I (ret x) (Inr x)"
  by (simp add: determined_def ret_def)

lemma determined_stop: "determined I (stop q) (Inl q)"
  by (simp add: determined_def stop_def)

lemma determined_bindE:
  assumes "determined I m v"
    and "\<And>q. v = Inl q \<Longrightarrow> r = Inl q" and "\<And>x. v = Inr x \<Longrightarrow> determined I (f x) r"
  shows "determined I (bindE m f) r"
proof (rule determinedI)
  fix s assume "I s"
  with assms(1) obtain s1 where m: "m s = (v, s1)" "I s1" by (auto dest: determinedD)
  show "\<exists>s'. bindE m f s = (r, s') \<and> I s'"
  proof (cases v)
    case (Inl q)
    with m assms(2) show ?thesis by (simp add: bindE_def)
  next
    case (Inr x)
    with m determinedD [OF assms(3) [OF Inr] m(2)] show ?thesis by (simp add: bindE_def)
  qed
qed

lemma determined_matchE:
  assumes "determined I m v"
    and "\<And>e. v = Inl (Raise e) \<Longrightarrow> determined I (g e) r" and "\<And>x. v = Inr x \<Longrightarrow> determined I (f x) r"
    and "\<And>q. v = Inl q \<Longrightarrow> \<exists>e. q = Raise e"
  shows "determined I (matchE m f g) r"
proof (rule determinedI)
  fix s assume "I s"
  with assms(1) obtain s1 where m: "m s = (v, s1)" "I s1" by (auto dest: determinedD)
  show "\<exists>s'. matchE m f g s = (r, s') \<and> I s'"
  proof (cases v)
    case (Inl q)
    then obtain e where "q = Raise e" using assms(4) by blast
    with Inl m determinedD [OF assms(2) m(2)] show ?thesis by (simp add: matchE_def)
  next
    case (Inr x)
    with m determinedD [OF assms(3) [OF Inr] m(2)] show ?thesis by (simp add: matchE_def)
  qed
qed

lemma determined_mapE:
  assumes "\<And>x. determined I (f x) (Inr (g x))"
  shows "determined I (mapE f xs) (Inr (map g xs))"
proof (induction xs)
  case (Cons x xs)
  show ?case
    unfolding mapE.simps
    by (rule determined_bindE [OF assms], simp, rule determined_bindE [OF Cons.IH], simp)
       (auto intro: determined_ret)
qed (simp add: determined_ret)

text \<open>Whatever the order, each result comes back at its own place.\<close>

lemma determined_par_map:
  assumes "\<And>x. determined I (f x) (Inr (g x))" and "{..<length xs} \<subseteq> set order"
  shows "determined I (par_map order f xs) (Inr (map g xs))"
proof -
  have one: "determined I (bindE (f (xs ! i)) (\<lambda>y. ret (i, y))) (Inr (i, g (xs ! i)))" for i
    by (rule determined_bindE [OF assms(1)]) (auto intro: determined_ret)
  have "map_of (map (\<lambda>i. (i, g (xs ! i))) order) i = Some (g (xs ! i))" if "i < length xs" for i
    using assms(2) that by (auto simp: map_of_map_restrict)
  then have "map (\<lambda>i. the (map_of (map (\<lambda>i. (i, g (xs ! i))) order) i)) [0..<length xs] = map g xs"
    by (intro nth_equalityI) auto
  then show ?thesis
    unfolding par_map_def by (intro determined_bindE [OF determined_mapE [OF one]]) (auto intro: determined_ret)
qed

section \<open>What an extent resolves to\<close>

text \<open>The reference: written over the trees and the finds of the backreference walk (\<open>None\<close>: nothing is
  there any more), without any state.\<close>

definition collected_in ::
  "'z abi_scheme \<Rightarrow> (u64 \<Rightarrow> item list) \<Rightarrow> u64 \<Rightarrow> u64 \<Rightarrow> data_ref list \<Rightarrow> io_error + extent_ref list"
where
  "collected_in A tree disk_address disk_bytes data_refs =
     (let refs = concat (map (refs_of A tree disk_address disk_bytes) data_refs)
      in if \<not> list_all (\<lambda>d. of_nat (length (refs_of A tree disk_address disk_bytes d)) = d_count d) data_refs
         then Inl (changed ''changed while it was being read'')
         else if refs = [] then Inl (changed ''no longer referenced'') else Inr refs)"

type_synonym finds = "u64 \<Rightarrow> (u64 \<times> u64 \<times> u64) list option"

definition backrefs_in :: "finds \<Rightarrow> u64 \<Rightarrow> io_error + data_ref list" where
  "backrefs_in found disk_address =
     (case found disk_address of
        None \<Rightarrow> Inl (changed ''no longer referenced'')
      | Some ts \<Rightarrow>
          if 16 + 24 * length ts \<le> LOGICAL_INO_MAX_SIZE then Inr (triples_to_refs (by_file ts))
          else Inl (other_error ''extent has more backreferences than fit in one lookup''))"

definition walked_in ::
  "'z abi_scheme \<Rightarrow> (u64 \<Rightarrow> item list) \<Rightarrow> finds \<Rightarrow> u64 \<Rightarrow> u64 \<Rightarrow> io_error + extent_ref list"
where
  "walked_in A tree found disk_address disk_bytes =
     (case backrefs_in found disk_address of
        Inl e \<Rightarrow> Inl e
      | Inr data_refs \<Rightarrow> collected_in A tree disk_address disk_bytes data_refs)"

definition snapshot_in :: "'z abi_scheme \<Rightarrow> (u64 \<Rightarrow> item list) \<Rightarrow> u64 \<Rightarrow> io_error + u64" where
  "snapshot_in A tree root =
     (case snapshot_of A tree root of
        None \<Rightarrow> Inl (other_error (''subvolume '' @ show_nat (unat root) @ '' has no root item''))
      | Some g \<Rightarrow> Inr g)"

fun shared_in :: "'z abi_scheme \<Rightarrow> (u64 \<Rightarrow> item list) \<Rightarrow> extent_ref list \<Rightarrow> io_error + bool" where
  "shared_in A tree [] = Inr False"
| "shared_in A tree (r # refs) =
     (case snapshot_in A tree (r_root r) of
        Inl e \<Rightarrow> Inl e
      | Inr g \<Rightarrow> if r_leaf_generation r \<le> g then Inr True else shared_in A tree refs)"

definition references_in ::
  "'z abi_scheme \<Rightarrow> (u64 \<Rightarrow> item list) \<Rightarrow> finds \<Rightarrow> unresolved \<Rightarrow> io_error + extent_ref list"
where
  "references_in A tree found u =
     (let walked = walked_in A tree found (u_disk_address u) (x_disk_bytes (u_item u))
      in case u_backrefs u of
           Opaque \<Rightarrow> walked
         | Files data_refs \<Rightarrow>
             (case collected_in A tree (u_disk_address u) (x_disk_bytes (u_item u)) data_refs of
                Inl _ \<Rightarrow> walked
              | Inr refs \<Rightarrow>
                  (case shared_in A tree refs of
                     Inl e \<Rightarrow> Inl e
                   | Inr shared \<Rightarrow> if shared then walked else Inr refs)))"

definition resolved_in ::
  "'z abi_scheme \<Rightarrow> (u64 \<Rightarrow> item list) \<Rightarrow> finds \<Rightarrow> unresolved \<Rightarrow> resolved"
where
  "resolved_in A tree found u =
     (case references_in A tree found u of
        Inl e \<Rightarrow> ResolvedLeftAlone (u_disk_address u) e
      | Inr refs \<Rightarrow> ResolvedExtent (the (from_refs refs)))"

section \<open>A filesystem that stays as it is\<close>

text \<open>The backreference walk answers as documented: with the finds, or with \<open>ENOENT\<close>.\<close>

definition finding :: "('w, 'f) kernel \<Rightarrow> (u64 \<Rightarrow> item list) \<Rightarrow> finds \<Rightarrow> bool" where
  "finding K tree found \<longleftrightarrow>
     (\<forall>w a. serves K tree w \<longrightarrow>
        (case found a of
           None \<Rightarrow> \<forall>n buf. k_logical_ino K a n buf w = (Inl (OsError 2), w)
         | Some ts \<Rightarrow> walks_to K w a ts \<and> length ts < 2 ^ 27))"

text \<open>The trees are served, and the table of last snapshots holds what they say.\<close>

definition settled :: "('w, 'f) kernel \<Rightarrow> (u64 \<Rightarrow> item list) \<Rightarrow> finds \<Rightarrow> 'w sys \<Rightarrow> bool" where
  "settled K tree found s \<longleftrightarrow>
     finding K tree found \<and> serving K tree s \<and> last_snapshots s \<subseteq>\<^sub>m snapshot_of K tree"

abbreviation err_of :: "'e + 'a \<Rightarrow> 'e stop + 'a" where
  "err_of v \<equiv> map_sum Raise id v"

lemma settled_pool: "settled K tree found s \<Longrightarrow> serving K tree (s\<lparr>searchargs_pool := p\<rparr>) \<Longrightarrow>
    settled K tree found (s\<lparr>searchargs_pool := p\<rparr>)"
  by (simp add: settled_def)

lemma determined_collect:
  "determined (settled K tree found) (collect K a n data_refs) (err_of (collected_in K tree a n data_refs))"
proof (rule determinedI)
  fix s assume s: "settled K tree found s"
  then have "serving K tree s" by (simp add: settled_def)
  from collect_run [OF this, of a n data_refs] s show "\<exists>s'. collect K a n data_refs s =
      (err_of (collected_in K tree a n data_refs), s') \<and> settled K tree found s'"
    by (auto simp: collected_in_def Let_def split: if_splits dest: settled_pool)
qed

lemma determined_logical_ino:
  "determined (settled K tree found) (logical_ino K a) (err_of (backrefs_in found a))"
proof (rule determinedI)
  fix s assume s: "settled K tree found s"
  then have ok: "case found a of
      None \<Rightarrow> \<forall>n buf. k_logical_ino K a n buf (world s) = (Inl (OsError 2), world s)
    | Some ts \<Rightarrow> walks_to K (world s) a ts \<and> length ts < 2 ^ 27"
    by (simp add: settled_def finding_def serving_def)
  have "logical_ino K a s = (err_of (backrefs_in found a), s)"
  proof (cases "found a")
    case None
    with ok show ?thesis
      by (simp add: backrefs_in_def logical_ino_def logical_ino_loop.simps [of K a LOGICAL_INO_START_SIZE]
          logical_ino_call_def Let_def bindE_def matchE_def sys_call_def stop_def)
  next
    case (Some ts)
    with ok have "walks_to K (world s) a ts" "length ts < 2 ^ 27" by simp_all
    from logical_ino_run [OF this] Some show ?thesis by (simp add: backrefs_in_def)
  qed
  with s show "\<exists>s'. logical_ino K a s = (err_of (backrefs_in found a), s') \<and> settled K tree found s'" by blast
qed

lemma determined_last_snapshot:
  "determined (settled K tree found) (last_snapshot K root) (err_of (snapshot_in K tree root))"
proof (rule determinedI)
  fix s assume s: "settled K tree found s"
  then have ok: "serving K tree s" and le: "last_snapshots s \<subseteq>\<^sub>m snapshot_of K tree" by (simp_all add: settled_def)
  show "\<exists>s'. last_snapshot K root s = (err_of (snapshot_in K tree root), s') \<and> settled K tree found s'"
  proof (cases "last_snapshots s root")
    case (Some g)
    with le have "snapshot_of K tree root = Some g" by (auto simp: map_le_def dom_def)
    with Some s show ?thesis by (simp add: last_snapshot_def snapshot_in_def bindE_def getS_def ret_def)
  next
    case None
    obtain p where run: "searching (ROOT_TREE_OBJECTID K) (root, ROOT_ITEM_KEY K, 0) (root, ROOT_ITEM_KEY K, - 1)
         (search_all K (\<lambda>_ item _. Inr (read_struct u64_layout item (root_item_last_snapshot K))) None) s
       = (Inr (snapshot_of K tree root), s\<lparr>searchargs_pool := p\<rparr>)"
      and ok1: "serving K tree (s\<lparr>searchargs_pool := p\<rparr>)"
      unfolding snapshot_of_def by (rule searching_fold [OF ok])
    show ?thesis
    proof (cases "snapshot_of K tree root")
      case None
      with run \<open>last_snapshots s root = None\<close> settled_pool [OF s ok1] show ?thesis
        by (simp add: last_snapshot_def snapshot_in_def bindE_def getS_def stop_def)
    next
      case (Some g)
      have "(last_snapshots s)(root \<mapsto> g) \<subseteq>\<^sub>m snapshot_of K tree"
        using le Some by (auto simp: map_le_def)
      with run \<open>last_snapshots s root = None\<close> Some s ok1 show ?thesis
        by (simp add: last_snapshot_def snapshot_in_def bindE_def getS_def modifyS_def ret_def settled_def)
    qed
  qed
qed

lemma determined_may_be_shared:
  "determined (settled K tree found) (may_be_shared K refs) (err_of (shared_in K tree refs))"
proof (induction refs)
  case (Cons r refs)
  have one: "determined (settled K tree found)
      (bindE (last_snapshot K (r_root r)) (\<lambda>generation. ret (r_leaf_generation r \<le> generation)))
      (err_of (map_sum id (\<lambda>g. r_leaf_generation r \<le> g) (snapshot_in K tree (r_root r))))"
    by (rule determined_bindE [OF determined_last_snapshot])
       (cases "snapshot_in K tree (r_root r)"; auto intro: determined_ret)+
  show ?case
    unfolding may_be_shared_def anyE.simps
    by (rule determined_bindE [OF one])
       (cases "snapshot_in K tree (r_root r)"; use Cons.IH in \<open>auto simp: may_be_shared_def intro: determined_ret\<close>)+
qed (simp add: may_be_shared_def determined_ret)

lemma determined_walked:
  "determined (settled K tree found) (resolve_by_walk K a n) (err_of (walked_in K tree found a n))"
  unfolding resolve_by_walk_def
  by (rule determined_bindE [OF determined_logical_ino])
     (cases "backrefs_in found a"; auto simp: walked_in_def intro: determined_collect)+

lemma determined_resolve:
  "determined (settled K tree found) (resolve K (u_disk_address u) (u_item u) (u_backrefs u))
     (err_of (references_in K tree found u))"
proof (cases "u_backrefs u")
  case Opaque
  then show ?thesis by (simp add: resolve_def references_in_def determined_walked)
next
  case (Files data_refs)
  let ?n = "x_disk_bytes (u_item u)"
  have trusted: "determined (settled K tree found)
      (bindE (may_be_shared K refs) (\<lambda>shared. if \<not> shared then ret refs else resolve_by_walk K (u_disk_address u) ?n))
      (err_of (case shared_in K tree refs of
         Inl e \<Rightarrow> Inl e
       | Inr shared \<Rightarrow> if shared then walked_in K tree found (u_disk_address u) ?n else Inr refs))" for refs
    by (rule determined_bindE [OF determined_may_be_shared])
       (cases "shared_in K tree refs"; auto intro: determined_ret determined_walked)+
  show ?thesis
    unfolding Files resolve_def backrefs.case
    by (rule determined_matchE [OF determined_collect])
       (cases "collected_in K tree (u_disk_address u) ?n data_refs";
        auto simp: references_in_def Files Let_def intro: trusted determined_walked)+
qed

lemma determined_resolve_unresolved:
  "determined (settled K tree found) (resolve_unresolved K u) (Inr (resolved_in K tree found u))"
proof (rule determinedI)
  fix s assume "settled K tree found s"
  then obtain s' where run: "resolve K (u_disk_address u) (u_item u) (u_backrefs u) s =
      (err_of (references_in K tree found u), s')" and ok: "settled K tree found s'"
    using determinedD [OF determined_resolve] by blast
  show "\<exists>s'. resolve_unresolved K u s = (Inr (resolved_in K tree found u), s') \<and> settled K tree found s'"
  proof (cases "references_in K tree found u")
    case (Inl e)
    with run ok show ?thesis by (simp add: resolve_unresolved_def matchE_def ret_def resolved_in_def)
  next
    case (Inr refs)
    with run have "resolve K (u_disk_address u) (u_item u) (u_backrefs u) s = (Inr refs, s')" by simp
    from from_refs_here [OF resolve_here [OF this]] obtain e where "from_refs refs = Some e" by blast
    with run Inr ok show ?thesis
      by (simp add: resolve_unresolved_def matchE_def bindE_def unwrap_def ret_def resolved_in_def)
  qed
qed

section \<open>One result, in any order\<close>

text \<open>
  C27: On a filesystem that stays as it is, what an extent resolves to is what the trees and the
  backreference walk say, whatever the handle had resolved before: the extent tree's own account where
  its items add up and every leaf is newer than the last snapshot of its subvolume, the backreference
  walk's account otherwise, and left alone where neither gives a reference. The table of last snapshots
  goes on agreeing with the trees.
\<close>

theorem resolve_agrees_with_trees:
  assumes "settled K tree found s"
  shows "\<exists>s'. resolve_unresolved K u s = (Inr (resolved_in K tree found u), s') \<and> settled K tree found s'"
  by (rule determinedD [OF determined_resolve_unresolved assms])

text \<open>
  C28: The threads of the pool may take the extents of a batch in any order: each is resolved to the same,
  and the results come back in the order of the batch, the one in which the model resolves them.
\<close>

theorem batch_in_any_order:
  assumes "settled K tree found s" and "distinct order" and "set order = {..<length us}"
  shows "\<exists>rs s1 s2. par_map order (resolve_unresolved K) us s = (Inr rs, s1)
     \<and> mapE (resolve_unresolved K) us s = (Inr rs, s2)
     \<and> settled K tree found s1 \<and> settled K tree found s2
     \<and> map res_address rs = map u_disk_address us"
proof -
  have "res_address (resolved_in K tree found u) = u_disk_address u" for u
  proof -
    obtain s' where "resolve_unresolved K u s = (Inr (resolved_in K tree found u), s')"
      using determinedD [OF determined_resolve_unresolved assms(1)] by blast
    then show ?thesis by (rule resolve_unresolved_address)
  qed
  moreover have par: "determined (settled K tree found) (par_map order (resolve_unresolved K) us) (Inr (map (resolved_in K tree found) us))"
    by (rule determined_par_map [OF determined_resolve_unresolved]) (simp add: assms(3))
  obtain s1 where "par_map order (resolve_unresolved K) us s = (Inr (map (resolved_in K tree found) us), s1)"
    "settled K tree found s1"
    using determinedD [OF par assms(1)] by blast
  moreover have sequential: "determined (settled K tree found) (mapE (resolve_unresolved K) us) (Inr (map (resolved_in K tree found) us))"
    by (rule determined_mapE [OF determined_resolve_unresolved])
  obtain s2 where "mapE (resolve_unresolved K) us s = (Inr (map (resolved_in K tree found) us), s2)"
    "settled K tree found s2"
    using determinedD [OF sequential assms(1)] by blast
  ultimately show ?thesis
    by (intro exI [of _ "map (resolved_in K tree found) us"] exI [of _ s1] exI [of _ s2]) simp
qed

interpretation exactly: resolving K tree "\<lambda>s. finding K tree found \<and> serving K tree s" "settled K tree found"
    "resolved_in K tree found" "\<lambda>x. x"
  for K :: "('w, 'f) kernel" and tree found
proof unfold_locales
  fix frm gen r s t assume "finding K tree found \<and> serving K tree s" "extent_batch K frm gen s = (r, t)" "serving K tree t"
  then show "settled K tree found t" by (simp add: settled_def extent_batch_forgets)
next
  fix s u assume "settled K tree found s"
  then show "\<exists>x s'. resolve_unresolved K u s = (Inr x, s') \<and> settled K tree found s' \<and> x = resolved_in K tree found u"
    using determinedD [OF determined_resolve_unresolved] by blast
qed (simp_all add: settled_def)

text \<open>What a walk is still to hand over, resolved.\<close>

definition to_hand :: "'z abi_scheme \<Rightarrow> (u64 \<Rightarrow> item list) \<Rightarrow> finds \<Rightarrow> extent_walk \<Rightarrow> resolved list" where
  "to_hand A tree found = left_to_hand (resolved_in A tree found) (\<lambda>x. x) A tree"

text \<open>
  On such a filesystem the whole walk is a function of the trees: it hands over, one after the other,
  exactly what every data extent no newer than its generation resolves to, in address order, and then
  ends.
\<close>

lemma walk_hands_over_resolved:
  assumes "finding K tree found" and "serving K tree s" and "items_left K tree w < rounds K"
  shows "\<exists>r w' s'. walk_next K w s = (Inr (r, w'), s') \<and> serving K tree s' \<and>
    (case r of
       None \<Rightarrow> to_hand K tree found w = [] \<and> walk_ended w'
     | Some (Inr x) \<Rightarrow> to_hand K tree found w = x # to_hand K tree found w' \<and> w_generation w' = w_generation w
         \<and> items_left K tree w' \<le> items_left K tree w
     | Some (Inl e) \<Rightarrow> False)"
  using exactly.hands_over [of K tree found s w "rounds K"] assms
  unfolding to_hand_def walk_next_def walk_ended_def by blast

section \<open>The small filesystem\<close>

definition small_finds :: finds where
  "small_finds a = (if a = 65536 then Some [(257, 0, 5)] else None)"

lemma small_finding: "finding small_kernel small_tree small_finds"
proof -
  have "k_logical_ino small_kernel a n buf () = (Inl (OsError 2), ())" if "a \<noteq> 65536" for a n buf
    using that by (simp add: small_kernel_simps)
  then show ?thesis using small_walks_to by (auto simp: finding_def small_finds_def)
qed

lemma small_settled: "settled small_kernel small_tree small_finds (sample_sys ())"
  by (simp add: settled_def small_serving small_finding)

definition small_unresolved :: unresolved where
  "small_unresolved = \<lparr>u_disk_address = 65536, u_item = small_extent_item, u_backrefs = Files [small_data_ref]\<rparr>"

text \<open>An address the extent tree no longer has: the extent is left alone.\<close>

definition gone_unresolved :: unresolved where
  "gone_unresolved = \<lparr>u_disk_address = 131072, u_item = small_extent_item, u_backrefs = Opaque\<rparr>"

lemma small_references_in: "references_in small_kernel small_tree small_finds small_unresolved = Inr [small_ref]"
proof -
  have "collected_in small_kernel small_tree 65536 8192 [small_data_ref] = Inr [small_ref]"
    by (simp add: collected_in_def small_refs_of Let_def small_count)
  moreover have "shared_in small_kernel small_tree [small_ref] = Inr False"
    by (simp add: small_ref_def snapshot_in_def small_snapshot)
  ultimately show ?thesis
    by (simp add: references_in_def small_unresolved_def small_extent_item_def Let_def)
qed

lemma gone_references_in:
  "references_in small_kernel small_tree small_finds gone_unresolved = Inl (changed ''no longer referenced'')"
  by (simp add: references_in_def gone_unresolved_def walked_in_def backrefs_in_def small_finds_def Let_def)

lemma resolve_agrees_with_trees_witness:
  "(\<exists>s'. resolve_unresolved small_kernel small_unresolved (sample_sys ()) =
       (Inr (ResolvedExtent (the (from_refs [small_ref]))), s'))
   \<and> (\<exists>s'. resolve_unresolved small_kernel gone_unresolved (sample_sys ()) =
       (Inr (ResolvedLeftAlone 131072 (changed ''no longer referenced'')), s'))"
  using resolve_agrees_with_trees [OF small_settled, of small_unresolved]
    resolve_agrees_with_trees [OF small_settled, of gone_unresolved]
  by (auto simp: resolved_in_def small_references_in gone_references_in)
     (auto simp: gone_unresolved_def)

lemma batch_in_any_order_witness:
  "\<exists>rs s1 s2. par_map [1, 0] (resolve_unresolved small_kernel) [small_unresolved, gone_unresolved] (sample_sys ()) = (Inr rs, s1)
     \<and> mapE (resolve_unresolved small_kernel) [small_unresolved, gone_unresolved] (sample_sys ()) = (Inr rs, s2)
     \<and> map res_address rs = [65536, 131072]"
proof -
  have "distinct [1, 0 :: nat]" "set [1, 0 :: nat] = {..<length [small_unresolved, gone_unresolved]}" by auto
  note any = batch_in_any_order [OF small_settled this]
  have "map u_disk_address [small_unresolved, gone_unresolved] = [65536, 131072]"
    by (simp add: small_unresolved_def gone_unresolved_def)
  with any show ?thesis by metis
qed

lemma small_to_hand:
  "to_hand small_kernel small_tree small_finds small_walk = [ResolvedExtent (the (from_refs [small_ref]))]"
proof -
  have "resolved_in small_kernel small_tree small_finds
      \<lparr>u_disk_address = 65536, u_item = small_extent_item, u_backrefs = Files [small_data_ref]\<rparr> =
    ResolvedExtent (the (from_refs [small_ref]))"
    using small_references_in by (simp add: resolved_in_def small_unresolved_def)
  then show ?thesis
    by (simp add: to_hand_def left_to_hand_def small_walk_def small_extents)
qed

lemma walk_hands_over_resolved_witness:
  "\<exists>w' s'. walk_next small_kernel small_walk (sample_sys ()) =
     (Inr (Some (Inr (ResolvedExtent (the (from_refs [small_ref])))), w'), s')
   \<and> to_hand small_kernel small_tree small_finds w' = []"
proof -
  have "items_left small_kernel small_tree small_walk < rounds small_kernel"
    by (simp add: items_left_def small_walk_def small_tree_def)
  from walk_hands_over_resolved [OF small_finding small_serving this] obtain r w' s' where
    run: "walk_next small_kernel small_walk (sample_sys ()) = (Inr (r, w'), s')"
    and r: "case r of
       None \<Rightarrow> to_hand small_kernel small_tree small_finds small_walk = [] \<and> walk_ended w'
     | Some (Inr x) \<Rightarrow> to_hand small_kernel small_tree small_finds small_walk = x # to_hand small_kernel small_tree small_finds w'
         \<and> w_generation w' = w_generation small_walk \<and> items_left small_kernel small_tree w' \<le> items_left small_kernel small_tree small_walk
     | Some (Inl e) \<Rightarrow> False" by blast
  then obtain x where "r = Some (Inr x)" by (auto simp: small_to_hand split: option.splits sum.splits)
  with run r show ?thesis by (auto simp: small_to_hand)
qed

end
