(* ===== verification/Returns.thy ===== *)
theory Returns
  imports Panics
begin

text \<open>
  A dry run always returns: over trees that can be read and subvolumes that are not nested within
  themselves, the scan gets to the end of the extent tree, every lookup made for an extent on the way
  ends, and so the program exits, whatever else the kernel answers.
\<close>

section \<open>Looking at an extent\<close>

lemma reads_keep_steady: "reads_keep K (serves K tree) \<Longrightarrow> steady K tree"
  by (simp add: reads_keep_def steady_def)

lemma safe_resolve_again:
  assumes "steady K tree"
  shows "returns (serving K tree) (resolve_again K e)"
  unfolding resolve_again_def
proof (rule safe_bindE [OF safe_logical_ino [OF assms]], rule safe_bindE [OF safe_collect])
  fix data_refs and refs :: "extent_ref list" assume "refs \<noteq> [] \<and> list_all (\<lambda>r. r_disk_address r = e_disk_address e \<and> r_disk_bytes r = e_disk_bytes e) refs"
  from from_refs_here [OF this] obtain e' where "from_refs refs = Some e'" by blast
  then show "returns (serving K tree) (unwrap (from_refs refs))" by (rule safe_unwrap) simp
qed

lemma safe_call:
  assumes "reads_keep K (serves K tree)"
  shows "returns (serving K tree) (sys_call (k_metadata K f))" "returns (serving K tree) (sys_call (k_get_flags K f))"
    and "returns (serving K tree) (sys_call (k_ino_lookup K f t i))"
    and "returns (serving K tree) (sys_call (k_ino_paths K f i n))"
    and "returns (serving K tree) (sys_call (k_open K p))" "returns (serving K tree) (sys_call (k_fstatfs K f))"
    and "returns (serving K tree) (sys_call (k_clone_mount K f))" "returns (serving K tree) (sys_call (k_syncfs K f))"
    and "returns (serving K tree) (sys_call (k_fs_info K f g))"
  by (rule safe_reads, rule reads_sys_call, rule assms)+

lemma safe_beneath:
  assumes "reads_keep K (serves K tree)" and "O_TMPFILE \<notin> flags"
  shows "returns (serving K tree) (open_beneath K dir p flags)"
  unfolding open_beneath_def Let_def
  by (intro safe_if safe_raise safe_reads reads_sys_call assms) (use assms(2) in simp)

lemma safe_root_id:
  assumes "reads_keep K (serves K tree)"
  shows "returns (serving K tree) (own_root_id K f)"
  unfolding own_root_id_def ino_lookup_args_def
  by (rule safe_bindE [OF safe_call(3) [OF assms]], intro safe_prod safe_ret) simp

text \<open>Sequencing and branching where what is returned does not matter.\<close>

lemma returns_bindE: "returns I m \<Longrightarrow> (\<And>x. returns I (f x)) \<Longrightarrow> returns I (bindE m f)"
  by (rule safe_bindE)

lemma returns_matchE:
  "returns I m \<Longrightarrow> (\<And>x. returns I (ok x)) \<Longrightarrow> (\<And>e. returns I (err e)) \<Longrightarrow> returns I (matchE m ok err)"
  by (rule safe_matchE)

lemmas returns_intros = returns_bindE returns_matchE safe_if safe_option safe_prod safe_map_err safe_raise

lemma safe_open:
  assumes "reads_keep K (serves K tree)"
  shows "returns (serving K tree) (Located_open K fs h)"
  unfolding Located_open_def open_inode_def
  by (intro returns_intros safe_call safe_beneath safe_root_id safe_ret assms) simp_all

lemma safe_inode_path:
  assumes "reads_keep K (serves K tree)" and "nested K tree rank" and "\<forall>root. rank root < rounds K"
  shows "returns (serving K tree) (inode_path K fs root inode)"
proof -
  have "returns (serving K tree) (subvolume_of K fs root)"
    unfolding subvolume_of_def by (rule subvolume_at_returns [OF assms(1,2)]) (simp add: assms(3))
  then show ?thesis
    unfolding inode_path_def Let_def
    by (intro returns_intros safe_open_subvolume safe_call safe_ret assms(1)) simp_all
qed

lemma safe_locate_holders:
  assumes "reads_keep K (serves K tree)" and "nested K tree rank" and "\<forall>root. rank root < rounds K"
    and "fs_sectorsize fs \<noteq> 0"
  shows "returns (serving K tree) (locate_holders K fs e)"
proof -
  have "returns (serving K tree) (unwrap (next_multiple_of n (fs_sectorsize fs)) :: ('a, u64) rewrite)" for n
    using assms(4) by (intro safe_unwrap) (simp_all add: next_multiple_of_def)
  moreover have "returns (serving K tree) (is_nocow K f)" for f
    unfolding is_nocow_def get_flags_def by (intro returns_intros safe_call safe_ret assms(1)) simp
  ultimately have "returns (serving K tree) (locate_loop K fs hs located)" for hs located
  proof (induction hs arbitrary: located)
    case (Cons h hs)
    then show ?case
      unfolding locate_loop.simps Let_def
      by (intro returns_intros safe_inode_path [OF assms(1-3)] safe_open safe_call safe_ret assms(1)) simp_all
  qed (simp add: safe_ret)
  then show ?thesis by (simp add: locate_holders_def)
qed

section \<open>The loop\<close>

text \<open>A filesystem to be scanned: trees that stay, subvolumes not nested in themselves, and rounds for
  all of them.\<close>

definition scannable :: "('w, 'f) kernel \<Rightarrow> (u64 \<Rightarrow> item list) \<Rightarrow> (u64 \<Rightarrow> nat) \<Rightarrow> bool" where
  "scannable K tree rank \<longleftrightarrow> reads_keep K (serves K tree) \<and> nested K tree rank \<and> (\<forall>root. rank root < rounds K)
     \<and> Suc (length (tree (EXTENT_TREE_OBJECTID K))) < rounds K"

lemma safe_Runner_process:
  assumes "scannable K tree rank" and "fs_sectorsize fs \<noteq> 0" and "\<not> op_apply (rn_options rn)"
  shows "returns (serving K tree) (Runner_process K fs e rn)"
proof -
  have located: "returns (serving K tree) (locate_holders K fs e)"
    using assms(1) by (intro safe_locate_holders [of K tree rank] assms(2)) (simp_all add: scannable_def)
  have go: "returns (serving K tree) (case located of
            Inl reason \<Rightarrow> ret (Inr (Some reason), rn)
          | Inr hs \<Rightarrow>
              matchE (if op_apply (rn_options rn) then realloc_extent K fs e hs else ret ())
                (\<lambda>_. bindE (if op_apply (rn_options rn)
                          then bindE (unwrap (describe e hs True)) (\<lambda>line. ret [line])
                          else ret []) (\<lambda>lines.
                   ret (Inr None, rn\<lparr>rn_printed := rn_printed rn @ lines,
                                     rn_report := count_rewritten e (rn_report rn)\<rparr>)))
                (\<lambda>failure. ret (failed K failure rn)))" for located :: "left_alone + located list"
    using assms(3) by (cases located) (auto intro!: returns_intros safe_ret)
  show ?thesis
    unfolding Runner_process_def by (intro returns_matchE [OF located go] safe_ret) simp
qed

lemma leave_unresolved_walk: "sc_walk (count_left_alone reason e sc) = sc_walk sc"
  by (simp add: count_left_alone_def)

lemma safe_run_extent:
  assumes "scannable K tree rank" and "fs_sectorsize fs \<noteq> 0" and "\<not> op_apply (rn_options rn)"
  shows "safe (serving K tree) (\<lambda>(_, sc', rn'). sc_walk sc' = sc_walk sc) (run_extent K fs e sc rn)"
proof -
  have again: "safe (serving K tree) (\<lambda>x. sc_walk (snd x) = sc_walk sc) (Scanner_resolve_again K e sc)"
    unfolding Scanner_resolve_again_def
    by (rule safe_matchE [OF safe_resolve_again [OF reads_keep_steady]])
       (use assms(1) in \<open>auto simp: scannable_def leave_unresolved_simps intro: safe_ret\<close>)
  have process: "safe (serving K tree) (\<lambda>(_, sc'', rn'). sc_walk sc'' = sc_walk sc)
      (bindE (Runner_process K fs e' rn) (\<lambda>(result, rn). case result of
           Inr None \<Rightarrow> ret (True, sc', rn)
         | Inr (Some reason) \<Rightarrow> ret (True, count_left_alone reason (Some e') sc', rn)
         | Inl err \<Rightarrow> ret (False, (count_left_alone Failed (Some e') sc')\<lparr>sc_error := Some err\<rparr>, rn)))"
    if "sc_walk sc' = sc_walk sc" for e' sc'
    by (rule safe_bindE [OF safe_Runner_process [OF assms]])
       (auto simp: leave_unresolved_walk that intro!: safe_ret split: sum.split option.split)
  show ?thesis
    unfolding run_extent_def
    by (intro safe_if safe_option safe_ret safe_bindE [OF again] safe_prod process)
       (simp_all add: leave_unresolved_walk)
qed

lemma remaining_length:
  "length (remaining A tree \<lparr>w_next = Some 0, w_generation = gen, w_batch = []\<rparr>) \<le> length (tree (EXTENT_TREE_OBJECTID A))"
proof -
  let ?its = "tree (EXTENT_TREE_OBJECTID A)"
  have filtered: "length (List.map_filter f xs) \<le> length xs" for f :: "'c \<Rightarrow> 'd option" and xs
    by (induction xs) (simp_all split: option.split)
  have "card (addresses A ?its) \<le> card (set ?its)"
    unfolding addresses_def by (rule order.trans [OF card_image_le card_mono]) auto
  also have "\<dots> \<le> length ?its" by (rule card_length)
  finally have "card {a \<in> addresses A ?its. 0 \<le> a} \<le> length ?its" by simp
  then show ?thesis
    using filtered [of "unresolved_of gen" "map (account A ?its) (sorted_list_of_set {a \<in> addresses A ?its. 0 \<le> a})"]
    by (simp add: remaining_def extents_from_def)
qed

text \<open>The loop ends within the extents remaining; once there is an error it ends at once.\<close>

lemma run_loop_error:
  "sc_error sc \<noteq> None \<Longrightarrow> 0 < rounds K \<Longrightarrow> run_loop K fs (Suc n) sc rn s = (Inr (sc, rn), s)"
  by (cases "rounds K") (auto simp: bindE_def Scanner_next_def ret_def)

lemma run_loop_returns:
  assumes "scannable K tree rank" and "fs_sectorsize fs \<noteq> 0" and "\<not> op_apply (rn_options rn)"
    and "serving K tree s" and "sc_error sc = None"
    and "items_left K tree (sc_walk sc) < rounds K" and "length (remaining K tree (sc_walk sc)) < n"
    and "n \<le> rounds K"
  shows "wp (run_loop K fs n sc rn) (\<lambda>_. serving K tree) (\<lambda>q s. serving K tree s \<and> (\<exists>e. q = Raise e)) s"
  using assms(3-)
proof (induction n arbitrary: sc rn s)
  case (Suc n)
  have steady: "steady K tree" using assms(1) by (simp add: scannable_def reads_keep_steady)
  have enough: "length (remaining K tree (sc_walk sc)) < rounds K" using Suc.prems(5,6) by simp
  obtain r sc1 s1 passed errs where step: "Scanner_next_loop K (rounds K) sc s = (Inr (r, sc1), s1)"
    "serving K tree s1" "items_left K tree (sc_walk sc1) \<le> items_left K tree (sc_walk sc)"
    "scan_step K tree sc r sc1 passed errs"
    using Scanner_next_loop_run [OF steady Suc.prems(2,3,4) enough] by blast
  show ?case
  proof (cases r)
    case None
    with step(1,2) show ?thesis by (simp add: wp_def bindE_def Scanner_next_def ret_def)
  next
    case (Some e)
    have "sc_error sc1 = None"
      using Scanner_next_loop_counts [OF step(1)] Some by auto
    then have rem: "length (remaining K tree (sc_walk sc1)) < n"
      using step(4) Some Suc.prems(5) by (auto simp: scan_step_def)
    have more: "wp (run_loop K fs n sc2 rn2) (\<lambda>_. serving K tree) (\<lambda>q s. serving K tree s \<and> (\<exists>e. q = Raise e)) s2"
      if "serving K tree s2" "sc_walk sc2 = sc_walk sc1" "rn_options rn2 = rn_options rn" for sc2 rn2 s2
    proof (cases "sc_error sc2")
      case None
      then show ?thesis using that rem step(3) Suc.prems by (intro Suc.IH) simp_all
    next
      case Some
      obtain m where "n = Suc m" using rem by (cases n) auto
      with Some that show ?thesis using run_loop_error [of sc2 K fs m rn2 s2] Suc.prems(4) by (simp add: wp_def)
    qed
    have ext: "wp (run_extent K fs e sc1 rn) (\<lambda>x s. serving K tree s \<and> (case x of (_, sc', _) \<Rightarrow> sc_walk sc' = sc_walk sc1))
        (\<lambda>q s. serving K tree s \<and> (\<exists>e. q = Raise e)) s1"
      using safe_wp [OF safe_run_extent [OF assms(1,2) Suc.prems(1), of sc1 e] step(2)] by (simp add: case_prod_beta)
    have "run_loop K fs (Suc n) sc rn s = bindE (run_extent K fs e sc1 rn) (\<lambda>(go_on, sc, rn).
         if go_on then run_loop K fs n sc rn else ret (sc, rn)) s1"
      using step(1) Some by (simp add: bindE_def Scanner_next_def)
    moreover have "wp (bindE (run_extent K fs e sc1 rn) (\<lambda>(go_on, sc, rn).
         if go_on then run_loop K fs n sc rn else ret (sc, rn)))
         (\<lambda>_. serving K tree) (\<lambda>q s. serving K tree s \<and> (\<exists>e. q = Raise e)) s1"
      unfolding wp_bindE
      by (rule wpI; use wp_ok [OF ext] wp_err [OF ext] more run_extent_options in \<open>fastforce simp: wp_simps split: prod.split\<close>)
    ultimately show ?thesis by (simp add: wp_def)
  qed
qed simp

lemma safe_Filesystem_open:
  assumes "reads_keep K (serves K tree)"
  shows "returns (serving K tree) (Filesystem_open K p)"
proof -
  have pool: "returns (serving K tree) (modifyS (\<lambda>s. s\<lparr>searchargs_pool := [], subvolumes := Map.empty, last_snapshots := Map.empty\<rparr>))"
    by (rule safe_modifyS) (simp add: serving_def pool_ok_def)
  show ?thesis
    unfolding Filesystem_open_def Let_def
    by (intro returns_intros safe_call safe_beneath safe_root_id pool safe_ret assms) simp_all
qed

lemma safe_Scanner_new:
  assumes "reads_keep K (serves K tree)"
  shows "safe (serving K tree)
     (\<lambda>sc. sc_error sc = None \<and> (\<exists>gen. sc_walk sc = \<lparr>w_next = Some 0, w_generation = gen, w_batch = []\<rparr>)) (Scanner_new K fs)"
  unfolding Scanner_new_def walk_def sync_def generation_def
  by (intro safe_bindE [where P = "\<lambda>w. \<exists>gen. w = \<lparr>w_next = Some 0, w_generation = gen, w_batch = []\<rparr>"] safe_ret
        returns_bindE safe_bindE [OF safe_call(8) [OF assms]]
        safe_bindE [where P = "\<lambda>_. True" and m = "bindE _ _"] returns_intros safe_call [OF assms]) auto

lemma run_returns:
  assumes scan: "scannable K tree rank" and dry: "\<not> op_apply opts" and "serving K tree s"
  shows "wp (run K opts) (\<lambda>_. serving K tree) (\<lambda>q s. serving K tree s \<and> (\<exists>e. q = Raise e)) s"
proof -
  have keep: "reads_keep K (serves K tree)" using scan by (simp add: scannable_def)
  let ?I = "serving K tree" and ?E = "\<lambda>q s. serving K tree s \<and> (\<exists>e. q = Raise e)"
  let ?start = "\<lambda>gen. \<lparr>w_next = Some 0, w_generation = gen, w_batch = []\<rparr>"
  note new = safe_Scanner_new [OF keep]
  have loop: "wp (bindE (run_loop K fs (rounds K) sc (Runner_new opts)) (\<lambda>(sc, rn). run_end K opts fs sc rn)) (\<lambda>_. ?I) ?E t"
    if "fs_sectorsize fs \<noteq> 0" "sc_error sc = None" "sc_walk sc = ?start gen" "?I t" for fs sc gen t
  proof -
    have few: "Suc (length (tree (EXTENT_TREE_OBJECTID K))) < rounds K" using scan by (simp add: scannable_def)
    have "wp (run_loop K fs (rounds K) sc (Runner_new opts)) (\<lambda>_. ?I) ?E t"
      by (rule run_loop_returns [OF scan that(1) _ that(4,2)])
         (use that few remaining_length [of K tree gen] dry in \<open>simp_all add: Runner_new_def items_left_def\<close>)
    moreover have "wp (run_end K opts fs sc' rn') (\<lambda>_. ?I) ?E t'" if "?I t'" for sc' rn' t'
      using that dry by (simp add: run_end_def Let_def wp_simps split: prod.split option.split)
    ultimately show ?thesis unfolding wp_bindE by (elim wp_mono) (auto split: prod.split)
  qed
  show ?thesis
    unfolding run_def wp_matchE
  proof (rule wpI)
    fix fs t assume opened: "Filesystem_open K (op_path opts) s = (Inr fs, t)"
    have "?I t" using wp_ok [OF safe_wp [OF safe_Filesystem_open [OF keep] assms(3)] opened] by simp
    with safe_wp [OF new this, of fs] loop [OF Filesystem_open_sector [OF opened]] dry
    show "wp (if op_apply opts \<and> fs_read_only fs
          then ret (Inl (other_error ''mounted read-only: --apply needs the filesystem mounted read-write''), [])
          else matchE (Scanner_new K fs)
              (\<lambda>sc. bindE (run_loop K fs (rounds K) sc (Runner_new opts)) (\<lambda>(sc, rn). run_end K opts fs sc rn))
              (\<lambda>e. ret (Inl e, []))) (\<lambda>_. ?I) ?E t"
      by (simp add: wp_matchE wp_ret) (erule wp_mono; auto simp: wp_ret)
  next
    fix q t assume "Filesystem_open K (op_path opts) s = (Inl q, t)"
    from wp_err [OF safe_wp [OF safe_Filesystem_open [OF keep] assms(3)] this]
    show "(case q of Raise e \<Rightarrow> wp (ret (Inl e, [])) (\<lambda>_. ?I) ?E | Panic \<Rightarrow> ?E Panic | NoReturn \<Rightarrow> ?E NoReturn) t"
      by (auto simp: wp_ret)
  qed
qed

text \<open>
  C12: A dry run returns: where the trees of the filesystem can be read and stay as they are, and no
  subvolume is nested in itself, the program ends with an exit code, however many extents there are,
  whatever has become of the files that hold them and whatever the kernel answers to all other
  calls; and the trees are still as they were.
\<close>

theorem dry_run_returns:
  assumes "scannable K tree rank" and "\<not> ar_apply args" and "serving K tree s"
  shows "\<exists>ending s'. main K euid args s = (Inr ending, s') \<and> serving K tree s'"
proof -
  have "wp (main K euid args) (\<lambda>_. serving K tree) (\<lambda>q s. serving K tree s \<and> (\<exists>e. q = Raise e)) s"
    using run_returns [OF assms(1) _ assms(3), of "parse_options args"] assms(2,3)
    by (simp add: main_def Let_def wp_simps parse_options_def)
       (auto elim!: wp_mono simp: wp_simps split: prod.split sum.split)
  with main_ends [of K euid args s] show ?thesis
    by (cases "main K euid args s") (auto simp: wp_def)
qed

lemma small_scannable: "scannable small_kernel small_tree (\<lambda>_. 0)"
proof -
  have "reads_keep small_kernel (serves small_kernel small_tree)"
    by (simp add: reads_keep_def small_kernel_serves)
  moreover have "range_items small_tree 1 (root, 144, 0) (root, 144, - 1) = []" for root
    by (auto simp: range_items_def small_tree_def item_key_def root_item_5_def tree_key_le)
  then have "nested small_kernel small_tree (\<lambda>_. 0)"
    by (simp add: nested_def parent_of_def) (simp add: btrfs_abi_def)
  ultimately show ?thesis
    by (simp add: scannable_def small_tree_def)
qed

lemma dry_run_returns_witness:
  "\<exists>ending s'. main small_kernel 0 (sample_args False) (sample_sys ()) = (Inr ending, s')
     \<and> serving small_kernel small_tree s'"
  using dry_run_returns [OF small_scannable _ small_serving, of "sample_args False"] by (simp add: sample_args_def)

end
