(* ===== verification/Complete.thy ===== *)
theory Complete
  imports Accounts Returns Parallel
begin

text \<open>
  A dry run over a filesystem whose trees stay as they are is complete: its report accounts for every
  data extent the extent tree holds, no newer than the generation the scan started at, each once. Where
  the backreference walk answers the same throughout, too, the report is a function of the trees.
\<close>

section \<open>One call of the scanner\<close>

context resolving begin

text \<open>What \<open>next\<close> returns, with what it counts and what it leaves, in one.\<close>

lemma next_complete:
  assumes "J s" and "sc_error sc = None"
    and "items_left K tree (sc_walk sc) < rounds K" and "length (left_to_hand known view K tree (sc_walk sc)) < rounds K"
    and "Scanner_next K sc s = (Inr (r, sc1), s1)" and "r = None \<Longrightarrow> sc_error sc1 = None"
  obtains passed where "J s1" "items_left K tree (sc_walk sc1) \<le> items_left K tree (sc_walk sc)" "sc_error sc1 = None"
    "case r of
       Some e \<Rightarrow> sc_stats sc1 = \<lparr>ss_extents = ss_extents (sc_stats sc) + 1, ss_totals = Totals_add e (ss_totals (sc_stats sc)),
                               ss_left_alone = left_unresolved (map snd passed) (ss_left_alone (sc_stats sc))\<rparr>
         \<and> left_to_hand known view K tree (sc_walk sc) =
             map (\<lambda>(a, err). view (ResolvedLeftAlone a err)) passed
               @ view (ResolvedExtent e) # left_to_hand known view K tree (sc_walk sc1)
     | None \<Rightarrow> sc_stats sc1 = (sc_stats sc)\<lparr>ss_left_alone := left_unresolved (map snd passed) (ss_left_alone (sc_stats sc))\<rparr>
         \<and> left_to_hand known view K tree (sc_walk sc) = map (\<lambda>(a, err). view (ResolvedLeftAlone a err)) passed"
proof -
  obtain passed where ok: "J s1" "items_left K tree (sc_walk sc1) \<le> items_left K tree (sc_walk sc)"
    and step: "scan_view known view K tree sc r sc1 passed"
    using scans [OF assms(1-4)] assms(5) by (auto simp: Scanner_next_def)
  note counts = Scanner_next_loop_counts [OF assms(5) [unfolded Scanner_next_def]]
  have fine: "sc_error sc1 = None" using counts assms(6) by (cases r) auto
  show thesis
    by (rule that [OF ok fine]) (use step fine counts in \<open>auto simp: scan_view_def split: option.splits\<close>)
qed

end

section \<open>The loop\<close>

text \<open>What became of each extent the walk handed over: those resolved have an outcome, in the order
  they were handed over, and the others are left alone for the error met.\<close>

fun extent_in :: "resolved \<Rightarrow> extent option" where
  "extent_in (ResolvedExtent e) = Some e"
| "extent_in (ResolvedLeftAlone _ _) = None"

fun error_in :: "resolved \<Rightarrow> io_error option" where
  "error_in (ResolvedExtent _) = None"
| "error_in (ResolvedLeftAlone _ err) = Some err"

definition accounts_for ::
  "(extent \<times> outcome) list \<Rightarrow> (left_alone \<times> extent option) list \<Rightarrow> resolved list \<Rightarrow> bool"
where
  "accounts_for trail lefts rs \<longleftrightarrow>
     map fst trail = List.map_filter extent_in rs
     \<and> map fst (filter (\<lambda>x. snd x = None) lefts) = map unresolved_reason (List.map_filter error_in rs)"

abbreviation passed_over :: "(u64 \<times> io_error) list \<Rightarrow> resolved list" where
  "passed_over passed \<equiv> map (\<lambda>(a, err). ResolvedLeftAlone a err) passed"

lemma passed_over_in:
  "List.map_filter extent_in (passed_over passed) = []"
  "List.map_filter error_in (passed_over passed) = map snd passed"
  by (induction passed) auto

lemma accounts_unresolved:
  assumes "accounts_for trail lefts rs"
  shows "accounts_for trail (lefts @ map (\<lambda>err. (unresolved_reason err, None)) (map snd passed)) (rs @ passed_over passed)"
  using assms by (simp add: accounts_for_def map_filter_append passed_over_in filter_True comp_def)

lemma accounts_outcome:
  assumes "accounts_for trail lefts rs"
  shows "accounts_for (trail @ [(e, oc)]) (lefts @ (case left_of oc of None \<Rightarrow> [] | Some x \<Rightarrow> [x])) (rs @ [ResolvedExtent e])"
  using assms by (cases oc) (auto simp: accounts_for_def left_of_def map_filter_append)

lemma length_left: "length (left_to_hand known view A tree w) = length (remaining A tree w)"
  by (simp add: left_to_hand_def remaining_def split: option.split)

context resolving begin

lemma loop_complete:
  assumes "scannable K tree rank" and "fs_sectorsize fs \<noteq> 0" and "\<not> op_apply (rn_options rn)"
    and "J s" and "sc_error sc = None"
    and "items_left K tree (sc_walk sc) < rounds K" and "length (left_to_hand known view K tree (sc_walk sc)) < rounds K"
    and "run_loop K fs n sc rn s = (Inr (sc', rn'), s')" and "sc_error sc' = None"
    and "scanned K trail lefts (sc_stats sc)" and "reported trail (rn_report rn)" and "accounts_for trail lefts rs"
  shows "\<exists>trail lefts new. scanned K trail lefts (sc_stats sc') \<and> reported trail (rn_report rn')
     \<and> accounts_for trail lefts (rs @ new) \<and> map view new = left_to_hand known view K tree (sc_walk sc)"
  using assms(3-)
proof (induction n arbitrary: sc rn s trail lefts rs)
  case (Suc n)
  obtain nxt sc1 t where nxt: "Scanner_next K sc s = (Inr (nxt, sc1), t)"
    and rest: "((case nxt of
       None \<Rightarrow> ret (sc1, rn)
     | Some e \<Rightarrow>
         bindE (run_extent K fs e sc1 rn) (\<lambda>(go_on, sc, rn).
         if go_on then run_loop K fs n sc rn else ret (sc, rn))) :: (_, _) io) t = (Inr (sc', rn'), s')"
    using Suc.prems(6) by (auto simp: bindE_Inr)
  have none: "nxt = None \<Longrightarrow> sc_error sc1 = None" using rest Suc.prems(7) by auto
  obtain passed where ok: "J t" "items_left K tree (sc_walk sc1) \<le> items_left K tree (sc_walk sc)"
    and fine1: "sc_error sc1 = None"
    and step: "case nxt of
       Some e \<Rightarrow> sc_stats sc1 = \<lparr>ss_extents = ss_extents (sc_stats sc) + 1, ss_totals = Totals_add e (ss_totals (sc_stats sc)),
                               ss_left_alone = left_unresolved (map snd passed) (ss_left_alone (sc_stats sc))\<rparr>
         \<and> left_to_hand known view K tree (sc_walk sc) =
             map (\<lambda>(a, err). view (ResolvedLeftAlone a err)) passed
               @ view (ResolvedExtent e) # left_to_hand known view K tree (sc_walk sc1)
     | None \<Rightarrow> sc_stats sc1 = (sc_stats sc)\<lparr>ss_left_alone := left_unresolved (map snd passed) (ss_left_alone (sc_stats sc))\<rparr>
         \<and> left_to_hand known view K tree (sc_walk sc) = map (\<lambda>(a, err). view (ResolvedLeftAlone a err)) passed"
    by (rule next_complete [OF Suc.prems(2-5) nxt none])
  have view: "map view (passed_over passed) = map (\<lambda>(a, err). view (ResolvedLeftAlone a err)) passed"
    by (induction passed) auto
  note unresolved = scanned_unresolved [OF Suc.prems(8), of "map snd passed"]
    and more = accounts_unresolved [OF Suc.prems(10), of passed]
  show ?case
  proof (cases nxt)
    case None
    with rest step unresolved more Suc.prems(9) view show ?thesis
      by (intro exI [of _ trail] exI [of _ "lefts @ map (\<lambda>err. (unresolved_reason err, None)) (map snd passed)"]
          exI [of _ "passed_over passed"]) simp
  next
    case (Some e)
    from rest Some obtain go_on sc2 rn2 t2 where ext: "run_extent K fs e sc1 rn t = (Inr (go_on, sc2, rn2), t2)"
      and loop: "(if go_on then run_loop K fs n sc2 rn2 else ret (sc2, rn2)) t2 = (Inr (sc', rn'), s')"
      by (auto simp: bindE_Inr)
    have fine: "sc_error sc2 = None" by (rule run_loop_fine [OF loop Suc.prems(7)])
    have kept: "serving K tree t2" "sc_walk sc2 = sc_walk sc1"
      using wp_ok [OF safe_wp [OF safe_run_extent [OF assms(1,2) Suc.prems(1)] served [OF ok(1)]] ext] by auto
    obtain oc where sc2: "scanned K (trail @ [(e, oc)])
        ((lefts @ map (\<lambda>err. (unresolved_reason err, None)) (map snd passed)) @ (case left_of oc of None \<Rightarrow> [] | Some x \<Rightarrow> [x])) (sc_stats sc2)"
      and rn2: "reported (trail @ [(e, oc)]) (rn_report rn2)"
      using run_extent_accounts [OF ext fine unresolved Suc.prems(9)] step Some by auto
    note covered = accounts_outcome [OF more, of e oc]
    have rem: "left_to_hand known view K tree (sc_walk sc) =
        map view (passed_over passed @ [ResolvedExtent e]) @ left_to_hand known view K tree (sc_walk sc1)"
      using step Some view by simp
    have "go_on" by (rule run_extent_goes_on [OF ext fine])
    then have again: "run_loop K fs n sc2 rn2 t2 = (Inr (sc', rn'), s')" using loop by simp
    have "\<exists>trail lefts new. scanned K trail lefts (sc_stats sc') \<and> reported trail (rn_report rn')
     \<and> accounts_for trail lefts (((rs @ passed_over passed) @ [ResolvedExtent e]) @ new)
     \<and> map view new = left_to_hand known view K tree (sc_walk sc2)"
      by (rule Suc.IH [OF _ only_trees [OF ok(1) kept(1)] fine _ _ again Suc.prems(7) sc2 rn2 covered])
         (use kept(2) ok(2) Suc.prems(1,4,5) rem run_extent_options [OF ext] in simp_all)
    then obtain trail' lefts' new where "scanned K trail' lefts' (sc_stats sc')" "reported trail' (rn_report rn')"
      "accounts_for trail' lefts' (((rs @ passed_over passed) @ [ResolvedExtent e]) @ new)"
      "map view new = left_to_hand known view K tree (sc_walk sc2)" by blast
    then show ?thesis using rem kept(2)
      by (intro exI [of _ trail'] exI [of _ lefts'] exI [of _ "passed_over passed @ ResolvedExtent e # new"]) simp
  qed
qed simp

end

section \<open>The run\<close>

lemma Scanner_new_Inr:
  assumes "Scanner_new K fs s = (Inr sc, s')"
  obtains gen t t' where "generation K fs t = (Inr gen, t')" "s' = t'"
    "sc = \<lparr>sc_walk = \<lparr>w_next = Some 0, w_generation = gen, w_batch = []\<rparr>, sc_stats = ScanStats_ZERO, sc_error = None\<rparr>"
  using assms by (auto simp: Scanner_new_def walk_def bindE_Inr)

text \<open>The extents a scan that starts at a generation is to hand over.\<close>

abbreviation all_extents :: "('w, 'f) kernel \<Rightarrow> (u64 \<Rightarrow> item list) \<Rightarrow> scanner \<Rightarrow> unresolved list" where
  "all_extents K tree sc \<equiv> extents_from K (w_generation (sc_walk sc)) (tree (EXTENT_TREE_OBJECTID K)) 0"

context resolving begin

lemma run_complete:
  assumes "scannable K tree rank" and "\<not> op_apply opts" and "J s"
    and "run K opts s = (Inr (Inr (stats, rp), printed), s')"
  shows "\<exists>fs s1 sc s2 trail lefts rs.
     Filesystem_open K (op_path opts) s = (Inr fs, s1) \<and> Scanner_new K fs s1 = (Inr sc, s2)
     \<and> scanned K trail lefts stats \<and> reported trail rp \<and> accounts_for trail lefts rs
     \<and> map view rs = map known (all_extents K tree sc)"
proof -
  obtain fs s1 sc s2 sc' rn' u where opened: "Filesystem_open K (op_path opts) s = (Inr fs, s1)"
    and new: "Scanner_new K fs s1 = (Inr sc, s2)"
    and loop: "run_loop K fs (rounds K) sc (Runner_new opts) s2 = (Inr (sc', rn'), u)"
    and fin: "run_end K opts fs sc' rn' u = (Inr (Inr (stats, rp), printed), s')"
    using assms(4) by (rule run_Inr)
  note fin = run_end_Inr [OF fin]
  have keep: "reads_keep K (serves K tree)" and few: "Suc (length (tree (EXTENT_TREE_OBJECTID K))) < rounds K"
    using assms(1) by (simp_all add: scannable_def)
  obtain gen t t' where gen: "generation K fs t = (Inr gen, t')"
    and sc: "sc = \<lparr>sc_walk = \<lparr>w_next = Some 0, w_generation = gen, w_batch = []\<rparr>, sc_stats = ScanStats_ZERO, sc_error = None\<rparr>"
    by (rule Scanner_new_Inr [OF new])
  have "serving K tree s1"
    using wp_ok [OF safe_wp [OF safe_Filesystem_open [OF keep] served [OF assms(3)]] opened] by simp
  then have "serving K tree s2" using wp_ok [OF safe_wp [OF safe_Scanner_new [OF keep]] new] by blast
  then have s2: "J s2" by (rule only_trees [OF assms(3)])
  have start: "scanned K [] [] (sc_stats sc)" "reported [] (rn_report (Runner_new opts))" "accounts_for [] [] []"
    by (simp_all add: sc scanned_def ScanStats_ZERO_def reported_def Runner_new_def Report_default_def accounts_for_def)
  have "\<exists>trail lefts rs. scanned K trail lefts (sc_stats sc') \<and> reported trail (rn_report rn')
     \<and> accounts_for trail lefts ([] @ rs) \<and> map view rs = left_to_hand known view K tree (sc_walk sc)"
    by (rule loop_complete [OF assms(1) Filesystem_open_sector [OF opened] _ s2 _ _ _ loop fin(1) start])
       (use few remaining_length [of K tree gen] assms(2) in \<open>simp_all add: length_left Runner_new_def sc items_left_def\<close>)
  moreover have "left_to_hand known view K tree (sc_walk sc) = map known (all_extents K tree sc)"
    by (simp add: sc left_to_hand_def)
  moreover have "rp = rn_report rn'" using fin(3) by (auto simp: Runner_finish_def Let_def split: if_splits)
  ultimately show ?thesis using opened new fin(2) by auto
qed

end

text \<open>
  C16: A dry run that succeeds is complete: its account covers exactly the data extents the extent tree
  holds, no newer than the generation the filesystem was at when the scan started, each once and in
  address order. Every one was handed over and has its outcome, with the sums of the report over these
  outcomes, or could not be resolved and is counted as left alone, for the reason its error gives.
\<close>

theorem dry_run_complete:
  assumes "scannable K tree rank" and "\<not> op_apply opts" and "serving K tree s"
    and "run K opts s = (Inr (Inr (stats, rp), printed), s')"
  shows "\<exists>fs s1 sc s2 trail lefts rs.
     Filesystem_open K (op_path opts) s = (Inr fs, s1) \<and> Scanner_new K fs s1 = (Inr sc, s2)
     \<and> scanned K trail lefts stats \<and> reported trail rp \<and> accounts_for trail lefts rs
     \<and> map res_address rs = map u_disk_address (all_extents K tree sc)"
  using addressed.run_complete [OF assms(1,2) _ assms(4)] assms(1,3) by (simp add: scannable_def reads_keep_steady)

lemma dry_run_complete_witness:
  "\<exists>stats rp printed s' fs s1 sc s2 trail lefts rs.
     run small_kernel \<lparr>op_path = ''/mnt'', op_apply = False\<rparr> (sample_sys ()) = (Inr (Inr (stats, rp), printed), s')
     \<and> Filesystem_open small_kernel ''/mnt'' (sample_sys ()) = (Inr fs, s1) \<and> Scanner_new small_kernel fs s1 = (Inr sc, s2)
     \<and> scanned small_kernel trail lefts stats \<and> reported trail rp \<and> accounts_for trail lefts rs
     \<and> map res_address rs = map u_disk_address (all_extents small_kernel small_tree sc)"
proof -
  obtain stats rp printed s' where run: "run small_kernel \<lparr>op_path = ''/mnt'', op_apply = False\<rparr> (sample_sys ()) =
      (Inr (Inr (stats, rp), printed), s')"
    using small_run by blast
  have dry: "\<not> op_apply \<lparr>op_path = ''/mnt'', op_apply = False\<rparr>" by simp
  from dry_run_complete [OF small_scannable dry small_serving run] run show ?thesis
    unfolding options.simps by blast
qed

text \<open>
  C17: Where the backreference walk answers the same throughout, too, what a dry run counts is a function
  of the trees, in whatever order the threads of its pool resolve the extents: the number of extents and
  the totals are those of the extents the trees say are there, and what was left unresolved is what the
  trees say cannot be resolved.
\<close>

theorem dry_run_counts:
  assumes "scannable K tree rank" and "finding K tree found" and "\<not> op_apply opts" and "serving K tree s"
    and "run K opts s = (Inr (Inr (stats, rp), printed), s')"
  shows "\<exists>fs s1 sc s2 trail lefts. Filesystem_open K (op_path opts) s = (Inr fs, s1) \<and> Scanner_new K fs s1 = (Inr sc, s2) \<and>
     (let rs = map (resolved_in K tree found) (all_extents K tree sc)
      in ss_extents stats = of_nat (length (List.map_filter extent_in rs))
         \<and> ss_totals stats = fold Totals_add (List.map_filter extent_in rs) Totals_ZERO
         \<and> scanned K trail lefts stats \<and> reported trail rp \<and> accounts_for trail lefts rs)"
proof -
  obtain fs s1 sc s2 trail lefts rs where run: "Filesystem_open K (op_path opts) s = (Inr fs, s1)" "Scanner_new K fs s1 = (Inr sc, s2)"
    and acc: "scanned K trail lefts stats" "reported trail rp" "accounts_for trail lefts rs"
    and rs: "rs = map (resolved_in K tree found) (all_extents K tree sc)"
    using exactly.run_complete [of K tree rank opts found s stats rp printed s'] assms by auto
  have "map fst trail = List.map_filter extent_in rs" using acc(3) by (simp add: accounts_for_def)
  moreover from this have "length trail = length (List.map_filter extent_in rs)" by (metis length_map)
  ultimately have "ss_extents stats = of_nat (length (List.map_filter extent_in rs))"
    "ss_totals stats = fold Totals_add (List.map_filter extent_in rs) Totals_ZERO"
    using acc(1) by (simp_all add: scanned_def)
  with run acc rs show ?thesis
    by (intro exI [of _ fs] exI [of _ s1] exI [of _ sc] exI [of _ s2] exI [of _ trail] exI [of _ lefts]) (simp add: Let_def)
qed

lemma small_generation: "generation small_kernel fs s = (Inr gen, s') \<Longrightarrow> gen = 10"
  by (auto simp: generation_def bindE_Inr sys_call_def small_kernel_simps split: if_splits)

lemma small_resolved_in: "resolved_in small_kernel small_tree small_finds small_unresolved = ResolvedExtent small_extent"
  by (simp add: resolved_in_def small_references_in small_extent_def)

lemma dry_run_counts_witness:
  "\<exists>stats rp printed s'.
     run small_kernel \<lparr>op_path = ''/mnt'', op_apply = False\<rparr> (sample_sys ()) = (Inr (Inr (stats, rp), printed), s')
     \<and> ss_extents stats = 1 \<and> ss_totals stats = Totals_add small_extent Totals_ZERO"
proof -
  obtain stats rp printed s' where run: "run small_kernel \<lparr>op_path = ''/mnt'', op_apply = False\<rparr> (sample_sys ()) =
      (Inr (Inr (stats, rp), printed), s')"
    using small_run by blast
  have dry: "\<not> op_apply \<lparr>op_path = ''/mnt'', op_apply = False\<rparr>" by simp
  obtain fs s1 sc s2 trail lefts where new: "Scanner_new small_kernel fs s1 = (Inr sc, s2)"
    and counts: "let rs = map (resolved_in small_kernel small_tree small_finds) (all_extents small_kernel small_tree sc)
      in ss_extents stats = of_nat (length (List.map_filter extent_in rs))
         \<and> ss_totals stats = fold Totals_add (List.map_filter extent_in rs) Totals_ZERO
         \<and> scanned small_kernel trail lefts stats \<and> reported trail rp \<and> accounts_for trail lefts rs"
    using dry_run_counts [OF small_scannable small_finding dry small_serving run] by blast
  obtain gen t t' where "generation small_kernel fs t = (Inr gen, t')" "w_generation (sc_walk sc) = gen"
    by (rule Scanner_new_Inr [OF new]) simp
  then have "all_extents small_kernel small_tree sc = [small_unresolved]"
    using small_generation [of fs t gen t'] by (simp add: small_extents small_unresolved_def)
  with counts run show ?thesis by (simp add: small_resolved_in Let_def)
qed

end
