(* ===== verification/Ends.thy ===== *)
theory Ends
  imports Panics
begin

text \<open>
  Why scanning ends, also while the trees change under it: every loop whose end only the kernel decides
  makes progress that is measured here. A search moves on to greater keys, and the walk to greater
  addresses.

  What that takes of the kernel is \<open>orderly\<close>; nothing is assumed of what the trees and files hold, nor
  that two answers have anything to do with each other.
\<close>

section \<open>Ending\<close>

text \<open>\<open>ends I Q m\<close>: from a state with \<open>I\<close>, \<open>m\<close> never runs out of rounds, a value it returns is one of
  \<open>Q\<close>, and \<open>I\<close> holds again.\<close>

named_theorems ends_intros

definition ends :: "('s \<Rightarrow> bool) \<Rightarrow> ('a \<Rightarrow> bool) \<Rightarrow> ('s, 'e, 'a) comp \<Rightarrow> bool" where
  "ends I Q m \<longleftrightarrow> (\<forall>s. I s \<longrightarrow> wp m (\<lambda>x s. I s \<and> Q x) (\<lambda>q s. I s \<and> q \<noteq> NoReturn) s)"

abbreviation halts :: "('s \<Rightarrow> bool) \<Rightarrow> ('s, 'e, 'a) comp \<Rightarrow> bool" where
  "halts I m \<equiv> ends I (\<lambda>_. True) m"

lemma ends_wp: "ends I Q m \<Longrightarrow> I s \<Longrightarrow> wp m (\<lambda>x s. I s \<and> Q x) (\<lambda>q s. I s \<and> q \<noteq> NoReturn) s"
  by (simp add: ends_def)

lemma ends_weaken: "ends I P m \<Longrightarrow> (\<And>x. P x \<Longrightarrow> Q x) \<Longrightarrow> ends I Q m"
  by (auto simp: ends_def intro: wp_mono)

lemma ends_halts: "ends I P m \<Longrightarrow> halts I m"
  by (erule ends_weaken) simp

lemma ends_ret [ends_intros]: "Q x \<Longrightarrow> ends I Q (ret x)"
  by (simp add: ends_def wp_simps)

lemma ends_stop [ends_intros]: "q \<noteq> NoReturn \<Longrightarrow> ends I Q (stop q)"
  by (simp add: ends_def wp_simps)

lemma ends_getS: "ends I I getS"
  by (simp add: ends_def wp_simps)

lemma ends_modifyS: "(\<And>s. I s \<Longrightarrow> I (f s)) \<Longrightarrow> halts I (modifyS f)"
  by (simp add: ends_def wp_simps)

lemma ends_unwrap: "(\<And>y. x = Some y \<Longrightarrow> Q y) \<Longrightarrow> ends I Q (unwrap x)"
  by (cases x) (simp_all add: ends_def wp_simps)

lemma ends_bindE:
  assumes "ends I P m" and "\<And>x. P x \<Longrightarrow> ends I Q (f x)"
  shows "ends I Q (bindE m f)"
  unfolding ends_def wp_bindE
  by (intro allI impI) (rule wp_mono [OF ends_wp [OF assms(1)]], simp_all add: ends_wp [OF assms(2)])

lemma ends_matchE:
  assumes "ends I P m" and "\<And>x. P x \<Longrightarrow> ends I Q (ok x)" and "\<And>e. ends I Q (err e)"
  shows "ends I Q (matchE m ok err)"
  unfolding ends_def wp_matchE
  by (intro allI impI)
     (rule wp_mono [OF ends_wp [OF assms(1)]], auto simp: ends_wp [OF assms(2)] ends_wp [OF assms(3)] split: stop.split)

lemma ends_map_err:
  assumes "ends I Q m"
  shows "ends I Q (map_err f m)"
  unfolding ends_def wp_map_err
  by (intro allI impI) (rule wp_mono [OF ends_wp [OF assms]], auto split: stop.split)

text \<open>Sequencing and branching, where what is returned on the way does not matter.\<close>

lemma halts_bindE [ends_intros]: "halts I m \<Longrightarrow> (\<And>x. ends I Q (f x)) \<Longrightarrow> ends I Q (bindE m f)"
  by (rule ends_bindE)

lemma halts_matchE [ends_intros]:
  "halts I m \<Longrightarrow> (\<And>x. ends I Q (ok x)) \<Longrightarrow> (\<And>e. ends I Q (err e)) \<Longrightarrow> ends I Q (matchE m ok err)"
  by (rule ends_matchE)

lemma halts_map_err [ends_intros]: "halts I m \<Longrightarrow> halts I (map_err f m)"
  by (rule ends_map_err)

lemma halts_unwrap [ends_intros]: "halts I (unwrap x)"
  by (rule ends_unwrap) simp

lemma ends_cases [ends_intros]:
  "(b \<Longrightarrow> ends I Q m) \<Longrightarrow> (\<not> b \<Longrightarrow> ends I Q n) \<Longrightarrow> ends I Q (if b then m else n)"
  "(x = None \<Longrightarrow> ends I Q m) \<Longrightarrow> (\<And>y. x = Some y \<Longrightarrow> ends I Q (f y)) \<Longrightarrow>
     ends I Q (case x of None \<Rightarrow> m | Some y \<Rightarrow> f y)"
  "(\<And>y. u = Inl y \<Longrightarrow> ends I Q (g y)) \<Longrightarrow> (\<And>y. u = Inr y \<Longrightarrow> ends I Q (h y)) \<Longrightarrow>
     ends I Q (case u of Inl y \<Rightarrow> g y | Inr y \<Rightarrow> h y)"
  "(\<And>a b. p = (a, b) \<Longrightarrow> ends I Q (k a b)) \<Longrightarrow> ends I Q (case p of (a, b) \<Rightarrow> k a b)"
  "(l = [] \<Longrightarrow> ends I Q m) \<Longrightarrow> (\<And>y ys. l = y # ys \<Longrightarrow> ends I Q (j y ys)) \<Longrightarrow>
     ends I Q (case l of [] \<Rightarrow> m | y # ys \<Rightarrow> j y ys)"
  by (auto split: option.split sum.split prod.split list.split)

lemma halts_foldE [ends_intros]: "(\<And>x b. halts I (f x b)) \<Longrightarrow> halts I (foldE f xs b)"
  by (induction xs arbitrary: b) (auto intro!: ends_intros)

lemma ends_mapE: "(\<And>x. halts I (f x)) \<Longrightarrow> ends I (\<lambda>ys. length ys = length xs) (mapE f xs)"
proof (induction xs)
  case (Cons x xs)
  show ?case
    unfolding mapE.simps
    by (rule halts_bindE [OF Cons.prems], rule ends_bindE [OF Cons.IH [OF Cons.prems]]) (auto intro: ends_ret)
qed (simp add: ends_ret)

lemma halts_mapE [ends_intros]: "(\<And>x. halts I (f x)) \<Longrightarrow> halts I (mapE f xs)"
  by (rule ends_halts [OF ends_mapE])

lemma halts_anyE [ends_intros]: "(\<And>x. halts I (p x)) \<Longrightarrow> halts I (anyE p xs)"
  by (induction xs) (auto intro!: ends_intros)

text \<open>A kernel call ends with what the kernel answers.\<close>

lemma ends_sys_call:
  assumes "own_state I" and "\<And>w x w'. f w = (Inr x, w') \<Longrightarrow> Q x"
  shows "ends I Q (sys_call f)"
  using assms by (auto simp: ends_def wp_sys_call own_state_def split: prod.splits sum.splits)

lemma halts_sys_call [ends_intros]: "own_state I \<Longrightarrow> halts I (sys_call f)"
  by (erule ends_sys_call) simp

lemma own_states [ends_intros]: "own_state pool_ok" "own_state (\<lambda>_. True)"
  by unfold_locales (simp_all add: pool_ok_def)

section \<open>What is asked of the kernel\<close>

text \<open>An item a search may answer with: one of the range asked for, of a type that is a byte; and in the
  root tree, a backreference names a parent that is less deeply nested.\<close>

definition fair_item :: "'z abi_scheme \<Rightarrow> (u64 \<Rightarrow> nat) \<Rightarrow> u64 \<Rightarrow> tree_key \<Rightarrow> tree_key \<Rightarrow> item \<Rightarrow> bool" where
  "fair_item A rank t lo hi i \<longleftrightarrow>
     lo \<le> item_key i \<and> item_key i \<le> hi \<and> sh_type (fst i) \<le> 255 \<and>
     (t = ROOT_TREE_OBJECTID A \<and> sh_type (fst i) = ROOT_BACKREF_KEY A \<longrightarrow>
        (case backref_of A (fst i) (snd i) of
           None \<Rightarrow> True
         | Some (parent, _, _) \<Rightarrow> rank parent < rank (address i)))"

definition orderly :: "('w, 'f) kernel \<Rightarrow> (u64 \<Rightarrow> nat) \<Rightarrow> bool" where
  "orderly K rank \<longleftrightarrow>
     (\<forall>key n w nr bytes w'. k_search K key n w = (Inr (nr, bytes), w') \<longrightarrow>
        (\<exists>got. unat nr = length got \<and> encodes K bytes got \<and> length bytes \<le> BUF_SIZE \<and>
           list_all (fair_item K rank (sk_tree_id key) (min_key key) (max_key key)) got)) \<and>
     (\<forall>src at len dst to w status n w'. k_dedupe K src at len dst to w = (Inr (status, n), w') \<longrightarrow> n \<le> len)"

text \<open>The keys there are, counted.\<close>

fun key_rank :: "tree_key \<Rightarrow> nat" where
  "key_rank (a, t, c) = (unat a * 2 ^ 32 + unat t) * 2 ^ 64 + unat c"

lemma digits_less: "a < a' \<or> a = a' \<and> b < b' \<Longrightarrow> b < m \<Longrightarrow> a * m + b < a' * m + b'" for a a' b b' m :: nat
proof (elim disjE conjE)
  assume "a < a'" "b < m"
  then have "Suc a * m \<le> a' * m" by (intro mult_le_mono1) simp
  with \<open>b < m\<close> show ?thesis by simp
qed simp

lemma key_rank_less: "k < k' \<Longrightarrow> key_rank k < key_rank k'"
proof -
  assume less: "k < k'"
  obtain a t c a' t' c' where k: "k = (a, t, c)" "k' = (a', t', c')" by (cases k; cases k')
  have t: "unat t < 2 ^ 32" for t :: u32 using unsigned_less [of t] by simp
  from less consider "unat a < unat a' \<or> unat a = unat a' \<and> unat t < unat t'" | "a = a'" "t = t'" "unat c < unat c'"
    unfolding k tree_key_less by (auto simp: word_less_nat_alt)
  then show ?thesis
  proof cases
    case 1
    then have "unat a * 2 ^ 32 + unat t < unat a' * 2 ^ 32 + unat t'" by (rule digits_less) (rule t)
    then show ?thesis unfolding k key_rank.simps by (intro digits_less unat_u64_bound) simp
  qed (simp add: k)
qed

lemma key_rank_bound: "key_rank k < 2 ^ 160"
proof -
  obtain a t c where k: "k = (a, t, c)" by (cases k)
  have "unat t < 2 ^ 32" using unsigned_less [of t] by simp
  then have "unat a * 2 ^ 32 + unat t < 2 ^ 64 * 2 ^ 32 + 0"
    using unat_u64_bound [of a] by (intro digits_less) simp_all
  then have "key_rank k < (2 ^ 64 * 2 ^ 32 + 0) * 2 ^ 64 + 0"
    unfolding k key_rank.simps using unat_u64_bound [of c] by (intro digits_less) simp_all
  then show ?thesis by simp
qed

section \<open>Searches\<close>

text \<open>The items of an answer, as they lie in the buffer.\<close>

definition holds_items :: "'z abi_scheme \<Rightarrow> search_args \<Rightarrow> item list \<Rightarrow> bool" where
  "holds_items A args its \<longleftrightarrow>
     unat (sk_nr_items (sa_key args)) = length its \<and> (\<exists>n \<le> length (sa_buf args). encodes A (take n (sa_buf args)) its)"

lemma items_held:
  assumes "holds_items A args its" and "args_ok args"
  obtains complete where "items A args each b =
          (case each_item each its b of
             Inl e \<Rightarrow> Inl e
           | Inr b' \<Rightarrow> Inr (if its = [] then None else Some (fst (last its)), complete, b'))"
proof -
  from assms obtain n where n: "n \<le> length (sa_buf args)" "encodes A (take n (drop 0 (sa_buf args))) its"
    "length (sa_buf args) < 2 ^ 64" "unat (sk_nr_items (sa_key args)) = length its"
    by (auto simp: holds_items_def args_ok_def BUF_SIZE_def)
  with items_loop_decodes [OF n(2) _ n(3), of each None b] show thesis
    by (intro that) (simp add: items_def split: sum.splits)
qed

text \<open>What a search reads with: the range it was given, to be read from some key on.\<close>

definition reading :: "u64 \<Rightarrow> tree_key \<Rightarrow> tree_key \<Rightarrow> search_args \<times> 'w sys \<Rightarrow> bool" where
  "reading t lo hi as \<longleftrightarrow> loan_ok as \<and> sk_tree_id (sa_key (fst as)) = t
     \<and> lo \<le> min_key (sa_key (fst as)) \<and> max_key (sa_key (fst as)) = hi"

lemma search_orderly:
  assumes "orderly K rank" and "reading t lo hi as"
  shows "wp (search K) (\<lambda>_ as'. reading t lo hi as' \<and> min_key (sa_key (fst as')) = min_key (sa_key (fst as)) \<and>
      (\<exists>got. holds_items K (fst as') got \<and> list_all (fair_item K rank t (min_key (sa_key (fst as))) hi) got))
     (\<lambda>q as. loan_ok as \<and> q \<noteq> NoReturn) as"
proof (rule wpI)
  obtain args s where as: "as = (args, s)" by (cases as)
  have ok: "loan_ok as" using assms(2) by (simp add: reading_def)
  fix x as' assume run: "search K as = (Inr x, as')"
  let ?key = "(sa_key args)\<lparr>sk_nr_items := - 1\<rparr>"
  from run obtain nr bytes w' where call: "k_search K ?key (sa_buf_size args) (world s) = (Inr (nr, bytes), w')"
    and as': "as' = (args\<lparr>sa_key := (sa_key args)\<lparr>sk_nr_items := nr\<rparr>,
       sa_buf := take (length (sa_buf args)) bytes @ drop (length bytes) (sa_buf args)\<rparr>, s\<lparr>world := w'\<rparr>)"
    by (auto simp: as search_def sys_call_def split: prod.splits sum.splits)
  from call assms(1) obtain got where got: "unat nr = length got" "encodes K bytes got" "length bytes \<le> BUF_SIZE"
    "list_all (fair_item K rank (sk_tree_id ?key) (min_key ?key) (max_key ?key)) got"
    unfolding orderly_def by blast
  have "length (sa_buf args) = BUF_SIZE" using ok by (simp add: as args_ok_def)
  with got have "holds_items K (fst as') got"
    unfolding holds_items_def by (intro conjI exI [of _ "length bytes"]) (simp_all add: as')
  moreover have "loan_ok as'" using preserves_end [OF preserves_search ok run] .
  ultimately show "reading t lo hi as' \<and> min_key (sa_key (fst as')) = min_key (sa_key (fst as)) \<and>
      (\<exists>got. holds_items K (fst as') got \<and> list_all (fair_item K rank t (min_key (sa_key (fst as))) hi) got)"
    using got(4) assms(2) by (auto simp: reading_def as as' min_key_def max_key_def)
next
  fix q as' assume run: "search K as = (Inl q, as')"
  then have "q \<noteq> NoReturn" by (cases as) (auto simp: search_def sys_call_def Let_def split: prod.splits sum.splits)
  moreover have "loan_ok as" using assms(2) by (simp add: reading_def)
  ultimately show "loan_ok as' \<and> q \<noteq> NoReturn" using preserves_end [OF preserves_search _ run] by simp
qed

text \<open>What the callback has captured after the items of an answer.\<close>

lemma each_item_keeps:
  assumes "each_item each its b = Inr b'" and "P b" and "list_all ok its"
    and "\<And>h d b b'. P b \<Longrightarrow> ok (h, d) \<Longrightarrow> each h d b = Inr b' \<Longrightarrow> P b'"
  shows "P b'"
  using assms(1-3)
proof (induction its arbitrary: b)
  case (Cons i its)
  then show ?case by (cases i) (auto simp: assms(4) split: sum.splits)
qed simp

lemma fair_mono: "lo \<le> lo' \<Longrightarrow> fair_item A rank t lo' hi i \<Longrightarrow> fair_item A rank t lo hi i"
  unfolding fair_item_def by (meson order.trans)

lemma next_key_forward:
  assumes "fair_item A rank t lo hi i" and "next_key (fst i) key = Some key'"
  shows "item_key i < min_key key'" and "max_key key' = max_key key" and "sk_tree_id key' = sk_tree_id key"
proof -
  have type: "sh_type (fst i) \<le> 255" using assms(1) by (simp add: fair_item_def)
  have "fst (snd (min_key key')) \<le> 255"
    using assms(2) type by (auto simp: next_key_def Let_def min_key_def inc_le split: if_splits)
  from next_key_succ [OF type this, of key] assms(2)
  show "item_key i < min_key key'" "max_key key' = max_key key" "sk_tree_id key' = sk_tree_id key"
    by (simp_all add: item_key_header)
qed

lemma search_all_loop_ends:
  assumes orderly: "orderly K rank"
    and keeps: "\<And>h d b b'. P b \<Longrightarrow> fair_item K rank t lo hi (h, d) \<Longrightarrow> each h d b = Inr b' \<Longrightarrow> P b'"
  shows "reading t lo hi as \<Longrightarrow> P b \<Longrightarrow> 2 ^ 160 - key_rank (min_key (sa_key (fst as))) \<le> n \<Longrightarrow>
     wp (search_all_loop K each n b) (\<lambda>b as. loan_ok as \<and> P b) (\<lambda>q as. loan_ok as \<and> q \<noteq> NoReturn) as"
proof (induction n arbitrary: as b)
  case 0
  then show ?case using key_rank_bound [of "min_key (sa_key (fst as))"] by simp
next
  case (Suc n)
  show ?case
    unfolding search_all_loop.simps wp_bindE
  proof (rule wp_mono [OF search_orderly [OF orderly Suc.prems(1)]], goal_cases)
    case (1 u as1)
    then obtain got where now: "reading t lo hi as1" "min_key (sa_key (fst as1)) = min_key (sa_key (fst as))"
      and got: "holds_items K (fst as1) got" "list_all (fair_item K rank t (min_key (sa_key (fst as))) hi) got"
      by blast
    have ok: "loan_ok as1" and lo: "lo \<le> min_key (sa_key (fst as))"
      using now(1) Suc.prems(1) by (simp_all add: reading_def)
    obtain complete where its: "items K (fst as1) each b =
          (case each_item each got b of
             Inl e \<Rightarrow> Inl e
           | Inr b' \<Rightarrow> Inr (if got = [] then None else Some (fst (last got)), complete, b'))"
      by (rule items_held [OF got(1)]) (use ok in simp)
    show ?case
    proof (cases "each_item each got b")
      case (Inl e)
      with its ok show ?thesis by (cases as1) (simp add: wp_simps)
    next
      case (Inr b')
      have P: "P b'"
        by (rule each_item_keeps [where P = P, OF Inr Suc.prems(2) got(2)]) (rule keeps, assumption, rule fair_mono [OF lo])
      show ?thesis
      proof (cases "got = [] \<or> complete")
        case True
        with its Inr ok P show ?thesis by (cases as1) (auto simp: wp_simps)
      next
        case False
        then have "fair_item K rank t (min_key (sa_key (fst as))) hi (last got)"
          using got(2) by (simp add: list_all_iff)
        note fair = this
        show ?thesis
        proof (cases "next_key (fst (last got)) (sa_key (fst as1))")
          case None
          with its Inr ok P False show ?thesis by (cases as1) (auto simp: wp_simps)
        next
          case (Some key')
          note ahead = next_key_forward [OF fair Some]
          have "min_key (sa_key (fst as)) \<le> item_key (last got)" using fair by (simp add: fair_item_def)
          then have forward: "min_key (sa_key (fst as)) < min_key key'" using ahead(1) by (rule order.strict_trans1)
          have "reading t lo hi (apfst (\<lambda>a. a\<lparr>sa_key := key'\<rparr>) as1)"
            using now(1) ahead(2,3) lo forward args_ok_next_key [OF _ Some]
            by (cases as1) (auto simp: reading_def)
          moreover have "2 ^ 160 - key_rank (min_key key') \<le> n"
            using key_rank_less [OF forward] Suc.prems(3) by simp
          ultimately have "wp (search_all_loop K each n b') (\<lambda>b as. loan_ok as \<and> P b)
              (\<lambda>q as. loan_ok as \<and> q \<noteq> NoReturn) (apfst (\<lambda>a. a\<lparr>sa_key := key'\<rparr>) as1)"
            using P by (intro Suc.IH) (cases as1; simp)+
          with its Inr False Some show ?thesis by (cases as1) (simp add: wp_simps)
        qed
      qed
    qed
  next
    case (2 q as1)
    then show ?case by simp
  qed
qed

lemma reading_start: "loan_ok as \<Longrightarrow> reading t lo hi (apfst (set_range lo hi \<circ> set_tree t) as)"
  by (cases as) (auto simp: reading_def min_key_def max_key_def set_range_def set_tree_def args_ok_def)

lemma ends_searching:
  assumes "\<And>as. reading t lo hi as \<Longrightarrow> wp m (\<lambda>x as. loan_ok as \<and> Q x) (\<lambda>q as. loan_ok as \<and> q \<noteq> NoReturn) as"
  shows "ends pool_ok Q (searching t lo hi m)"
  unfolding ends_def
proof (intro allI impI)
  fix s :: "'a sys" assume "pool_ok s"
  then have "loan_ok (take_searchargs s)" by (rule take_searchargs_ok)
  then have m: "wp (bindE (modifyS (apfst (set_range lo hi \<circ> set_tree t))) (\<lambda>_. m)) (\<lambda>x as. loan_ok as \<and> Q x)
      (\<lambda>q as. loan_ok as \<and> q \<noteq> NoReturn) (take_searchargs s)"
    unfolding wp_bindE wp_modifyS by (intro assms reading_start)
  have given_back: "pool_ok (drop_searchargs args s')" if "loan_ok (args, s')" for args :: search_args and s' :: "'a sys"
    using that by (auto simp: drop_searchargs_def pool_ok_def)
  show "wp (searching t lo hi m) (\<lambda>x s. pool_ok s \<and> Q x) (\<lambda>q s. pool_ok s \<and> q \<noteq> NoReturn) s"
    using m given_back unfolding searching_def with_searchargs_def wp_def
    by (auto split: prod.splits sum.splits)
qed

text \<open>A search ends, and what its callback keeps of the items it may be given holds of its result.\<close>

lemma ends_search:
  assumes "orderly K rank" and "2 ^ 160 < rounds K" and "P b"
    and "\<And>h d b b'. P b \<Longrightarrow> fair_item K rank t lo hi (h, d) \<Longrightarrow> each h d b = Inr b' \<Longrightarrow> P b'"
  shows "ends pool_ok P (searching t lo hi (search_all K each b))"
  unfolding search_all_def
  by (rule ends_searching, rule search_all_loop_ends [OF assms(1) assms(4)]) (use assms(2,3) in simp_all)

lemma halts_search:
  "orderly K rank \<Longrightarrow> 2 ^ 160 < rounds K \<Longrightarrow> halts pool_ok (searching t lo hi (search_all K each b))"
  by (rule ends_search) simp_all

section \<open>Resolving\<close>

text \<open>The kernel and the rounds it is given, from here on.\<close>

definition ending :: "('w, 'f) kernel \<Rightarrow> (u64 \<Rightarrow> nat) \<Rightarrow> bool" where
  "ending K rank \<longleftrightarrow> orderly K rank \<and> 2 ^ 160 < rounds K \<and> (\<forall>root. rank root < rounds K)"

lemma halts_searches:
  assumes "ending K rank"
  shows "halts pool_ok (searching t lo hi (search_all K each b))"
  using assms by (auto simp: ending_def intro: halts_search)

lemma halts_collect: "ending K rank \<Longrightarrow> halts pool_ok (collect K a n data_refs)"
  unfolding collect_def data_ref_extents_def search_extent_refs_def Let_def
  by (intro ends_intros halts_searches) simp_all

lemma halts_inode_holds_extent: "ending K rank \<Longrightarrow> halts pool_ok (inode_holds_extent K root inode frm to a)"
  unfolding inode_holds_extent_def search_extent_refs_def by (rule halts_searches)

lemma halts_own: "(\<And>s. searchargs_pool (f s) = searchargs_pool s) \<Longrightarrow> halts pool_ok (modifyS f)"
  by (rule ends_modifyS) (simp add: pool_ok_def)

lemma halts_last_snapshot: "ending K rank \<Longrightarrow> halts pool_ok (last_snapshot K root)"
  unfolding last_snapshot_def
  by (rule ends_bindE [OF ends_getS]) (intro ends_intros halts_searches halts_own; simp)

lemma halts_logical_ino: "halts pool_ok (logical_ino K a)"
proof -
  have call: "halts pool_ok (logical_ino_call K a n)" for n
    unfolding logical_ino_call_def Let_def by (intro ends_intros) simp_all
  have "halts pool_ok (logical_ino_loop K a n)" for n
  proof (induction n rule: measure_induct_rule [of "\<lambda>n. LOGICAL_INO_MAX_SIZE - n"])
    case (less n)
    show ?case
      unfolding logical_ino_loop.simps [of K a n] Let_def
      by (intro halts_bindE [OF call] ends_cases less ends_intros) auto
  qed
  then show ?thesis by (simp add: logical_ino_def)
qed

lemma halts_resolve_by_walk: "ending K rank \<Longrightarrow> halts pool_ok (resolve_by_walk K a n)"
  unfolding resolve_by_walk_def by (intro ends_intros halts_logical_ino halts_collect)

lemma halts_resolve_unresolved: "ending K rank \<Longrightarrow> halts pool_ok (resolve_unresolved K u)"
proof -
  assume K: "ending K rank"
  have "halts pool_ok (resolve K a item backrefs)" for a item backrefs
    unfolding resolve_def may_be_shared_def
    by (cases backrefs)
       (auto intro!: ends_intros halts_resolve_by_walk [OF K] halts_collect [OF K] halts_last_snapshot [OF K])
  then show ?thesis unfolding resolve_unresolved_def by (intro ends_intros) simp_all
qed

lemma halts_resolve_again: "ending K rank \<Longrightarrow> halts pool_ok (resolve_again K e)"
  unfolding resolve_again_def by (intro ends_intros halts_logical_ino halts_collect)

section \<open>The walk\<close>

lemma batch_each_length:
  "each_item (batch_each A) its b = Inr b' \<Longrightarrow> length b' \<le> length b + length its"
proof (induction its arbitrary: b)
  case (Cons i its)
  obtain h d where i: "i = (h, d)" by (cases i)
  from Cons.prems obtain b1 where one: "batch_each A h d b = Inr b1" and rest: "each_item (batch_each A) its b1 = Inr b'"
    by (auto simp: i split: sum.splits)
  have "length b1 \<le> Suc (length b)" using one by (auto simp: batch_each_def absorb1_def split: if_splits)
  with Cons.IH [OF rest] show ?case by simp
qed simp

lemma ends_batch_search:
  assumes "orderly K rank"
  shows "ends pool_ok (\<lambda>(lst, complete, tallies). length tallies < 2 ^ 32 \<and>
           (case lst of None \<Rightarrow> True | Some h \<Rightarrow> frm \<le> sh_objectid h)) (batch_search K frm)"
  unfolding batch_search_def
proof (rule ends_searching)
  let ?t = "EXTENT_TREE_OBJECTID K" and ?lo = "(frm, EXTENT_ITEM_KEY K, 0)" and ?hi = "(- 1, SHARED_DATA_REF_KEY K, - 1) :: tree_key"
  fix as :: "search_args \<times> 'a sys" assume start: "reading ?t ?lo ?hi as"
  show "wp (bindE (search K) (\<lambda>_.
        bindE getS (\<lambda>(args, _).
        case items K args (batch_each K) [] of Inl e \<Rightarrow> raise e | Inr x \<Rightarrow> ret x)))
      (\<lambda>x as. loan_ok as \<and> (case x of (lst, complete, tallies) \<Rightarrow> length tallies < 2 ^ 32 \<and>
           (case lst of None \<Rightarrow> True | Some h \<Rightarrow> frm \<le> sh_objectid h)))
      (\<lambda>q as. loan_ok as \<and> q \<noteq> NoReturn) as"
    unfolding wp_bindE
  proof (rule wp_mono [OF search_orderly [OF assms start]], goal_cases)
    case (1 u as1)
    then obtain got where ok: "loan_ok as1" and got: "holds_items K (fst as1) got"
        "list_all (fair_item K rank ?t (min_key (sa_key (fst as))) ?hi) got"
      by (auto simp: reading_def)
    obtain complete where its: "items K (fst as1) (batch_each K) [] =
          (case each_item (batch_each K) got [] of
             Inl e \<Rightarrow> Inl e
           | Inr b' \<Rightarrow> Inr (if got = [] then None else Some (fst (last got)), complete, b'))"
      by (rule items_held [OF got(1)]) (use ok in simp)
    show ?case
    proof (cases "each_item (batch_each K) got []")
      case (Inl e)
      with its ok show ?thesis by (cases as1) (simp add: wp_simps)
    next
      case (Inr tallies)
      have "unat n < 2 ^ 32" for n :: u32 using unsigned_less [of n] by simp
      from this [of "sk_nr_items (sa_key (fst as1))"] have "length got < 2 ^ 32"
        using got(1) by (simp add: holds_items_def)
      then have few: "length tallies < 2 ^ 32" using batch_each_length [OF Inr] by simp
      have "frm \<le> sh_objectid (fst (last got))" if "got \<noteq> []"
      proof -
        have "min_key (sa_key (fst as)) \<le> item_key (last got)" using got(2) that by (simp add: list_all_iff fair_item_def)
        moreover have "?lo \<le> min_key (sa_key (fst as))" using start by (simp add: reading_def)
        ultimately have "?lo \<le> item_key (last got)" by (rule order.trans [rotated])
        then show ?thesis by (auto simp: item_key_def tree_key_le)
      qed
      with its Inr ok few show ?thesis by (cases as1) (auto simp: wp_simps)
    qed
  next
    case (2 q as1)
    then show ?case by simp
  qed
qed

lemma ends_extent_batch:
  assumes "ending K rank"
  shows "ends pool_ok (\<lambda>(batch, nxt). length batch \<le> 2 ^ 32 \<and> (case nxt of None \<Rightarrow> True | Some a \<Rightarrow> frm < a))
     (extent_batch K frm gen)"
proof -
  have orderly: "orderly K rank" using assms by (simp add: ending_def)
  have tally: "halts pool_ok (tally_at K a)" for a
    unfolding tally_at_def by (rule halts_searches [OF assms])
  have filtered: "length (List.map_filter f xs) \<le> length xs" for f :: "u64 \<times> tally \<Rightarrow> unresolved option" and xs
    by (induction xs) (simp_all split: option.split)
  have few: "length (List.map_filter f xs) \<le> 4294967296" if "length xs \<le> 4294967296"
    for f :: "u64 \<times> tally \<Rightarrow> unresolved option" and xs
    using filtered [of f xs] that by simp
  have above: "frm < a + 1" if "frm \<le> a" "a \<noteq> - 1" for a :: u64
    using that word_succ_le_iff [of a "a + 1"] by (simp add: word_order.not_eq_extremum order.strict_trans1)
  let ?Q = "\<lambda>(tallies :: (u64 \<times> tally) list, nxt). length tallies \<le> 2 ^ 32 \<and> (case nxt of None \<Rightarrow> True | Some a \<Rightarrow> frm < a)"
  have more: "ends pool_ok ?Q (case lst of
              Some lst \<Rightarrow>
                if \<not> complete then
                  (let tallies = (if tallies \<noteq> [] \<and> fst (last tallies) = sh_objectid lst
                                  then butlast tallies else tallies)
                   in bindE (tally_at K (sh_objectid lst)) (\<lambda>t.
                      ret (tallies @ [(sh_objectid lst, t)],
                           if sh_objectid lst = - 1 then None else Some (sh_objectid lst + 1))))
                else ret (tallies, None)
            | None \<Rightarrow> ret (tallies, None))"
    if "length tallies < 2 ^ 32" "case lst of None \<Rightarrow> True | Some h \<Rightarrow> frm \<le> sh_objectid h" for lst complete tallies
    using that unfolding Let_def by (intro ends_intros tally) (auto split: option.splits intro: above)
  show ?thesis
    unfolding extent_batch_def
    by (rule halts_bindE [OF halts_own], simp, rule ends_bindE [OF ends_batch_search [OF orderly]])
       (auto split: prod.splits intro!: ends_bindE [OF more] ends_ret few)
qed

text \<open>How many extents a walk may still hand over: those of its batch, and at most 2^32 from each address
  it has still to get to. Each call takes one away.\<close>

definition walk_left :: "extent_walk \<Rightarrow> nat" where
  "walk_left w = length (w_batch w) + (case w_next w of None \<Rightarrow> 0 | Some a \<Rightarrow> (2 ^ 64 - unat a) * (2 ^ 32 + 1))"

lemma walk_left_batch:
  assumes "w_batch w = []" and "w_next w = Some frm" and "length rs \<le> 2 ^ 32"
    and "case nxt of None \<Rightarrow> True | Some a \<Rightarrow> frm < a"
  shows "walk_left (w\<lparr>w_batch := rs, w_next := nxt\<rparr>) < walk_left w"
proof -
  have "(case nxt of None \<Rightarrow> 0 | Some a \<Rightarrow> (2 ^ 64 - unat a) * (2 ^ 32 + 1 :: nat)) + (2 ^ 32 + 1) \<le> (2 ^ 64 - unat frm) * (2 ^ 32 + 1)"
  proof (cases nxt)
    case None
    have "1 * (2 ^ 32 + 1) \<le> (2 ^ 64 - unat frm) * (2 ^ 32 + 1 :: nat)"
      using unat_u64_bound [of frm] by (intro mult_le_mono1) simp
    then show ?thesis by (simp add: None)
  next
    case (Some a)
    have "unat frm < unat a" using assms(4) Some by (simp add: word_less_nat_alt)
    then have "(2 ^ 64 - unat a + 1) * (2 ^ 32 + 1) \<le> (2 ^ 64 - unat frm) * (2 ^ 32 + 1 :: nat)"
      using unat_u64_bound [of a] by (intro mult_le_mono1) simp
    then show ?thesis by (simp add: Some add_mult_distrib)
  qed
  then show ?thesis using assms(1-3) by (simp add: walk_left_def)
qed

lemma ends_walk_next_loop:
  assumes "ending K rank"
  shows "walk_left w < n \<Longrightarrow>
     ends pool_ok (\<lambda>(r, w'). case r of Some (Inr x) \<Rightarrow> walk_left w' < walk_left w | _ \<Rightarrow> True) (walk_next_loop K n w)"
proof (induction n arbitrary: w)
  case (Suc n)
  show ?case
  proof (cases "w_batch w")
    case (Cons x rest)
    then show ?thesis by (auto intro!: ends_ret simp: walk_left_def split: option.split)
  next
    case empty: Nil
    show ?thesis
    proof (cases "w_next w")
      case None
      with empty show ?thesis by (auto intro!: ends_ret)
    next
      case (Some frm)
      let ?Q = "\<lambda>(r, w'). case r of Some (Inr x) \<Rightarrow> walk_left w' < walk_left w | _ \<Rightarrow> True"
      have more: "ends pool_ok ?Q (bindE (mapE (resolve_unresolved K) batch) (\<lambda>rs.
          walk_next_loop K n (w\<lparr>w_batch := rs, w_next := nxt\<rparr>)))"
        if "length batch \<le> 2 ^ 32" "case nxt of None \<Rightarrow> True | Some a \<Rightarrow> frm < a" for batch nxt
      proof (rule ends_bindE [OF ends_mapE [OF halts_resolve_unresolved [OF assms]]])
        fix rs :: "resolved list" assume "length rs = length batch"
        then have less: "walk_left (w\<lparr>w_batch := rs, w_next := nxt\<rparr>) < walk_left w"
          using that by (intro walk_left_batch [OF empty Some]) simp_all
        then have "walk_left (w\<lparr>w_batch := rs, w_next := nxt\<rparr>) < n" using Suc.prems by simp
        from Suc.IH [OF this] show "ends pool_ok ?Q (walk_next_loop K n (w\<lparr>w_batch := rs, w_next := nxt\<rparr>))"
          by (rule ends_weaken) (use less in \<open>auto split: option.splits sum.splits\<close>)
      qed
      have "ends pool_ok ?Q (matchE (extent_batch K frm (w_generation w))
          (\<lambda>(batch, nxt). bindE (mapE (resolve_unresolved K) batch) (\<lambda>rs.
             walk_next_loop K n (w\<lparr>w_batch := rs, w_next := nxt\<rparr>)))
          (\<lambda>e. ret (Some (Inl e), w\<lparr>w_next := None\<rparr>)))"
        by (rule ends_matchE [OF ends_extent_batch [OF assms]]) (auto intro!: more ends_ret split: prod.splits)
      then show ?thesis by (simp add: empty Some)
    qed
  qed
qed simp

section \<open>The scan\<close>

lemma enough_rounds: "ending K rank \<Longrightarrow> n \<le> 2 ^ 160 \<Longrightarrow> n < rounds K"
  by (simp add: ending_def)

lemma ends_Scanner_next_loop:
  assumes "ending K rank"
  shows "walk_left (sc_walk sc) < n \<Longrightarrow> walk_left (sc_walk sc) < rounds K \<Longrightarrow>
     ends pool_ok (\<lambda>x. fst x = None \<or> walk_left (sc_walk (snd x)) < walk_left (sc_walk sc)) (Scanner_next_loop K n sc)"
proof (induction n arbitrary: sc)
  case (Suc n)
  let ?Q = "\<lambda>x :: extent option \<times> scanner. fst x = None \<or> walk_left (sc_walk (snd x)) < walk_left (sc_walk sc)"
  have more: "ends pool_ok ?Q (Scanner_next_loop K n sc')" if "walk_left (sc_walk sc') < walk_left (sc_walk sc)" for sc'
    by (rule ends_weaken [OF Suc.IH]) (use that Suc.prems in auto)
  have next_one: "ends pool_ok (\<lambda>(r, w'). case r of Some (Inr x) \<Rightarrow> walk_left w' < walk_left (sc_walk sc) | _ \<Rightarrow> True)
      (walk_next K (sc_walk sc))"
    unfolding walk_next_def by (rule ends_walk_next_loop [OF assms Suc.prems(2)])
  show ?case
    unfolding Scanner_next_loop.simps
    by (intro ends_cases(1) ends_ret ends_bindE [OF next_one])
       (auto simp: Let_def leave_unresolved_simps intro!: ends_ret more split: prod.splits option.splits sum.splits resolved.splits)
qed simp

end
