(* ===== verification/Exits.thy ===== *)
theory Exits
  imports Ends
begin

text \<open>
  The program always ends, whether it rewrites or not: what \<open>Ends\<close> shows of the scan, carried through
  finding the holders of an extent (the lookup of a subvolume gets to less and less nested parents),
  rewriting it (reading starts each stretch at another reference, a dedupe gets through the stretch it
  is given), and the run.
\<close>

section \<open>Reaching files\<close>

lemma halts_ino_lookup: "own_state I \<Longrightarrow> halts I (ino_lookup K f t i)" "own_state I \<Longrightarrow> halts I (own_root_id K f)"
  unfolding ino_lookup_def own_root_id_def ino_lookup_args_def by (intro ends_intros; simp)+

lemma halts_open_beneath: "own_state I \<Longrightarrow> halts I (open_beneath K dir p flags)"
  unfolding open_beneath_def Let_def by (intro ends_intros; simp)

lemma halts_open_subvolume: "halts pool_ok (open_subvolume K topdir p root)"
  unfolding open_subvolume_def by (intro ends_intros halts_open_beneath halts_ino_lookup; simp)

text \<open>The parent a subvolume names is less deeply nested.\<close>

lemma ends_root_backref:
  assumes "ending K rank"
  shows "ends pool_ok (\<lambda>found. case found of None \<Rightarrow> True | Some (parent, _, _) \<Rightarrow> rank parent < rank root) (root_backref K root)"
  unfolding root_backref_def
proof (rule ends_search [where rank = rank])
  let ?lo = "(root, ROOT_BACKREF_KEY K, 0) :: tree_key" and ?hi = "(root, ROOT_BACKREF_KEY K, - 1) :: tree_key"
  fix h d and b b' :: "(u64 \<times> u64 \<times> path) option"
  assume b: "case b of None \<Rightarrow> True | Some (parent, _, _) \<Rightarrow> rank parent < rank root"
    and fair: "fair_item K rank (ROOT_TREE_OBJECTID K) ?lo ?hi (h, d)"
    and step: "(Inr (case b of None \<Rightarrow> backref_of K h d | Some b \<Rightarrow> Some b) :: io_error + _) = Inr b'"
  from fair have "?lo \<le> item_key (h, d)" "item_key (h, d) \<le> ?hi" by (simp_all add: fair_item_def)
  then have "sh_objectid h = root" "sh_type h = ROOT_BACKREF_KEY K"
    unfolding item_key_def by (auto simp: tree_key_le)
  then show "case b' of None \<Rightarrow> True | Some (parent, _, _) \<Rightarrow> rank parent < rank root"
    using fair b step by (auto simp: fair_item_def split: option.splits)
qed (use assms in \<open>simp_all add: ending_def\<close>)

lemma halts_find_subvolume:
  assumes "ending K rank"
    and "\<And>parent. rank parent < rank root \<Longrightarrow> halts pool_ok (subvolume_at K fs n parent)"
  shows "halts pool_ok (find_subvolume K fs n root)"
proof -
  have up: "halts pool_ok (bindE (root_backref K root) (\<lambda>backref.
               case backref of
                 None \<Rightarrow> ret None
               | Some (parent, dirid, name) \<Rightarrow>
                   bindE (subvolume_at K fs n parent) (\<lambda>parent_subvolume.
                   case parent_subvolume of
                     None \<Rightarrow> ret None
                   | Some sv \<Rightarrow>
                       bindE (ino_lookup K (fs_file fs) parent dirid) (\<lambda>dir.
                       ret (Some (path_join (path_join (sv_path sv) dir) name))))))"
    by (rule ends_bindE [OF ends_root_backref [OF assms(1)]])
       (auto intro!: ends_intros assms(2) halts_ino_lookup split: option.splits)
  show ?thesis
    unfolding find_subvolume.simps by (intro ends_intros up halts_open_subvolume; simp)
qed

lemma halts_subvolume_at:
  assumes "ending K rank"
  shows "rank root < n \<Longrightarrow> halts pool_ok (subvolume_at K fs n root)"
proof (induction n arbitrary: root)
  case (Suc n)
  have "halts pool_ok (find_subvolume K fs n root)"
    by (rule halts_find_subvolume [OF assms]) (use Suc in simp)
  then show ?case
    unfolding subvolume_at.simps
    by (intro ends_bindE [OF ends_getS] ends_cases ends_ret halts_bindE halts_own) simp_all
qed simp

lemma halts_inode_path:
  assumes "ending K rank"
  shows "halts pool_ok (inode_path K fs root inode)"
proof -
  have "rank root < rounds K" using assms by (simp add: ending_def)
  then have "halts pool_ok (subvolume_of K fs root)"
    unfolding subvolume_of_def by (rule halts_subvolume_at [OF assms])
  then show ?thesis
    unfolding inode_path_def Let_def by (intro ends_intros halts_open_subvolume; simp)
qed

lemma halts_Located_open: "halts pool_ok (Located_open K fs h)"
  unfolding Located_open_def open_inode_def
  by (intro ends_intros halts_open_beneath halts_ino_lookup; simp)

lemma halts_flags: "halts pool_ok (get_flags K f)" "halts pool_ok (set_flags K f flags)" "halts pool_ok (is_nocow K f)"
  unfolding get_flags_def set_flags_def is_nocow_def by (intro ends_intros; simp)+

lemma halts_locate_holders: "ending K rank \<Longrightarrow> halts pool_ok (locate_holders K fs e)"
proof -
  assume K: "ending K rank"
  have "halts pool_ok (locate_loop K fs hs located)" for hs located
    by (induction hs arbitrary: located)
       (auto simp: Let_def intro!: ends_intros halts_inode_path [OF K] halts_Located_open halts_flags)
  then show ?thesis by (simp add: locate_holders_def)
qed

section \<open>Rewriting\<close>

text \<open>Filling never goes back, so after a gap another reference starts the next stretch, and there are
  only so many.\<close>

lemma ends_fill_loop: "start \<le> at \<Longrightarrow> ends pool_ok (\<lambda>x. start \<le> fst x) (fill_loop K fs start fin refs at buf)"
proof (induction refs arbitrary: at buf)
  case (Cons rh refs)
  obtain r h where rh: "rh = (r, h)" by (cases rh)
  have read: "halts pool_ok (read_into K f o' lo hi b)" for f o' lo hi b
    unfolding read_into_def by (intro ends_intros; simp)
  show ?case
    unfolding rh fill_loop.simps Let_def
    by (intro ends_cases ends_ret Cons.IH halts_bindE halts_map_err halts_sys_call own_states halts_Located_open read)
       (use Cons.prems in \<open>auto simp: not_le\<close>)
qed (simp add: ends_ret)

lemma next_start_beyond:
  assumes "next_start refs read fin = start" and "start < fin"
  shows "read < start \<and> start \<in> r_extent_offset ` fst ` set refs"
proof -
  have fold_in: "fold min xs x \<in> insert x (set xs)" for x :: u64 and xs
    by (induction xs arbitrary: x) (auto simp: min_def)
  from assms obtain x xs where "filter (\<lambda>offset. read < offset) (map (\<lambda>rh. r_extent_offset (fst rh)) refs) = x # xs"
    and start: "start = fold min xs x"
    by (auto simp: next_start_def split: list.splits)
  moreover from this(1) have "set (x # xs) = {offset \<in> set (map (\<lambda>rh. r_extent_offset (fst rh)) refs). read < offset}"
    by (metis set_filter)
  ultimately show ?thesis using fold_in [of xs x] by (auto simp: image_iff)
qed

lemma halts_stretch_loop:
  "card {o' \<in> r_extent_offset ` fst ` set refs. start < o'} + 1 < n \<Longrightarrow>
     halts pool_ok (stretch_loop K fs refs fin n start copies)"
proof (induction n arbitrary: start copies)
  case (Suc n)
  show ?case
    unfolding stretch_loop.simps
  proof (intro ends_cases(1) ends_ret, simp, rule ends_bindE)
    show "ends pool_ok (\<lambda>x. start \<le> fst x) (fill K fs refs start fin (replicate (unat (fin - start)) 0))"
      unfolding fill_def by (rule ends_fill_loop) simp
    fix x :: "u64 \<times> u8 list" assume "start \<le> fst x"
    obtain read bytes where x: "x = (read, bytes)" by (cases x)
    have more: "halts pool_ok (stretch_loop K fs refs fin n (next_start refs read fin) copies')" for copies'
    proof (cases "fin \<le> next_start refs read fin")
      case True
      then show ?thesis using Suc.prems by (cases n) (auto intro: ends_ret)
    next
      case False
      let ?s = "next_start refs read fin" and ?S = "\<lambda>start. {o' \<in> r_extent_offset ` fst ` set refs. start < o'}"
      have s: "read < ?s" "?s \<in> r_extent_offset ` fst ` set refs"
        using next_start_beyond [OF refl, of refs read fin] False by auto
      then have "start < ?s" using \<open>start \<le> fst x\<close> by (simp add: x)
      then have "?S ?s \<subset> ?S start" using s(2) by auto
      then have "card (?S ?s) < card (?S start)" by (intro psubset_card_mono) simp_all
      then show ?thesis using Suc.prems by (intro Suc.IH) simp
    qed
    show "halts pool_ok (case x of (read, bytes) \<Rightarrow>
        bindE (unwrap (round_down read (fs_sectorsize fs))) (\<lambda>till.
        stretch_loop K fs refs fin n (next_start refs read fin)
          (if start < till
           then copies @ [\<lparr>lr_bytes = take (unat (till - start)) bytes, lr_start = start, lr_end = till\<rparr>]
           else copies)))"
      unfolding x by (simp only: prod.case) (intro ends_intros more)
  qed
qed simp

lemma halts_read_liveranges: "halts pool_ok (read_liveranges K fs e hs)"
proof -
  have "halts pool_ok (stretch_loop K fs refs fin (length refs + 2) start copies)" for refs fin start copies
  proof (rule halts_stretch_loop)
    have "card {o' \<in> r_extent_offset ` fst ` set refs. start < o'} \<le> card (r_extent_offset ` fst ` set refs)"
      by (rule card_mono) auto
    also have "\<dots> \<le> length refs"
      using card_length [of "map (r_extent_offset \<circ> fst) refs"] by (simp add: image_comp)
    finally show "card {o' \<in> r_extent_offset ` fst ` set refs. start < o'} + 1 < length refs + 2" by simp
  qed
  then show ?thesis unfolding read_liveranges_def Let_def by (intro ends_intros)
qed

text \<open>A dedupe gets on, by no more than it was asked for.\<close>

lemma ends_dedupe:
  assumes "ending K rank"
  shows "ends pool_ok (\<lambda>n. n \<le> len) (dedupe K src so len dst at)"
proof -
  have "ends pool_ok (\<lambda>x. snd x \<le> len) (sys_call (k_dedupe K src so len dst at))"
  proof (rule ends_sys_call [OF own_states(1)])
    fix w x w' assume "k_dedupe K src so len dst at w = (Inr x, w')"
    then have "k_dedupe K src so len dst at w = (Inr (fst x, snd x), w')" by simp
    with assms show "snd x \<le> len" unfolding ending_def orderly_def by blast
  qed
  then show ?thesis
    unfolding dedupe_def by (rule ends_bindE) (auto intro!: ends_intros split: prod.splits)
qed

lemma halts_chunk_loop:
  assumes "ending K rank"
  shows "unat till - unat at < n \<Longrightarrow> halts pool_ok (chunk_loop K fs p temp file start r fin till n at)"
proof (induction n arbitrary: at)
  case (Suc n)
  let ?cursor = "r_file_offset r + (at - r_extent_offset r)"
  let ?len = "min (till - at) (fin - ?cursor)"
  show ?case
    unfolding chunk_loop.simps Let_def
  proof (intro ends_cases(1) ends_ret, simp, simp, rule ends_bindE [OF ends_map_err [OF ends_dedupe [OF assms]]])
    fix deduped assume "\<not> till \<le> at" and len: "deduped \<le> ?len"
    then have at: "unat at \<le> unat till" by (simp add: word_le_nat_alt)
    have "unat deduped \<le> unat till - unat at"
      using len at by (simp add: word_le_nat_alt unat_min unat_sub_le)
    then have "unat (at + deduped) = unat at + unat deduped"
      using at unat_u64_bound [of till] by (intro unat_add_fits) (simp add: fits_def)
    then have "halts pool_ok (chunk_loop K fs p temp file start r fin till n (at + deduped))" if "deduped \<noteq> 0"
      using that Suc.prems \<open>unat deduped \<le> _\<close> by (intro Suc.IH) (auto simp: unat_eq_0 [symmetric] simp del: unat_eq_0)
    then show "halts pool_ok (if deduped = 0
          then raise (Failure_other p (''dedupe made no progress at offset '' @ show_nat (unat ?cursor)))
          else chunk_loop K fs p temp file start r fin till n (at + deduped))"
      by (intro ends_intros) simp_all
  qed
qed simp

lemma halts_stage: "halts pool_ok (stage K fs p bytes)"
  unfolding stage_def temp_file_def
  by (intro ends_intros halts_open_beneath halts_flags; simp)

lemma halts_redirect_all:
  assumes "ending K rank"
  shows "halts pool_ok (redirect_all K fs hbs lr)"
proof -
  have "halts pool_ok (redirect_ref K fs p temp f lr filesize r)" for p temp f filesize r
  proof -
    have "unat a - unat b < rounds K" for a b :: u64
      using enough_rounds [OF assms, of "unat a - unat b"] unat_u64_bound [of a] by simp
    then show ?thesis
      unfolding redirect_ref_def Let_def by (intro ends_intros halts_chunk_loop [OF assms]) simp_all
  qed
  then show ?thesis
    unfolding redirect_all_def redirect_chunks_def by (intro ends_intros halts_stage halts_Located_open)
qed

lemma halts_finish_holder:
  assumes "ending K rank"
  shows "halts pool_ok (finish_holder K fs h before)"
proof -
  have read: "halts pool_ok (read_into K f o' lo hi b)" for f o' lo hi b
    unfolding read_into_def by (intro ends_intros; simp)
  have "halts pool_ok (redirect_tail K fs p f frm n)" for p f frm n
    unfolding redirect_tail_def Let_def
    by (intro ends_intros read halts_stage ends_halts [OF ends_dedupe [OF assms]]; simp)
  then show ?thesis
    unfolding finish_holder_def modified_time_def Let_def
    by (intro ends_intros halts_Located_open; simp)
qed

lemma halts_realloc_extent:
  assumes "ending K rank"
  shows "halts pool_ok (realloc_extent K fs e hs)"
proof -
  have "halts pool_ok (HolderBefore_read K fs h)" for h
    unfolding HolderBefore_read_def modified_time_def by (intro ends_intros halts_Located_open; simp)
  moreover have "halts pool_ok (check_released K e h)" for h
    unfolding check_released_def by (intro ends_intros halts_inode_holds_extent [OF assms]; simp)
  ultimately show ?thesis
    unfolding realloc_extent_def
    by (intro ends_intros halts_read_liveranges halts_redirect_all [OF assms] halts_finish_holder [OF assms])
qed

section \<open>The run\<close>

lemma halts_Runner_process: "ending K rank \<Longrightarrow> halts pool_ok (Runner_process K fs e rn)"
  unfolding Runner_process_def
  by (intro ends_intros halts_locate_holders halts_realloc_extent; simp)

lemma ends_run_extent:
  assumes "ending K rank"
  shows "ends pool_ok (\<lambda>x. sc_walk (fst (snd x)) = sc_walk sc) (run_extent K fs e sc rn)"
proof -
  have again: "ends pool_ok (\<lambda>x. sc_walk (snd x) = sc_walk sc) (Scanner_resolve_again K e sc)"
    unfolding Scanner_resolve_again_def
    by (intro halts_matchE halts_resolve_again [OF assms] ends_ret) (simp_all add: leave_unresolved_simps)
  show ?thesis
    unfolding run_extent_def
    by (intro ends_cases ends_ret ends_bindE [OF again] halts_bindE halts_Runner_process [OF assms])
       (simp_all add: count_left_alone_def)
qed

lemma halts_run_loop:
  assumes "ending K rank"
  shows "walk_left (sc_walk sc) < n \<Longrightarrow> n \<le> rounds K \<Longrightarrow> halts pool_ok (run_loop K fs n sc rn)"
proof (induction n arbitrary: sc rn)
  case (Suc n)
  have enough: "walk_left (sc_walk sc) < rounds K" using Suc.prems by simp
  have more: "halts pool_ok (run_loop K fs n sc' rn')" if "walk_left (sc_walk sc') < walk_left (sc_walk sc)" for sc' rn'
    using that Suc.prems by (intro Suc.IH) simp_all
  show ?case
    unfolding run_loop.simps Scanner_next_def
  proof (rule ends_bindE [OF ends_Scanner_next_loop [OF assms enough enough]])
    fix x :: "extent option \<times> scanner" assume x: "fst x = None \<or> walk_left (sc_walk (snd x)) < walk_left (sc_walk sc)"
    have "halts pool_ok (bindE (run_extent K fs e sc1 rn) (\<lambda>(go_on, sc, rn). if go_on then run_loop K fs n sc rn else ret (sc, rn)))"
      if "walk_left (sc_walk sc1) < walk_left (sc_walk sc)" for e sc1
      by (rule ends_bindE [OF ends_run_extent [OF assms]]) (auto intro!: ends_intros more simp: that split: prod.splits)
    then show "halts pool_ok (case x of (nxt, sc) \<Rightarrow> case nxt of None \<Rightarrow> ret (sc, rn)
       | Some e \<Rightarrow> bindE (run_extent K fs e sc rn) (\<lambda>(go_on, sc, rn). if go_on then run_loop K fs n sc rn else ret (sc, rn)))"
      using x by (cases x) (auto intro!: ends_ret split: option.splits)
  qed
qed simp

text \<open>Opening the filesystem gives the handle an empty pool, whatever there was before.\<close>

lemma Filesystem_open_ends: "wp (Filesystem_open K p) (\<lambda>_ s. pool_ok s) (\<lambda>q _. q \<noteq> NoReturn) s"
proof (rule wpI)
  fix fs s' assume "Filesystem_open K p s = (Inr fs, s')"
  then show "pool_ok s'"
    by (auto simp: Filesystem_open_def bindE_Inr Let_def pool_ok_def split: if_splits)
next
  have reset: "halts (\<lambda>_. True) (modifyS f)" for f :: "'a sys \<Rightarrow> 'a sys" by (rule ends_modifyS) simp
  have "halts (\<lambda>_. True) (Filesystem_open K p)"
    unfolding Filesystem_open_def Let_def
    by (intro ends_intros halts_ino_lookup halts_open_beneath reset; simp)
  from ends_wp [OF this, of s] show "q \<noteq> NoReturn" if "Filesystem_open K p s = (Inl q, s')" for q s'
    using that by (auto simp: wp_def)
qed

lemma ends_Scanner_new: "ends pool_ok (\<lambda>sc. walk_left (sc_walk sc) < 2 ^ 160) (Scanner_new K fs)"
proof -
  have "halts pool_ok (generation K fs)" unfolding generation_def by (intro ends_intros; simp)
  then have "ends pool_ok (\<lambda>w. walk_left w < 2 ^ 160) (walk K fs)"
    unfolding walk_def sync_def by (intro halts_bindE halts_sys_call own_states ends_ret) (simp_all add: walk_left_def)
  then show ?thesis unfolding Scanner_new_def by (rule ends_bindE) (auto intro: ends_ret)
qed

lemma run_halts:
  assumes "ending K rank"
  shows "wp (run K opts) (\<lambda>_ _. True) (\<lambda>q _. q \<noteq> NoReturn) s"
proof -
  have scan: "halts pool_ok (if op_apply opts \<and> fs_read_only fs
          then ret (Inl (other_error ''mounted read-only: --apply needs the filesystem mounted read-write''), [])
          else
            matchE (Scanner_new K fs)
              (\<lambda>sc. bindE (run_loop K fs (rounds K) sc (Runner_new opts)) (\<lambda>(sc, rn). run_end K opts fs sc rn))
              (\<lambda>e. ret (Inl e, [])))" for fs
  proof (intro ends_cases(1) ends_ret ends_matchE [OF ends_Scanner_new], simp)
    fix sc :: scanner assume "walk_left (sc_walk sc) < 2 ^ 160"
    then have "walk_left (sc_walk sc) < rounds K" using assms by (simp add: ending_def)
    then have "halts pool_ok (run_loop K fs (rounds K) sc (Runner_new opts))" by (rule halts_run_loop [OF assms]) simp
    then show "halts pool_ok (bindE (run_loop K fs (rounds K) sc (Runner_new opts)) (\<lambda>(sc, rn). run_end K opts fs sc rn))"
      unfolding run_end_def sync_def Let_def by (intro ends_intros; simp)
  qed simp
  show ?thesis
    unfolding run_def wp_matchE
  proof (rule wp_mono [OF Filesystem_open_ends], goal_cases)
    case (1 fs t)
    show ?case by (rule wp_mono [OF ends_wp [OF scan 1]]) simp_all
  next
    case (2 q t)
    then show ?case by (cases q) (simp_all add: wp_simps)
  qed
qed

text \<open>
  C11: The program ends, also where it rewrites, and however the filesystem changes while it runs: it
  exits with an exit code provided only that a search is answered with items of the range asked for,
  that a dedupe reports no more than it was asked for, and that no subvolume is nested in itself. No
  two answers of the kernel need to agree with each other, and any call may fail at any time.
\<close>

theorem program_ends:
  assumes "orderly K rank" and "2 ^ 160 < rounds K" and "\<forall>root. rank root < rounds K"
  shows "\<exists>ending s'. main K euid args s = (Inr ending, s')"
proof -
  have "wp (run K (parse_options args)) (\<lambda>_ _. True) (\<lambda>q _. q \<noteq> NoReturn) s"
    by (rule run_halts [of K rank]) (use assms in \<open>simp add: ending_def\<close>)
  then have "wp (main K euid args) (\<lambda>_ _. True) (\<lambda>q _. q \<noteq> NoReturn) s"
    by (simp add: main_def Let_def wp_simps) (auto elim!: wp_mono simp: wp_simps split: prod.split sum.split)
  with main_ends [of K euid args s] show ?thesis
    by (cases "main K euid args s") (auto simp: wp_def)
qed

definition long_kernel :: "(unit, unit) kernel" where
  "long_kernel = small_kernel\<lparr>rounds := 2 ^ 160 + 1\<rparr>"

lemma long_orderly: "orderly long_kernel (\<lambda>_. 0)"
  unfolding orderly_def
proof (intro conjI allI impI)
  have abi: "header_layout long_kernel = header_layout_v2"
    by (simp add: long_kernel_def) (simp add: btrfs_abi_def)
  fix key n w nr bytes w' assume "k_search long_kernel key n w = (Inr (nr, bytes), w')"
  then have nr: "nr = of_nat (length (matching small_tree key))" and bytes: "bytes = encode_items (matching small_tree key)"
    by (simp_all add: long_kernel_def small_kernel_def tree_kernel_def)
  let ?m = "matching small_tree key"
  have "length ?m \<le> 1"
    unfolding matching_def by (rule order.trans [OF length_filter_le length_small_tree])
  then have "unat nr = length ?m" unfolding nr by (simp add: unat_of_nat)
  moreover have "encodes long_kernel bytes ?m"
    unfolding bytes by (rule encodes_items [OF abi]) (use small_tree_fits [of "sk_tree_id key"] in \<open>simp add: matching_def tree_fits_def\<close>)
  moreover have "length bytes \<le> BUF_SIZE"
    using length_encode_filter [of "in_range key" "small_tree (sk_tree_id key)"] small_tree_fits [of "sk_tree_id key"]
    by (simp add: bytes matching_def tree_fits_def)
  moreover have "fair_item long_kernel (\<lambda>_. 0) (sk_tree_id key) (min_key key) (max_key key) i" if "i \<in> set ?m" for i
  proof -
    have "i = root_item_5 \<or> i = extent_item_257 \<or> i = file_item_257"
      using that by (auto simp: matching_def small_tree_def split: if_splits)
    then have "sh_type (fst i) \<le> 255" "sh_type (fst i) \<noteq> 144"
      by (auto simp: root_item_5_def extent_item_257_def file_item_257_def)
    moreover have "ROOT_BACKREF_KEY long_kernel = 144" by (simp add: long_kernel_def) (simp add: btrfs_abi_def)
    ultimately show ?thesis using that by (simp add: fair_item_def matching_def in_range_def)
  qed
  ultimately show "\<exists>got. unat nr = length got \<and> encodes long_kernel bytes got \<and> length bytes \<le> BUF_SIZE \<and>
      list_all (fair_item long_kernel (\<lambda>_. 0) (sk_tree_id key) (min_key key) (max_key key)) got"
    by (intro exI [of _ ?m]) (simp add: list_all_iff)
next
  fix src at len dst to w status n w'
  assume "k_dedupe long_kernel src at len dst to w = (Inr (status, n), w')"
  then show "n \<le> len" by (simp add: long_kernel_def small_kernel_simps)
qed

lemma program_ends_witness: "\<exists>ending s'. main long_kernel 0 (sample_args True) (sample_sys ()) = (Inr ending, s')"
  by (rule program_ends [OF long_orderly]) (simp_all add: long_kernel_def)

end
