(* ===== verification/Spec2Isabelle.thy ===== *)
theory Spec2Isabelle
  imports Prelude Grouping Ranges Format Extent Os Search Tally Sample Resolve Walk Files Scan
    Tests Run Live Redirect Rewrite Modified Smooth Succeeds Paths Runner Applied Driver Accounts Panics Parallel Returns Complete Ends Exits
begin

text \<open>
  A verification development for btrealloc, which reclaims unreachable space on btrfs: it walks all data
  extents of a filesystem (src/kernel.rs, src/scan.rs), works out which bytes of each no file
  references any more (src/extent.rs), and, where it is worth it, rewrites what is still live into
  compact copies and points every file that holds the extent at them (src/run.rs), so that the kernel
  frees the old extent.

  \<^bold>\<open>The parts and where they are modelled.\<close>

  \<^item> \<^bold>\<open>Prelude\<close>: machine integers (words that wrap, as in a release build), and computations. A function
    of the source that can fail is a state passing computation that ends with a value or stops:
    \<open>Raise e\<close> is an \<open>Err(e)\<close>, \<open>Panic\<close> a Rust panic, \<open>NoReturn\<close> a loop that used up the rounds the
    model grants it. The proof rules over them are here: weakest preconditions (\<open>wp\<close>), preservation
    of a state property (\<open>preserves\<close>), freedom from panics (\<open>calm\<close>), returning (\<open>safe\<close>).
  \<^item> \<^bold>\<open>Grouping\<close>, \<^bold>\<open>Ranges\<close>: two idioms of the source as contracts (locales), growing the last group of a
    vector and merging sorted ranges.
  \<^item> \<^bold>\<open>Format\<close> (src/format.rs) and \<^bold>\<open>Extent\<close> (src/extent.rs): sizes for people; extents, the live ranges of
    an extent, what is used and free on disk, the holders, what is worth rewriting. \<^bold>\<open>Tests\<close> runs the unit tests
    of src/extent.rs on the model.
  \<^item> \<^bold>\<open>Os\<close>: what the program runs on, as a parameter: the record \<open>kernel\<close> of system calls, ioctls and
    interface constants, over any type of kernel states, descriptors being values of any type. The
    state computations run over, \<open>sys\<close>, is the kernel's state and what a \<open>Filesystem\<close> handle keeps
    behind its mutexes.
  \<^item> \<^bold>\<open>Search\<close>, \<^bold>\<open>Tally\<close>, \<^bold>\<open>Resolve\<close>, \<^bold>\<open>Walk\<close>, \<^bold>\<open>Files\<close> (src/kernel.rs): the tree search and its resumption; what the
    extent tree says of an extent; resolving an extent to the references into it, by its leaves or by
    the backreference walk; the walk over the extent tree in batches; opening the filesystem, its
    subvolumes, inodes and temporary files, and dedupe.
  \<^item> \<^bold>\<open>Scan\<close> (src/scan.rs): the counts, the report, and the scanner that hands extents over.
  \<^item> \<^bold>\<open>Run\<close>, \<^bold>\<open>Runner\<close> (src/run.rs): rewriting one extent, and processing extents with an account of it.
  \<^item> \<^bold>\<open>Driver\<close> (src/lib.rs, src/main.rs): the whole run, and the program around it.

  \<^bold>\<open>What is proved.\<close>

  \<^item> \<^bold>\<open>Search\<close>, \<^bold>\<open>Tally\<close>, \<^bold>\<open>Resolve\<close>, \<^bold>\<open>Walk\<close>, \<^bold>\<open>Scan\<close>: on trees that stay as they are (\<open>serving K tree\<close>: the search
    ioctl answers from \<open>tree\<close>, in as large pieces as it likes) a resumed search gives exactly the items
    of its range; the walk and the scan hand over every extent once; resolving gives exactly the
    references, and whatever the kernel answers, only references into the extent.
  \<^item> \<^bold>\<open>Extent\<close>: live ranges are exactly the referenced bytes; used and free bytes split the extent; the
    holders partition the references.
  \<^item> \<^bold>\<open>Files\<close>: a path is only a way to reach an inode: what is opened is the inode the extent tree named
    (\<open>identifies\<close>: a descriptor stays on its inode). The contract of what only reads, \<open>reads_keep\<close>, is
    carried from the kernel's operations through every function that uses them.
  \<^item> \<^bold>\<open>Live\<close>, \<^bold>\<open>Redirect\<close>: on files that stay as they are (\<open>file_view\<close>), what is read to be staged is the
    extent's data and misses no whole sector a holder has; a redirect moves exactly the bytes of a
    holder's references that lie in the stretch staged to the same bytes of the copy (\<open>sharing\<close>: what
    the kernel promises of a dedupe); and an extent reallocated without an error is one that no
    located holder references any more. \<open>temps_keep\<close> is the contract of what writes to temporary
    files only.
  \<^item> \<^bold>\<open>Rewrite\<close>, \<^bold>\<open>Succeeds\<close>: the rewrite of one extent from its first read to its last check. With the
    contents of temporaries in view (\<open>staging\<close>), every byte a file is given is its own, whatever goes
    wrong, and success means that all that can be moved has been. On a kernel that refuses nothing
    (the locales \<open>obliging\<close>, and \<open>rewriting\<close> with what the trees then say of the extent) it does
    succeed, and moves the last partial sectors too. \<^bold>\<open>Smooth\<close> has the rules for raising no error,
    and for succeeding (\<open>gives\<close>).
    \<^bold>\<open>Modified\<close> lets other processes write to the files meanwhile (\<open>versioned\<close>): success means that none did
    while the files were pointed at the copies.
  \<^item> \<^bold>\<open>Paths\<close>: the path a file is found by is the one the trees and the kernel give it (the locale
    \<open>naming\<close>, \<open>subvolume_path\<close>), with the cache of subvolumes as a map included in that function
    (\<open>remembers\<close>). \<^bold>\<open>Applied\<close> puts this, the rewrite and the account of a run together (\<open>rewritable\<close>): with
    --apply an extent is located, rewritten, printed and counted.
  \<^item> \<^bold>\<open>Accounts\<close>: the report of a run adds up, extent by extent. \<^bold>\<open>Panics\<close>: the program never panics, and
    the tables it counts in keep their rows. \<^bold>\<open>Ends\<close>, \<^bold>\<open>Exits\<close>: the program always ends with an exit code,
    also where it rewrites and while the trees change under it (\<open>orderly\<close>: what that takes of the kernel).
    \<^bold>\<open>Returns\<close>: a dry run over trees that stay ends with few rounds, and leaves them as they are.
    \<^bold>\<open>Driver\<close>: a dry run changes nothing, and a run writes to nothing but temporary files.
  \<^item> \<^bold>\<open>Parallel\<close>: where the backreference walk answers the same throughout (\<open>finding\<close>), what an extent
    resolves to is a function of the trees (\<open>resolved_in\<close>), and so the threads of the pool may take a batch
    in any order (\<open>par_map\<close>). \<^bold>\<open>Complete\<close>: the account of a dry run covers every data extent of the extent
    tree, and under the same condition its counts are a function of the trees. Both rest on one contract
    (the locale \<open>resolving\<close> of Walk): what is known of an extent before it is resolved is what is seen of
    it when it is handed over, be it its address or all that it resolves to.

  Each theorem that assumes something of the kernel has a witness beside it that runs it on a concrete
  kernel (\<open>Sample\<close>: one that serves given trees), where what is assumed holds.

  \<^bold>\<open>Bounds and rounds.\<close> \<open>rounds K\<close> bounds the loops whose end only the kernel decides: resuming a search,
  the walk, looking up parents of subvolumes, deduping a chunk, the loop of \<open>run\<close>. The theorems that
  claim a result say how many are needed: more than the tree has items, more than subvolumes are
  nested; without any tree to go by, more than there are keys (2^160), of which each round of a search
  leaves fewer to come, as each extent handed over leaves fewer of the at most 2^32 an answer can hold
  for each of the 2^64 addresses. Loops the program bounds itself need none, or are given what is enough by construction:
  reading a live range starts each stretch but the first at another reference, so the number of
  references and two more are enough; the buffer of the backreference walk grows to a fixed size.

  \<^bold>\<open>Not modelled.\<close>

  \<^item> The kernel's side of each call, and the marshalling of its arguments in \<open>unsafe\<close> blocks: a call is one
    operation of the parameter. Descriptors are not closed; memory does not run out.
  \<^item> Concurrency: a batch is resolved on rayon's pool in the program and in order here, and the results
    are in the same order. That another order gives the same is proved for whole extents; two threads
    within one call of the kernel, or holding a mutex at once, are not modelled. Other processes are the
    kernel state changing under the calls: theorems without an assumption that it stays hold for them.
  \<^item> Diagnostics through the \<open>log\<close> crate, but for what \<open>main\<close> itself logs: they do not come back into the
    program. What is printed to standard output is a list of lines.
  \<^item> clap: \<open>args\<close> is what it makes of the command line. The set-up of the thread pool, the tests that run in
    a virtual machine and the packaging.
\<close>

end
